(* ===== verification/Prelude.thy ===== *)
theory Prelude
  imports Main "HOL-Library.Word"
begin

text \<open>
  What every component of the development shares: the machine integers and byte
  buffers of the code, the outcome of a fallible operation, and the generic lemmas on
  lists and words that carry the component proofs.

  A Rust function that may fail is a function into \<open>outcome\<close>: \<open>Ok\<close> is the value of a
  normal return, \<open>Err\<close> the error value of a \<^verbatim>\<open>Result::Err\<close>, and \<open>Panic\<close> the abort that
  an out-of-range index or slice, or an \<^verbatim>\<open>expect\<close> on \<^verbatim>\<open>None\<close>, causes. That a function
  never panics is therefore a statement, and one the development proves.
\<close>

section \<open>Machine integers and buffers\<close>

type_synonym u8 = "8 word"
type_synonym u16 = "16 word"
type_synonym u32 = "32 word"
type_synonym u64 = "64 word"
type_synonym bytes = "u8 list"

unbundle bit_operations_syntax

named_theorems outcome_simps \<open>rewriting an outcome computation to its value\<close>
named_theorems field_simps_at \<open>reading fields out of buffers other fields were written into\<close>

section \<open>Outcomes\<close>

datatype ('e, 'a) outcome = Ok 'a | Err 'e | Panic

text \<open>The result of a function that returns a plain value and may panic on the way.\<close>

type_synonym 'a may_panic = "(unit, 'a) outcome"

fun andThen :: "('e, 'a) outcome \<Rightarrow> ('a \<Rightarrow> ('e, 'b) outcome) \<Rightarrow> ('e, 'b) outcome" where
  "andThen (Ok x) f = f x"
| "andThen (Err e) f = Err e"
| "andThen Panic f = Panic"

fun mapErr :: "('e \<Rightarrow> 'f) \<Rightarrow> ('e, 'a) outcome \<Rightarrow> ('f, 'a) outcome" where
  "mapErr g (Ok x) = Ok x"
| "mapErr g (Err e) = Err (g e)"
| "mapErr g Panic = Panic"

fun mapOk :: "('a \<Rightarrow> 'b) \<Rightarrow> ('e, 'a) outcome \<Rightarrow> ('e, 'b) outcome" where
  "mapOk g (Ok x) = Ok (g x)"
| "mapOk g (Err e) = Err e"
| "mapOk g Panic = Panic"

text \<open>A loop over a list that stops at the first error or panic, with the state it threads.\<close>

fun foldOutcome :: "('s \<Rightarrow> 'a \<Rightarrow> ('e, 's) outcome) \<Rightarrow> 's \<Rightarrow> 'a list \<Rightarrow> ('e, 's) outcome" where
  "foldOutcome f s [] = Ok s"
| "foldOutcome f s (x # xs) = andThen (f s x) (\<lambda>s'. foldOutcome f s' xs)"

fun mapOutcome :: "('a \<Rightarrow> ('e, 'b) outcome) \<Rightarrow> 'a list \<Rightarrow> ('e, 'b list) outcome" where
  "mapOutcome f [] = Ok []"
| "mapOutcome f (x # xs) = andThen (f x) (\<lambda>y. andThen (mapOutcome f xs) (\<lambda>ys. Ok (y # ys)))"

lemma andThen_Ok_iff [simp]:
  "andThen m f = Ok y \<longleftrightarrow> (\<exists>x. m = Ok x \<and> f x = Ok y)"
  by (cases m) auto

lemma andThen_Panic_iff [simp]:
  "andThen m f = Panic \<longleftrightarrow> m = Panic \<or> (\<exists>x. m = Ok x \<and> f x = Panic)"
  by (cases m) auto

lemma andThen_Err_iff [simp]:
  "andThen m f = Err e \<longleftrightarrow> m = Err e \<or> (\<exists>x. m = Ok x \<and> f x = Err e)"
  by (cases m) auto

lemma andThen_cong [fundef_cong]:
  "m = m' \<Longrightarrow> (\<And>x. m' = Ok x \<Longrightarrow> f x = g x) \<Longrightarrow> andThen m f = andThen m' g"
  by (cases m') auto

lemma andThen_no_Panic:
  "m \<noteq> Panic \<Longrightarrow> (\<And>x. m = Ok x \<Longrightarrow> f x \<noteq> Panic) \<Longrightarrow> andThen m f \<noteq> Panic"
  by (cases m) auto

lemma if_Err_no_Panic: "(\<not> c \<Longrightarrow> m \<noteq> Panic) \<Longrightarrow> (if c then Err e else m) \<noteq> Panic"
  by simp

lemma mapErr_iffs [simp]:
  "mapErr g m = Ok x \<longleftrightarrow> m = Ok x"
  "mapErr g m = Panic \<longleftrightarrow> m = Panic"
  by (cases m; simp)+

lemma mapErr_Err_iff [simp]: "mapErr g m = Err e \<longleftrightarrow> (\<exists>e'. m = Err e' \<and> g e' = e)"
  by (cases m) auto

lemma foldOutcome_append:
  "foldOutcome f s (xs @ ys) = andThen (foldOutcome f s xs) (\<lambda>s'. foldOutcome f s' ys)"
proof (induction xs arbitrary: s)
  case Nil
  then show ?case by simp
next
  case (Cons x xs)
  then show ?case by (cases "f s x") simp_all
qed

lemma mapOutcome_all_Ok:
  "(\<And>x. x \<in> set xs \<Longrightarrow> f x = Ok (g x)) \<Longrightarrow> mapOutcome f xs = Ok (map g xs)"
  by (induction xs) auto

lemma mapOutcome_no_Panic:
  "(\<And>x. x \<in> set xs \<Longrightarrow> f x \<noteq> Panic) \<Longrightarrow> mapOutcome f xs \<noteq> Panic"
  by (induction xs) auto

lemma mapOutcome_ex: "(\<And>x. x \<in> set xs \<Longrightarrow> \<exists>y. f x = Ok y) \<Longrightarrow> \<exists>ys. mapOutcome f xs = Ok ys"
proof (induction xs)
  case (Cons x xs)
  obtain y where "f x = Ok y" using Cons.prems [of x] by auto
  moreover obtain ys where "mapOutcome f xs = Ok ys" using Cons by auto
  ultimately show ?case by simp
qed simp

lemma mapOutcome_nth: "mapOutcome f xs = Ok ys \<Longrightarrow> i < length xs \<Longrightarrow> f (xs ! i) = Ok (ys ! i)"
  by (induction xs arbitrary: ys i) (auto simp: nth_Cons split: nat.split)

lemma mapOutcome_Ok_cong:
  "mapOutcome f xs = Ok ys \<Longrightarrow> (\<And>x y. x \<in> set xs \<Longrightarrow> f x = Ok y \<Longrightarrow> y = g x) \<Longrightarrow> ys = map g xs"
  by (induction xs arbitrary: ys) auto

lemma mapOutcome_length: "mapOutcome f xs = Ok ys \<Longrightarrow> length ys = length xs"
  by (induction xs arbitrary: ys) auto

section \<open>Indexing and slicing, as Rust checks them\<close>

definition idx_at :: "'a list \<Rightarrow> nat \<Rightarrow> ('e, 'a) outcome" where
  "idx_at xs i = (if i < length xs then Ok (xs ! i) else Panic)"

definition slice :: "'a list \<Rightarrow> nat \<Rightarrow> nat \<Rightarrow> ('e, 'a list) outcome" where
  "slice xs a b = (if a \<le> b \<and> b \<le> length xs then Ok (take (b - a) (drop a xs)) else Panic)"

text \<open>Overwrite the bytes from \<open>off\<close> on with \<open>bs\<close>: the pure effect of a copy into a slice.\<close>

definition splice :: "'a list \<Rightarrow> nat \<Rightarrow> 'a list \<Rightarrow> 'a list" where
  "splice b off bs = take off b @ bs @ drop (off + length bs) b"

lemma idx_at_Ok [simp]: "i < length xs \<Longrightarrow> idx_at xs i = Ok (xs ! i)"
  by (simp add: idx_at_def)

lemma slice_Ok [simp]:
  "a \<le> b \<Longrightarrow> b \<le> length xs \<Longrightarrow> slice xs a b = Ok (take (b - a) (drop a xs))"
  by (simp add: slice_def)

lemma length_splice [simp]:
  "off + length bs \<le> length b \<Longrightarrow> length (splice b off bs) = length b"
  by (simp add: splice_def)

lemma nth_splice:
  assumes "off + length bs \<le> length b" "i < length b"
  shows "splice b off bs ! i =
    (if off \<le> i \<and> i < off + length bs then bs ! (i - off) else b ! i)"
  using assms by (auto simp: splice_def nth_append min_def not_less)

lemma nth_splice_in:
  "off + length bs \<le> length b \<Longrightarrow> off \<le> i \<Longrightarrow> i < off + length bs \<Longrightarrow>
    splice b off bs ! i = bs ! (i - off)"
  by (simp add: nth_splice)

lemma nth_splice_out:
  "off + length bs \<le> length b \<Longrightarrow> i < length b \<Longrightarrow> i < off \<or> off + length bs \<le> i \<Longrightarrow>
    splice b off bs ! i = b ! i"
  by (auto simp: nth_splice)

lemma take_drop_splice_same:
  "off + length bs \<le> length b \<Longrightarrow> take (length bs) (drop off (splice b off bs)) = bs"
  by (simp add: splice_def)

lemma take_drop_splice_other:
  assumes "off + length bs \<le> length b" "off' + n \<le> length b"
    and "off' + n \<le> off \<or> off + length bs \<le> off'"
  shows "take n (drop off' (splice b off bs)) = take n (drop off' b)"
  using assms by (intro nth_equalityI) (auto simp: nth_splice_out)

lemma drop_splice_after:
  "off + length bs \<le> n \<Longrightarrow> off + length bs \<le> length b \<Longrightarrow> drop n (splice b off bs) = drop n b"
  by (simp add: splice_def)

lemma take_splice_before: "n \<le> off \<Longrightarrow> off \<le> length b \<Longrightarrow> take n (splice b off bs) = take n b"
  by (simp add: splice_def)

lemma splice_same_value:
  "off + length bs \<le> length b \<Longrightarrow> take (length bs) (drop off b) = bs \<Longrightarrow> splice b off bs = b"
  by (metis add.commute append_take_drop_id drop_drop splice_def)

lemma splice_Nil [simp]: "splice b off [] = b"
  by (simp add: splice_def)

lemma splice_full: "length bs = length b \<Longrightarrow> splice b 0 bs = bs"
  by (simp add: splice_def)

section \<open>Words\<close>

lemma unat_less_2p: "unat (x :: 'a::len word) < 2 ^ LENGTH('a)"
  by (rule unsigned_less)

lemma unat_u8_less [simp]: "unat (x :: u8) < 256"
  using unat_less_2p [of x] by simp

lemma unat_u16_less [simp]: "unat (x :: u16) < 65536"
  using unat_less_2p [of x] by simp

lemma unat_u32_less [simp]: "unat (x :: u32) < 4294967296"
  using unat_less_2p [of x] by simp

lemma unat_u64_less [simp]: "unat (x :: u64) < 18446744073709551616"
  using unat_less_2p [of x] by simp

lemma unat_ucast_up:
  "LENGTH('a) \<le> LENGTH('b) \<Longrightarrow> unat (ucast (x :: 'a::len word) :: 'b::len word) = unat x"
  by (simp add: unsigned_ucast_eq take_bit_nat_eq_self_iff)
     (metis less_le_trans numeral_le_iff power_increasing_iff unat_less_2p one_less_numeral_iff
       semiring_norm(76) take_bit_nat_eq_self)

lemma unat_of_nat_small:
  "n < 2 ^ LENGTH('a) \<Longrightarrow> unat (of_nat n :: 'a::len word) = n"
  by (simp add: unat_of_nat take_bit_nat_eq_self)

section \<open>Checked arithmetic\<close>

definition u64_max :: nat where
  "u64_max = 2 ^ 64 - 1"

definition checked_add :: "nat \<Rightarrow> nat \<Rightarrow> nat option" where
  "checked_add a b = (if a + b \<le> u64_max then Some (a + b) else None)"

text \<open>
  A plain \<^verbatim>\<open>+\<close> or \<^verbatim>\<open>-\<close> on \<^verbatim>\<open>u64\<close> and \<^verbatim>\<open>usize\<close>: leaving the 64 bits is the panic that the
  overflow checks of the profile the code is tested under raise.
\<close>

definition add64 :: "nat \<Rightarrow> nat \<Rightarrow> ('e, nat) outcome" where
  "add64 a b = (if a + b \<le> u64_max then Ok (a + b) else Panic)"

definition sub64 :: "nat \<Rightarrow> nat \<Rightarrow> ('e, nat) outcome" where
  "sub64 a b = (if b \<le> a then Ok (a - b) else Panic)"

fun sum64 :: "nat \<Rightarrow> nat list \<Rightarrow> ('e, nat) outcome" where
  "sum64 acc [] = Ok acc"
| "sum64 acc (x # xs) = andThen (add64 acc x) (\<lambda>acc. sum64 acc xs)"

lemma add64_Ok [simp]: "a + b \<le> u64_max \<Longrightarrow> add64 a b = Ok (a + b)"
  by (simp add: add64_def)

lemma sub64_Ok [simp]: "b \<le> a \<Longrightarrow> sub64 a b = Ok (a - b)"
  by (simp add: sub64_def)

lemma sum64_eq:
  "acc + sum_list xs \<le> u64_max \<Longrightarrow> sum64 acc xs = Ok (acc + sum_list xs)"
  by (induction xs arbitrary: acc) (simp_all add: add.assoc)

lemma sum64_cases: "sum64 acc xs = Ok n \<Longrightarrow> n = acc + sum_list xs"
  by (induction xs arbitrary: acc) (fastforce simp: add64_def split: if_splits)+

definition checked_sub :: "nat \<Rightarrow> nat \<Rightarrow> nat option" where
  "checked_sub a b = (if b \<le> a then Some (a - b) else None)"

definition div_ceil :: "nat \<Rightarrow> nat \<Rightarrow> nat" where
  "div_ceil a b = (a + b - 1) div b"

lemma div_ceil_least:
  assumes "n \<le> q * b"
  shows "div_ceil n b \<le> q"
proof (cases "b = 0")
  case False
  then have "n + b - 1 < Suc q * b" using assms by simp
  then have "(n + b - 1) div b < Suc q" using False by (simp only: div_less_iff_less_mult)
  then show ?thesis by (simp add: div_ceil_def)
qed (simp add: div_ceil_def)

lemma div_ceil_le:
  assumes "0 < b" shows "a \<le> b * div_ceil a b"
proof -
  have "a + b - 1 = b * div_ceil a b + (a + b - 1) mod b" by (simp add: div_ceil_def)
  moreover have "(a + b - 1) mod b < b" using assms by simp
  ultimately show ?thesis using assms by linarith
qed

lemma less_div_ceil: "0 < b \<Longrightarrow> i < div_ceil n b \<longleftrightarrow> i * b < n"
  using div_ceil_least [of n i b] div_ceil_le [of b n]
  by (metis mult.commute mult_le_mono1 not_le order_trans)

lemma div_ceil_less:
  assumes "1 < b" "1 < a" shows "div_ceil a b < a"
proof -
  obtain a' b' where "a = Suc (Suc a')" "b = Suc (Suc b')"
  proof
    show "a = Suc (Suc (a - 2))" "b = Suc (Suc (b - 2))" using assms by simp_all
  qed
  then have "a + b - 1 < a * b" by simp
  then show ?thesis using assms by (simp add: div_ceil_def div_less_iff_less_mult)
qed

lemma div_ceil_pos: "0 < b \<Longrightarrow> 0 < a \<Longrightarrow> 0 < div_ceil a b"
  by (simp add: div_ceil_def div_greater_zero_iff)

text \<open>Rust's \<^verbatim>\<open>chunks\<close>: consecutive pieces of at most \<open>n\<close>, the last one possibly short.\<close>

function chunks :: "nat \<Rightarrow> 'a list \<Rightarrow> 'a list list" where
  "chunks n xs = (if n = 0 \<or> xs = [] then [] else take n xs # chunks n (drop n xs))"
  by pat_completeness auto
termination
  by (relation "measure (\<lambda>(n, xs). length xs)") auto

declare chunks.simps [simp del]

lemma concat_chunks: "0 < n \<Longrightarrow> concat (chunks n xs) = xs"
  by (induction n xs rule: chunks.induct) (subst chunks.simps, auto)

lemma chunks_nonempty: "0 < n \<Longrightarrow> c \<in> set (chunks n xs) \<Longrightarrow> c \<noteq> [] \<and> length c \<le> n"
proof (induction n xs rule: chunks.induct)
  case (1 n xs)
  then show ?case by (subst (asm) (2) chunks.simps) (auto split: if_splits)
qed

lemma length_chunks: "0 < n \<Longrightarrow> length (chunks n xs) = div_ceil (length xs) n"
proof (induction n xs rule: chunks.induct)
  case (1 n xs)
  show ?case
  proof (cases "xs = []")
    case True
    then show ?thesis using "1.prems" by (simp add: chunks.simps div_ceil_def)
  next
    case False
    then have "length (chunks n xs) = Suc (div_ceil (length xs - n) n)"
      using "1.IH" "1.prems" by (simp add: chunks.simps [of n xs])
    also have "\<dots> = div_ceil (length xs) n"
    proof (cases "length xs \<le> n")
      case True
      moreover obtain y ys where "xs = y # ys" using False by (cases xs) auto
      then have "(length xs + n - 1) div n = 1"
        using True "1.prems" by (intro div_nat_eqI) auto
      ultimately show ?thesis using "1.prems" by (simp add: div_ceil_def)
    next
      case False
      then have "length xs + n - 1 = (length xs - 1) + n" "length xs - n + n - 1 = length xs - 1"
        using "1.prems" by linarith+
      then show ?thesis
        using "1.prems" by (simp only: div_ceil_def div_add_self2 neq0_conv not_False_eq_True)
    qed
    finally show ?thesis .
  qed
qed

lemma nth_chunks:
  assumes "0 < n" "i < length (chunks n xs)"
  shows "chunks n xs ! i = take n (drop (i * n) xs)"
  using assms
proof (induction i arbitrary: xs)
  case 0
  then show ?case by (subst chunks.simps) (auto simp: chunks.simps [of n xs] split: if_splits)
next
  case (Suc i)
  then have "xs \<noteq> []" by (auto simp: chunks.simps)
  then have "chunks n xs = take n xs # chunks n (drop n xs)" using Suc.prems(1) by (simp add: chunks.simps [of n xs])
  then show ?case using Suc by (simp add: add.commute)
qed

lemma take_upt_min: "take n [a..<b] = [a..<min b (a + n)]"
  by (rule nth_equalityI) (auto simp: min_def)

lemma chunks_upt:
  assumes "0 < n"
  shows "chunks n [0..<m] = map (\<lambda>i. [i * n..<min m (i * n + n)]) [0..<div_ceil m n]"
proof (rule nth_equalityI)
  show "length (chunks n [0..<m]) = length (map (\<lambda>i. [i * n..<min m (i * n + n)]) [0..<div_ceil m n])"
    using assms by (simp add: length_chunks)
next
  fix i
  assume "i < length (chunks n [0..<m])"
  then show "chunks n [0..<m] ! i = map (\<lambda>i. [i * n..<min m (i * n + n)]) [0..<div_ceil m n] ! i"
    using assms by (simp add: nth_chunks length_chunks take_upt_min)
qed

end
