(* ===== verification/ByteFields.thy ===== *)
theory ByteFields
  imports Prelude
begin

text \<open>
  The byte accessors of \<^verbatim>\<open>crates/ferrosys/src/bytes.rs\<close>: every on-disk structure reads and writes its fields through them.
  A buffer is the list of its bytes; an access past its end is a \<open>Panic\<close>, as the index
  and slice checks of the code make it.

  The locale \<open>scalar_field\<close> is the contract a width of accessor offers: reading after
  writing, reading beside a write, and exactly when an access panics.
\<close>

section \<open>Scalars and their bytes\<close>

text \<open>Rust's \<^verbatim>\<open>from_le_bytes\<close> and \<^verbatim>\<open>to_le_bytes\<close>, at every width.\<close>

fun from_le :: "bytes \<Rightarrow> 'a::len word" where
  "from_le [] = 0"
| "from_le (b # bs) = ucast b OR push_bit 8 (from_le bs)"

fun to_le :: "nat \<Rightarrow> 'a::len word \<Rightarrow> bytes" where
  "to_le 0 v = []"
| "to_le (Suc n) v = ucast v # to_le n (drop_bit 8 v)"

definition from_be :: "bytes \<Rightarrow> 'a::len word" where
  "from_be bs = from_le (rev bs)"

definition to_be :: "nat \<Rightarrow> 'a::len word \<Rightarrow> bytes" where
  "to_be n v = rev (to_le n v)"

lemma length_to_le [simp]: "length (to_le n v) = n"
  by (induction n v rule: to_le.induct) auto

lemma length_to_be [simp]: "length (to_be n v) = n"
  by (simp add: to_be_def)

lemma from_le_zeros [simp]: "from_le (replicate n 0) = 0"
  by (induction n) simp_all

lemma from_to_le: "from_le (to_le n v) = take_bit (8 * n) v"
proof (induction n v rule: to_le.induct)
  case (1 v)
  then show ?case by simp
next
  case (2 n v)
  then show ?case
    by (intro bit_word_eqI) (auto simp: bit_simps dest: bit_imp_le_length)
qed

lemma bit_from_le: "bit (from_le bs :: 'a::len word) i \<Longrightarrow> i < 8 * length bs"
proof (induction bs arbitrary: i)
  case Nil
  then show ?case by simp
next
  case (Cons b bs)
  show ?case
  proof (cases "i < 8")
    case False
    then have "bit (from_le bs :: 'a word) (i - 8)"
      using Cons.prems by (auto simp: bit_simps dest: bit_imp_le_length)
    then show ?thesis using Cons.IH False by fastforce
  qed simp
qed

lemma to_from_le:
  "8 * length bs \<le> LENGTH('a) \<Longrightarrow> to_le (length bs) (from_le bs :: 'a::len word) = bs"
proof (induction bs)
  case Nil
  then show ?case by simp
next
  case (Cons b bs)
  have "ucast (ucast b OR push_bit 8 (from_le bs) :: 'a word) = b"
    using Cons.prems by (intro bit_word_eqI) (auto simp: bit_simps)
  moreover have "drop_bit 8 (ucast b OR push_bit 8 (from_le bs) :: 'a word) = from_le bs"
    using Cons.prems
    by (intro bit_word_eqI) (auto simp: bit_simps dest: bit_imp_le_length bit_from_le)
  ultimately show ?case using Cons by simp
qed

lemma to_from_le_n:
  "length bs = n \<Longrightarrow> 8 * n \<le> LENGTH('a) \<Longrightarrow> to_le n (from_le bs :: 'a::len word) = bs"
  using to_from_le by blast

lemma from_le_to_le16 [simp]: "from_le (to_le 2 v) = (v :: u16)"
  by (simp add: from_to_le take_bit_word_eq_self)

lemma from_le_to_le32 [simp]: "from_le (to_le 4 v) = (v :: u32)"
  by (simp add: from_to_le take_bit_word_eq_self)

lemma from_le_to_le64 [simp]: "from_le (to_le 8 v) = (v :: u64)"
  by (simp add: from_to_le take_bit_word_eq_self)

lemma from_be_to_be32 [simp]: "from_be (to_be 4 v) = (v :: u32)"
  by (simp add: from_be_def to_be_def)

lemma to_from_be_n:
  "length bs = n \<Longrightarrow> 8 * n \<le> LENGTH('a) \<Longrightarrow> to_be n (from_be bs :: 'a::len word) = bs"
  by (simp add: from_be_def to_be_def to_from_le_n)

section \<open>The accessors\<close>

text \<open>
  Each read indexes its bytes one after the other; each write copies into the slice of
  its width. The buffer is left as it was when a write panics, so a panic has no value.
\<close>

fun get_bytes :: "nat \<Rightarrow> bytes \<Rightarrow> nat \<Rightarrow> ('e, bytes) outcome" where
  "get_bytes 0 buf off = Ok []"
| "get_bytes (Suc n) buf off =
     andThen (idx_at buf off) (\<lambda>b. andThen (get_bytes n buf (off + 1)) (\<lambda>bs. Ok (b # bs)))"

definition get_u8 :: "bytes \<Rightarrow> nat \<Rightarrow> ('e, u8) outcome" where
  "get_u8 buf off = idx_at buf off"

definition get_u16 :: "bytes \<Rightarrow> nat \<Rightarrow> ('e, u16) outcome" where
  "get_u16 buf off = mapOk from_le (get_bytes 2 buf off)"

definition get_u32 :: "bytes \<Rightarrow> nat \<Rightarrow> ('e, u32) outcome" where
  "get_u32 buf off = mapOk from_le (get_bytes 4 buf off)"

definition get_u24 :: "bytes \<Rightarrow> nat \<Rightarrow> ('e, u32) outcome" where
  "get_u24 buf off = mapOk (\<lambda>bs. from_le (bs @ [0])) (get_bytes 3 buf off)"

definition get_u64 :: "bytes \<Rightarrow> nat \<Rightarrow> ('e, u64) outcome" where
  "get_u64 buf off = mapOk from_le (get_bytes 8 buf off)"

definition get_u32_be :: "bytes \<Rightarrow> nat \<Rightarrow> ('e, u32) outcome" where
  "get_u32_be buf off = mapOk from_be (get_bytes 4 buf off)"

definition get_arr :: "nat \<Rightarrow> bytes \<Rightarrow> nat \<Rightarrow> ('e, bytes) outcome" where
  "get_arr n buf off = slice buf off (off + n)"

definition get_u64_be :: "bytes \<Rightarrow> nat \<Rightarrow> ('e, u64) outcome" where
  "get_u64_be buf off = mapOk from_be (get_arr 8 buf off)"

definition put_arr :: "bytes \<Rightarrow> nat \<Rightarrow> bytes \<Rightarrow> ('e, bytes) outcome" where
  "put_arr buf off v = (if off + length v \<le> length buf then Ok (splice buf off v) else Panic)"

definition put_u8 :: "bytes \<Rightarrow> nat \<Rightarrow> u8 \<Rightarrow> ('e, bytes) outcome" where
  "put_u8 buf off v = (if off < length buf then Ok (buf[off := v]) else Panic)"

definition put_u16 :: "bytes \<Rightarrow> nat \<Rightarrow> u16 \<Rightarrow> ('e, bytes) outcome" where
  "put_u16 buf off v = put_arr buf off (to_le 2 v)"

definition put_u32 :: "bytes \<Rightarrow> nat \<Rightarrow> u32 \<Rightarrow> ('e, bytes) outcome" where
  "put_u32 buf off v = put_arr buf off (to_le 4 v)"

definition put_u64 :: "bytes \<Rightarrow> nat \<Rightarrow> u64 \<Rightarrow> ('e, bytes) outcome" where
  "put_u64 buf off v = put_arr buf off (to_le 8 v)"

definition put_u32_be :: "bytes \<Rightarrow> nat \<Rightarrow> u32 \<Rightarrow> ('e, bytes) outcome" where
  "put_u32_be buf off v = put_arr buf off (to_be 4 v)"

lemma get_bytes_eq:
  "get_bytes n buf off =
    (if n = 0 \<or> off + n \<le> length buf then Ok (take n (drop off buf)) else Panic)"
proof (induction n arbitrary: off)
  case 0
  then show ?case by simp
next
  case (Suc n)
  show ?case
  proof (cases "off + Suc n \<le> length buf")
    case True
    then have "drop off buf = buf ! off # drop (Suc off) buf"
      by (simp add: Cons_nth_drop_Suc)
    with True show ?thesis by (simp add: Suc)
  next
    case False
    then show ?thesis using Suc [of "off + 1"] by (auto simp: idx_at_def split: if_splits)
  qed
qed

section \<open>The contract of an accessor pair\<close>

locale scalar_field =
  fixes width :: nat
    and enc :: "'v \<Rightarrow> bytes"
    and dec :: "bytes \<Rightarrow> 'v"
    and get :: "bytes \<Rightarrow> nat \<Rightarrow> ('e, 'v) outcome"
    and put :: "bytes \<Rightarrow> nat \<Rightarrow> 'v \<Rightarrow> ('f, bytes) outcome"
  assumes width_pos: "0 < width"
    and length_enc: "length (enc v) = width"
    and dec_enc: "dec (enc v) = v"
    and enc_dec: "length bs = width \<Longrightarrow> enc (dec bs) = bs"
    and get_law: "get b off =
      (if off + width \<le> length b then Ok (dec (take width (drop off b))) else Panic)"
    and put_law: "put b off v = (if off + width \<le> length b then Ok (splice b off (enc v)) else Panic)"
begin

lemma get_Panic_iff: "get b off = Panic \<longleftrightarrow> length b < off + width"
  by (simp add: get_law not_le)

lemma put_Panic_iff: "put b off v = Panic \<longleftrightarrow> length b < off + width"
  by (simp add: put_law not_le)

lemma put_length: "put b off v = Ok b' \<Longrightarrow> length b' = length b"
  by (auto simp: put_law length_enc split: if_splits)

text \<open>A chain of writes into a buffer of \<open>n\<close> bytes, one step.\<close>

lemma put_chain:
  assumes "length b = n" "off + width \<le> n" "\<And>b'. length b' = n \<Longrightarrow> \<exists>r. f b' = Ok r \<and> length r = n"
  shows "\<exists>r. andThen (put b off v) f = Ok r \<and> length r = n"
  using assms by (simp add: put_law length_enc)

lemma put_chain_end:
  assumes "length b = n" "off + width \<le> n"
  shows "\<exists>r. put b off v = Ok r \<and> length r = n"
  using assms by (simp add: put_law length_enc)

lemma get_put_same: "put b off v = Ok b' \<Longrightarrow> get b' off = Ok v"
  using take_drop_splice_same [of off "enc v" b]
  by (auto simp: put_law get_law length_enc dec_enc split: if_splits)

lemma put_frame:
  assumes "put b off v = Ok b'" "off' + n \<le> off \<or> off + width \<le> off'" "off' + n \<le> length b"
  shows "take n (drop off' b') = take n (drop off' b)"
  using assms take_drop_splice_other [of off "enc v" b off' n]
  by (auto simp: put_law length_enc split: if_splits)

lemma get_put_other:
  assumes "put b off v = Ok b'" "off' + width \<le> off \<or> off + width \<le> off'"
  shows "get b' off' = get b off'"
  using put_frame [OF assms(1), of off' width] assms put_length [OF assms(1)]
  by (auto simp: get_law)

lemma put_get: "get b off = Ok v \<Longrightarrow> put b off v = Ok b"
  by (auto simp: get_law put_law length_enc enc_dec intro!: splice_same_value split: if_splits)

lemma put_put_same: "put b off v = Ok b' \<Longrightarrow> put b' off w = put b off w"
  by (auto simp: put_law splice_def length_enc min_def split: if_splits)

lemma get_splice_same:
  "off + width \<le> length b \<Longrightarrow> get (splice b off (enc v)) off = Ok v"
  using take_drop_splice_same [of off "enc v" b] by (simp add: get_law length_enc dec_enc)

lemma get_splice_other:
  "off + length bs \<le> length b \<Longrightarrow> off' + width \<le> off \<or> off + length bs \<le> off' \<Longrightarrow>
    get (splice b off bs) off' = get b off'"
  by (auto simp: get_law take_drop_splice_other)

end

lemma mapOk_get_bytes:
  "0 < n \<Longrightarrow> mapOk f (get_bytes n b off) =
    (if off + n \<le> length b then Ok (f (take n (drop off b))) else Panic)"
  by (simp add: get_bytes_eq)

interpretation f16: scalar_field 2 "to_le 2 :: u16 \<Rightarrow> bytes" from_le get_u16 put_u16
  by unfold_locales
    (auto simp: get_u16_def put_u16_def put_arr_def mapOk_get_bytes to_from_le_n)

interpretation f32: scalar_field 4 "to_le 4 :: u32 \<Rightarrow> bytes" from_le get_u32 put_u32
  by unfold_locales
    (auto simp: get_u32_def put_u32_def put_arr_def mapOk_get_bytes to_from_le_n)

interpretation f64: scalar_field 8 "to_le 8 :: u64 \<Rightarrow> bytes" from_le get_u64 put_u64
  by unfold_locales
    (auto simp: get_u64_def put_u64_def put_arr_def mapOk_get_bytes to_from_le_n)

interpretation f32be: scalar_field 4 "to_be 4 :: u32 \<Rightarrow> bytes" from_be get_u32_be put_u32_be
  by unfold_locales
    (auto simp: get_u32_be_def put_u32_be_def put_arr_def mapOk_get_bytes to_from_be_n)

interpretation f8: scalar_field 1 "\<lambda>v. [v]" hd get_u8 put_u8
proof
  show "get_u8 b off = (if off + 1 \<le> length b then Ok (hd (take 1 (drop off b))) else Panic)" for b off
    by (auto simp: get_u8_def idx_at_def hd_drop_conv_nth)
  show "put_u8 b off v = (if off + 1 \<le> length b then Ok (splice b off [v]) else Panic)" for b off v
    by (auto simp: put_u8_def splice_def upd_conv_take_nth_drop)
  show "[hd bs] = bs" if "length bs = 1" for bs :: bytes
    using that by (cases bs) auto
qed auto

text \<open>What an access does, by the length of the buffer alone.\<close>

lemmas get_laws = f8.get_law f16.get_law f32.get_law f64.get_law f32be.get_law
lemmas put_chains = f8.put_chain f16.put_chain f32.put_chain f64.put_chain f32be.put_chain
  f8.put_chain_end f16.put_chain_end f32.put_chain_end f64.put_chain_end f32be.put_chain_end
lemmas put_laws = f8.put_law f16.put_law f32.put_law f64.put_law f32be.put_law

end
