(* ===== verification/OnDisk.thy ===== *)
theory OnDisk
  imports ByteFields
begin

text \<open>
  The ext on-disk layer's shared vocabulary, \<^verbatim>\<open>crates/ferrosys/src/ondisk/mod.rs\<close>: the
  error every parser of a structure returns, and the 64-bit fields ext4 stores as two
  32-bit halves.
\<close>

datatype ParseError =
    TooShort string nat nat            \<comment> \<open>structure, bytes needed, bytes available\<close>
  | BadMagic string nat nat            \<comment> \<open>structure, magic found, magic expected\<close>
  | InvalidField string string nat     \<comment> \<open>structure, field, value found\<close>

text \<open>\<^verbatim>\<open>ondisk/mod.rs\<close>: the two 32-bit halves of a 64-bit field.\<close>

definition split64 :: "u64 \<Rightarrow> u32 \<times> u32" where
  "split64 v = (ucast v, ucast (drop_bit 32 v))"

definition join64 :: "u32 \<Rightarrow> u32 \<Rightarrow> u64" where
  "join64 lo hi = push_bit 32 (ucast hi) OR ucast lo"

lemma split64_join64 [simp]: "split64 (join64 lo hi) = (lo, hi)"
  by (force simp: split64_def join64_def bit_simps intro!: bit_word_eqI dest: bit_imp_le_length)

lemma join64_split64 [simp]: "join64 (fst (split64 v)) (snd (split64 v)) = v"
  by (rule bit_word_eqI) (auto simp: split64_def join64_def bit_simps not_less)

end
