(* ===== verification/ExtentEntry.thy ===== *)
theory ExtentEntry
  imports OnDisk
begin

text \<open>
  The three twelve-byte records of an extent tree, \<^verbatim>\<open>ondisk/extent.rs\<close>: the node header,
  the index entry and the leaf entry, with the packing of a leaf's length and its
  initialized flag into one sixteen-bit field.
\<close>

definition EXTENT_MAGIC :: u16 where
  "EXTENT_MAGIC = 0xf30a"

definition EXTENT_ENTRY_SIZE :: nat where
  "EXTENT_ENTRY_SIZE = 12"

definition UNINIT_LEN_LIMIT :: u16 where
  "UNINIT_LEN_LIMIT = 32768"

definition UNINIT_MAX_LEN :: u16 where
  "UNINIT_MAX_LEN = UNINIT_LEN_LIMIT - 1"

record ExtentHeader =
  eh_entries :: u16
  eh_max :: u16
  eh_depth :: u16
  eh_generation :: u32

record ExtentIdx =
  idx_block :: u32
  idx_leaf :: u64

record ExtentLeaf =
  leaf_block :: u32
  leaf_len :: u16
  leaf_start :: u64
  initialized :: bool

section \<open>Serialization\<close>

definition header_to_bytes :: "ExtentHeader \<Rightarrow> (ParseError, bytes) outcome" where
  "header_to_bytes h =
     andThen (put_u16 (replicate EXTENT_ENTRY_SIZE 0) 0 EXTENT_MAGIC) (\<lambda>b.
     andThen (put_u16 b 2 (eh_entries h)) (\<lambda>b.
     andThen (put_u16 b 4 (eh_max h)) (\<lambda>b.
     andThen (put_u16 b 6 (eh_depth h)) (\<lambda>b.
     put_u32 b 8 (eh_generation h)))))"

definition header_from_bytes :: "bytes \<Rightarrow> (ParseError, ExtentHeader) outcome" where
  "header_from_bytes b =
     andThen (get_u16 b 0) (\<lambda>magic.
     if magic \<noteq> EXTENT_MAGIC
     then Err (BadMagic ''ExtentHeader'' (unat magic) (unat EXTENT_MAGIC))
     else
       andThen (get_u16 b 2) (\<lambda>e.
       andThen (get_u16 b 4) (\<lambda>m.
       andThen (get_u16 b 6) (\<lambda>d.
       andThen (get_u32 b 8) (\<lambda>g.
       Ok \<lparr>eh_entries = e, eh_max = m, eh_depth = d, eh_generation = g\<rparr>)))))"

definition idx_to_bytes :: "ExtentIdx \<Rightarrow> (ParseError, bytes) outcome" where
  "idx_to_bytes x =
     andThen (put_u32 (replicate EXTENT_ENTRY_SIZE 0) 0 (idx_block x)) (\<lambda>b.
     andThen (put_u32 b 4 (ucast (idx_leaf x))) (\<lambda>b.
     put_u16 b 8 (ucast (drop_bit 32 (idx_leaf x)))))"

definition idx_from_bytes :: "bytes \<Rightarrow> (ParseError, ExtentIdx) outcome" where
  "idx_from_bytes b =
     andThen (get_u32 b 0) (\<lambda>blk.
     andThen (get_u32 b 4) (\<lambda>lo.
     andThen (get_u16 b 8) (\<lambda>hi.
     Ok \<lparr>idx_block = blk, idx_leaf = join64 lo (ucast hi)\<rparr>)))"

definition leaf_raw_len :: "ExtentLeaf \<Rightarrow> (ParseError, u16) outcome" where
  "leaf_raw_len l =
     (let invalid = Err (InvalidField ''ExtentLeaf'' ''ee_len'' (unat (leaf_len l)))
      in if initialized l
         then if leaf_len l > UNINIT_LEN_LIMIT then invalid else Ok (leaf_len l)
         else if leaf_len l = 0 \<or> leaf_len l > UNINIT_MAX_LEN then invalid
         else Ok (leaf_len l + UNINIT_LEN_LIMIT))"

definition leaf_to_bytes :: "ExtentLeaf \<Rightarrow> (ParseError, bytes) outcome" where
  "leaf_to_bytes l =
     andThen (leaf_raw_len l) (\<lambda>raw_len.
     andThen (put_u32 (replicate EXTENT_ENTRY_SIZE 0) 0 (leaf_block l)) (\<lambda>b.
     andThen (put_u16 b 4 raw_len) (\<lambda>b.
     andThen (put_u16 b 6 (ucast (drop_bit 32 (leaf_start l)))) (\<lambda>b.
     put_u32 b 8 (ucast (leaf_start l))))))"

definition leaf_from_bytes :: "bytes \<Rightarrow> (ParseError, ExtentLeaf) outcome" where
  "leaf_from_bytes b =
     andThen (get_u16 b 4) (\<lambda>raw_len.
     let (len, init) = (if raw_len > UNINIT_LEN_LIMIT then (raw_len - UNINIT_LEN_LIMIT, False)
                        else (raw_len, True))
     in
       andThen (get_u32 b 0) (\<lambda>blk.
       andThen (get_u32 b 8) (\<lambda>lo.
       andThen (get_u16 b 6) (\<lambda>hi.
       Ok \<lparr>leaf_block = blk, leaf_len = len, leaf_start = join64 lo (ucast hi),
           initialized = init\<rparr>))))"

section \<open>The bytes written\<close>

lemma header_to_bytes_eq:
  "header_to_bytes h = Ok (to_le 2 EXTENT_MAGIC @ to_le 2 (eh_entries h) @ to_le 2 (eh_max h)
     @ to_le 2 (eh_depth h) @ to_le 4 (eh_generation h))"
  by (simp add: header_to_bytes_def put_laws EXTENT_ENTRY_SIZE_def splice_def del: to_le.simps)

lemma idx_to_bytes_eq:
  "idx_to_bytes x = Ok (to_le 4 (idx_block x) @ to_le 4 (ucast (idx_leaf x) :: u32)
     @ to_le 2 (ucast (drop_bit 32 (idx_leaf x)) :: u16) @ [0, 0])"
  by (simp add: idx_to_bytes_def put_laws EXTENT_ENTRY_SIZE_def splice_def numeral_2_eq_2
      del: to_le.simps)

lemma leaf_to_bytes_eq:
  "leaf_to_bytes l = mapOk (\<lambda>raw. to_le 4 (leaf_block l) @ to_le 2 raw
     @ to_le 2 (ucast (drop_bit 32 (leaf_start l)) :: u16) @ to_le 4 (ucast (leaf_start l) :: u32))
     (leaf_raw_len l)"
  by (cases "leaf_raw_len l")
    (simp_all add: leaf_to_bytes_def put_laws EXTENT_ENTRY_SIZE_def splice_def del: to_le.simps)

section \<open>Round trips\<close>

lemma join64_low48:
  "join64 (ucast (v :: u64)) (ucast (ucast (drop_bit 32 v) :: u16)) = take_bit 48 v"
  by (rule bit_word_eqI) (auto simp: join64_def bit_simps not_less)

lemma leaf_raw_len_cases:
  "leaf_raw_len l =
    (if initialized l \<and> unat (leaf_len l) \<le> 32768 then Ok (leaf_len l)
     else if \<not> initialized l \<and> 0 < unat (leaf_len l) \<and> unat (leaf_len l) < 32768
     then Ok (leaf_len l + 32768)
     else Err (InvalidField ''ExtentLeaf'' ''ee_len'' (unat (leaf_len l))))"
  by (auto simp: leaf_raw_len_def Let_def UNINIT_LEN_LIMIT_def UNINIT_MAX_LEN_def
      word_less_nat_alt word_le_nat_alt unat_eq_0 not_less)

definition leaf_encodable :: "ExtentLeaf \<Rightarrow> bool" where
  "leaf_encodable l \<longleftrightarrow>
     (if initialized l then unat (leaf_len l) \<le> 32768
      else 0 < unat (leaf_len l) \<and> unat (leaf_len l) < 32768)"

lemma leaf_to_bytes_Ok_iff: "(\<exists>b. leaf_to_bytes l = Ok b) \<longleftrightarrow> leaf_encodable l"
  by (auto simp: leaf_to_bytes_eq leaf_raw_len_cases leaf_encodable_def)

lemma leaf_to_bytes_length: "leaf_to_bytes l = Ok b \<Longrightarrow> length b = EXTENT_ENTRY_SIZE"
  by (cases "leaf_raw_len l") (auto simp: leaf_to_bytes_eq EXTENT_ENTRY_SIZE_def)

lemma leaf_from_bytes_Ok: "length b = EXTENT_ENTRY_SIZE \<Longrightarrow> \<exists>l. leaf_from_bytes b = Ok l"
  by (simp add: leaf_from_bytes_def get_laws EXTENT_ENTRY_SIZE_def split: prod.split)

lemma idx_from_bytes_Ok: "length b = EXTENT_ENTRY_SIZE \<Longrightarrow> \<exists>x. idx_from_bytes b = Ok x"
  by (simp add: idx_from_bytes_def get_laws EXTENT_ENTRY_SIZE_def)

lemma header_round_trip: "header_to_bytes h = Ok b \<Longrightarrow> header_from_bytes b = Ok h"
  by (auto simp: header_to_bytes_eq header_from_bytes_def get_laws simp del: to_le.simps)

lemma idx_round_trip:
  "idx_to_bytes x = Ok b \<Longrightarrow> idx_from_bytes b = Ok (x\<lparr>idx_leaf := take_bit 48 (idx_leaf x)\<rparr>)"
  by (auto simp: idx_to_bytes_eq idx_from_bytes_def get_laws join64_low48 simp del: to_le.simps)

lemma leaf_round_trip:
  assumes "leaf_to_bytes l = Ok b"
  shows "leaf_from_bytes b = Ok (l\<lparr>leaf_start := take_bit 48 (leaf_start l)\<rparr>)"
proof -
  have "unat (leaf_len l + 32768) = unat (leaf_len l) + 32768" if "unat (leaf_len l) < 32768"
    using that by (simp add: unat_word_ariths)
  moreover have "leaf_len l + 32768 - 32768 = leaf_len l" by simp
  ultimately show ?thesis
    using assms
    by (auto simp: leaf_to_bytes_eq leaf_from_bytes_def get_laws join64_low48 leaf_raw_len_cases
        UNINIT_LEN_LIMIT_def word_less_nat_alt simp del: to_le.simps split: if_splits)
qed

end
