(* ===== verification/Feature.thy ===== *)
theory Feature
  imports Prelude "HOL-Library.Word"
begin

text \<open>
  The ext feature words and the sets a formatter accepts, \<^verbatim>\<open>crates/ferrosys/src/feature.rs\<close> over the
  flag words of \<^verbatim>\<open>flags.rs\<close>. A feature word is the 32-bit word of the superblock; the three types
  the macro \<^verbatim>\<open>named_flags\<close> makes of it are one type here, each with its own table of names.
  \<^verbatim>\<open>MetaBg\<close> and its siblings are \<^verbatim>\<open>FeatureError\<close>'s constructors.
\<close>

unbundle bit_operations_syntax

section \<open>Flag words\<close>

definition contains :: "32 word \<Rightarrow> 32 word \<Rightarrow> bool" where
  "contains w flag \<longleftrightarrow> w AND flag = flag"

definition without :: "32 word \<Rightarrow> 32 word \<Rightarrow> 32 word" where
  "without w flag = w AND NOT flag"

type_synonym flag_table = "(string \<times> 32 word) list"

definition unknown_bits :: "flag_table \<Rightarrow> 32 word \<Rightarrow> 32 word" where
  "unknown_bits flags w = w AND NOT (foldl (\<lambda>known (_, bit). known OR bit) 0 flags)"

definition flag_names :: "flag_table \<Rightarrow> 32 word \<Rightarrow> string list" where
  "flag_names flags w = map fst (filter (\<lambda>(_, bit). bit \<noteq> 0 \<and> w AND bit = bit) flags)"

definition from_name :: "flag_table \<Rightarrow> string \<Rightarrow> 32 word option" where
  "from_name flags name = map_option snd (find (\<lambda>(word, _). word = name) flags)"

section \<open>The words\<close>

definition HAS_JOURNAL :: "32 word" where "HAS_JOURNAL = 0x0004"
definition EXT_ATTR :: "32 word" where "EXT_ATTR = 0x0008"
definition RESIZE_INODE :: "32 word" where "RESIZE_INODE = 0x0010"
definition DIR_INDEX :: "32 word" where "DIR_INDEX = 0x0020"
definition ORPHAN_FILE :: "32 word" where "ORPHAN_FILE = 0x1000"

definition FILETYPE :: "32 word" where "FILETYPE = 0x0002"
definition META_BG :: "32 word" where "META_BG = 0x0010"
definition EXTENTS :: "32 word" where "EXTENTS = 0x0040"
definition SIXTY_FOUR_BIT :: "32 word" where "SIXTY_FOUR_BIT = 0x0080"
definition FLEX_BG :: "32 word" where "FLEX_BG = 0x0200"
definition CSUM_SEED :: "32 word" where "CSUM_SEED = 0x2000"

definition SPARSE_SUPER :: "32 word" where "SPARSE_SUPER = 0x0001"
definition LARGE_FILE :: "32 word" where "LARGE_FILE = 0x0002"
definition HUGE_FILE :: "32 word" where "HUGE_FILE = 0x0008"
definition DIR_NLINK :: "32 word" where "DIR_NLINK = 0x0020"
definition EXTRA_ISIZE :: "32 word" where "EXTRA_ISIZE = 0x0040"
definition METADATA_CSUM :: "32 word" where "METADATA_CSUM = 0x0400"

lemmas compat_flags = HAS_JOURNAL_def EXT_ATTR_def RESIZE_INODE_def DIR_INDEX_def ORPHAN_FILE_def
lemmas incompat_flags = FILETYPE_def META_BG_def EXTENTS_def SIXTY_FOUR_BIT_def FLEX_BG_def CSUM_SEED_def
lemmas ro_compat_flags = SPARSE_SUPER_def LARGE_FILE_def HUGE_FILE_def DIR_NLINK_def EXTRA_ISIZE_def METADATA_CSUM_def

definition Compat :: flag_table where
  "Compat = [(''has_journal'', HAS_JOURNAL), (''ext_attr'', EXT_ATTR), (''resize_inode'', RESIZE_INODE),
     (''dir_index'', DIR_INDEX), (''orphan_file'', ORPHAN_FILE)]"

definition Incompat :: flag_table where
  "Incompat = [(''filetype'', FILETYPE), (''meta_bg'', META_BG), (''extent'', EXTENTS), (''64bit'', SIXTY_FOUR_BIT),
     (''flex_bg'', FLEX_BG), (''metadata_csum_seed'', CSUM_SEED)]"

definition RoCompat :: flag_table where
  "RoCompat = [(''sparse_super'', SPARSE_SUPER), (''large_file'', LARGE_FILE), (''huge_file'', HUGE_FILE),
     (''dir_nlink'', DIR_NLINK), (''extra_isize'', EXTRA_ISIZE), (''metadata_csum'', METADATA_CSUM)]"

section \<open>Feature sets\<close>

record FeatureSet =
  fs_compat :: "32 word"
  fs_incompat :: "32 word"
  fs_ro_compat :: "32 word"
  fs_block_size :: nat
  fs_inode_size :: nat

datatype FeatureError =
    MetaBg
  | RequiresExtents string                       \<comment> \<open>feature\<close>
  | FlexBgRequired
  | FiletypeRequired
  | CsumSeedWithoutMetadataCsum
  | OrphanFileWithoutJournal
  | ResizeInodeRequiresLargeFile nat nat         \<comment> \<open>block size, size\<close>
  | UnsupportedBlockSize nat
  | UnsupportedInodeSize nat

definition LARGE_FILE_MIN_SIZE :: nat where "LARGE_FILE_MIN_SIZE = 0x80000000"

definition resize_inode_size :: "nat \<Rightarrow> nat" where
  "resize_inode_size block_size = (let apb = block_size div 4 in block_size * (12 + apb + apb * apb))"

definition EMPTY :: FeatureSet where
  "EMPTY = \<lparr>fs_compat = 0, fs_incompat = 0, fs_ro_compat = 0, fs_block_size = 4096, fs_inode_size = 256\<rparr>"

definition DEFAULT :: FeatureSet where
  "DEFAULT = \<lparr>fs_compat = HAS_JOURNAL OR EXT_ATTR OR RESIZE_INODE OR DIR_INDEX OR ORPHAN_FILE,
     fs_incompat = FILETYPE OR EXTENTS OR SIXTY_FOUR_BIT OR FLEX_BG OR CSUM_SEED,
     fs_ro_compat = SPARSE_SUPER OR LARGE_FILE OR HUGE_FILE OR DIR_NLINK OR EXTRA_ISIZE OR METADATA_CSUM,
     fs_block_size = 4096, fs_inode_size = 256\<rparr>"

definition EXT2 :: FeatureSet where
  "EXT2 = \<lparr>fs_compat = EXT_ATTR OR RESIZE_INODE OR DIR_INDEX, fs_incompat = FILETYPE,
     fs_ro_compat = SPARSE_SUPER OR LARGE_FILE, fs_block_size = 4096, fs_inode_size = 256\<rparr>"

definition EXT3 :: FeatureSet where
  "EXT3 = EXT2\<lparr>fs_compat := fs_compat EXT2 OR HAS_JOURNAL\<rparr>"

definition with_block_size :: "FeatureSet \<Rightarrow> nat \<Rightarrow> FeatureSet" where
  "with_block_size f block_size = f\<lparr>fs_block_size := block_size\<rparr>"

definition with_inode_size :: "FeatureSet \<Rightarrow> nat \<Rightarrow> FeatureSet" where
  "with_inode_size f inode_size = f\<lparr>fs_inode_size := inode_size\<rparr>"

definition desc_size :: "FeatureSet \<Rightarrow> nat" where
  "desc_size f = (if contains (fs_incompat f) SIXTY_FOUR_BIT then 64 else 32)"

definition is_64bit :: "FeatureSet \<Rightarrow> bool" where "is_64bit f = contains (fs_incompat f) SIXTY_FOUR_BIT"
definition has_extents :: "FeatureSet \<Rightarrow> bool" where "has_extents f = contains (fs_incompat f) EXTENTS"
definition is_sparse_super :: "FeatureSet \<Rightarrow> bool" where "is_sparse_super f = contains (fs_ro_compat f) SPARSE_SUPER"
definition has_filetype :: "FeatureSet \<Rightarrow> bool" where "has_filetype f = contains (fs_incompat f) FILETYPE"
definition has_flex_bg :: "FeatureSet \<Rightarrow> bool" where "has_flex_bg f = contains (fs_incompat f) FLEX_BG"
definition has_journal :: "FeatureSet \<Rightarrow> bool" where "has_journal f = contains (fs_compat f) HAS_JOURNAL"
definition has_metadata_csum :: "FeatureSet \<Rightarrow> bool" where "has_metadata_csum f = contains (fs_ro_compat f) METADATA_CSUM"
definition has_dir_nlink :: "FeatureSet \<Rightarrow> bool" where "has_dir_nlink f = contains (fs_ro_compat f) DIR_NLINK"
definition has_ext_attr :: "FeatureSet \<Rightarrow> bool" where "has_ext_attr f = contains (fs_compat f) EXT_ATTR"
definition has_large_file :: "FeatureSet \<Rightarrow> bool" where "has_large_file f = contains (fs_ro_compat f) LARGE_FILE"
definition has_huge_file :: "FeatureSet \<Rightarrow> bool" where "has_huge_file f = contains (fs_ro_compat f) HUGE_FILE"
definition has_resize_inode :: "FeatureSet \<Rightarrow> bool" where "has_resize_inode f = contains (fs_compat f) RESIZE_INODE"
definition has_dir_index :: "FeatureSet \<Rightarrow> bool" where "has_dir_index f = contains (fs_compat f) DIR_INDEX"
definition has_orphan_file :: "FeatureSet \<Rightarrow> bool" where "has_orphan_file f = contains (fs_compat f) ORPHAN_FILE"
definition has_csum_seed :: "FeatureSet \<Rightarrow> bool" where "has_csum_seed f = contains (fs_incompat f) CSUM_SEED"

lemmas feature_tests = is_64bit_def has_extents_def is_sparse_super_def has_filetype_def has_flex_bg_def has_journal_def
  has_metadata_csum_def has_dir_nlink_def has_ext_attr_def has_large_file_def has_huge_file_def has_resize_inode_def
  has_dir_index_def has_orphan_file_def has_csum_seed_def

definition inodes_per_block :: "FeatureSet \<Rightarrow> nat" where
  "inodes_per_block f = (if fs_inode_size f = 0 then 0 else fs_block_size f div fs_inode_size f)"

definition feature_names :: "FeatureSet \<Rightarrow> string list" where
  "feature_names f = flag_names Compat (fs_compat f) @ flag_names Incompat (fs_incompat f) @ flag_names RoCompat (fs_ro_compat f)"

definition with_feature :: "FeatureSet \<Rightarrow> string \<Rightarrow> bool \<Rightarrow> FeatureSet option" where
  "with_feature f name on =
     (case from_name Compat name of
        Some flag \<Rightarrow> Some (f\<lparr>fs_compat := if on then fs_compat f OR flag else without (fs_compat f) flag\<rparr>)
      | None \<Rightarrow>
          (case from_name Incompat name of
             Some flag \<Rightarrow> Some (f\<lparr>fs_incompat := if on then fs_incompat f OR flag else without (fs_incompat f) flag\<rparr>)
           | None \<Rightarrow>
               (case from_name RoCompat name of
                  Some flag \<Rightarrow> Some (f\<lparr>fs_ro_compat := if on then fs_ro_compat f OR flag else without (fs_ro_compat f) flag\<rparr>)
                | None \<Rightarrow> None)))"

definition is_power_of_two :: "nat \<Rightarrow> bool" where
  "is_power_of_two n \<longleftrightarrow> n \<in> (\<lambda>k. 2 ^ k) ` {..<64}"

definition validate :: "FeatureSet \<Rightarrow> (FeatureError, unit) outcome" where
  "validate f =
     (if contains (fs_incompat f) META_BG then Err MetaBg
      else if \<not> has_filetype f then Err FiletypeRequired
      else if has_csum_seed f \<and> \<not> has_metadata_csum f then Err CsumSeedWithoutMetadataCsum
      else if has_orphan_file f \<and> \<not> has_journal f then Err OrphanFileWithoutJournal
      else if fs_block_size f \<notin> {1024, 2048, 4096} then Err (UnsupportedBlockSize (fs_block_size f))
      else if fs_inode_size f < 128 \<or> \<not> is_power_of_two (fs_inode_size f) \<or> fs_block_size f < fs_inode_size f
              \<or> fs_block_size f mod fs_inode_size f \<noteq> 0 then Err (UnsupportedInodeSize (fs_inode_size f))
      else
        let resize_size = resize_inode_size (fs_block_size f) in
        if has_resize_inode f \<and> \<not> has_large_file f \<and> LARGE_FILE_MIN_SIZE \<le> resize_size
        then Err (ResizeInodeRequiresLargeFile (fs_block_size f) resize_size)
        else if has_extents f then
          if \<not> has_flex_bg f then Err FlexBgRequired else Ok ()
        else if has_flex_bg f then Err (RequiresExtents ''flex_bg'')
        else if is_64bit f then Err (RequiresExtents ''64bit'')
        else if has_metadata_csum f then Err (RequiresExtents ''metadata_csum'')
        else if has_csum_seed f then Err (RequiresExtents ''metadata_csum_seed'')
        else if contains (fs_ro_compat f) HUGE_FILE then Err (RequiresExtents ''huge_file'')
        else if has_dir_nlink f then Err (RequiresExtents ''dir_nlink'')
        else if contains (fs_ro_compat f) EXTRA_ISIZE then Err (RequiresExtents ''extra_isize'')
        else if has_orphan_file f then Err (RequiresExtents ''orphan_file'')
        else Ok ())"

datatype Profile = Ext2 | Ext3 | Ext4

fun profile_feature_set :: "Profile \<Rightarrow> FeatureSet" where
  "profile_feature_set Ext2 = EXT2"
| "profile_feature_set Ext3 = EXT3"
| "profile_feature_set Ext4 = DEFAULT"

definition profile_of :: "FeatureSet \<Rightarrow> Profile" where
  "profile_of f = (if has_extents f then Ext4 else if has_journal f then Ext3 else Ext2)"

section \<open>What the formatter accepts\<close>

lemma valid_sizes:
  assumes "validate f = Ok ()"
  shows "fs_block_size f \<in> {1024, 2048, 4096}" "fs_inode_size f \<in> {128, 256, 512, 1024, 2048, 4096}"
    "fs_inode_size f \<le> fs_block_size f" "fs_block_size f mod fs_inode_size f = 0" "has_flex_bg f = has_extents f"
    "is_64bit f \<Longrightarrow> has_extents f"
proof -
  show bs: "fs_block_size f \<in> {1024, 2048, 4096}" and le: "fs_inode_size f \<le> fs_block_size f"
    and "fs_block_size f mod fs_inode_size f = 0" "has_flex_bg f = has_extents f" "is_64bit f \<Longrightarrow> has_extents f"
    using assms by (auto simp: validate_def Let_def split: if_splits)
  have "128 \<le> fs_inode_size f" "is_power_of_two (fs_inode_size f)"
    using assms by (auto simp: validate_def Let_def split: if_splits)
  then obtain k where k: "fs_inode_size f = 2 ^ k" "(2 :: nat) ^ 7 \<le> 2 ^ k" by (auto simp: is_power_of_two_def)
  moreover have "(2 :: nat) ^ k \<le> 2 ^ 12" using k(1) le bs by auto
  ultimately have "7 \<le> k" "k \<le> 12" by (simp_all only: power_increasing_iff)
  then have "k \<in> {7, 8, 9, 10, 11, 12}" by auto
  then show "fs_inode_size f \<in> {128, 256, 512, 1024, 2048, 4096}" using k(1) by auto
qed

lemma is_power_of_two_pow: "k < 64 \<Longrightarrow> is_power_of_two (2 ^ k)"
  by (auto simp: is_power_of_two_def)

text \<open>
  Every profile's own feature set is one the formatter accepts at each block size, and the
  classification of it is that profile.
\<close>

lemma profiles_are_valid:
  assumes "bs \<in> {1024, 2048, 4096}"
  shows "validate (with_block_size (profile_feature_set p) bs) = Ok () \<and> profile_of (profile_feature_set p) = p"
proof -
  have "is_power_of_two 256" using is_power_of_two_pow [of 8] by simp
  then show ?thesis
    using assms by (cases p) (auto simp: validate_def profile_of_def feature_tests contains_def EXT2_def EXT3_def DEFAULT_def
      with_block_size_def compat_flags incompat_flags ro_compat_flags)
qed

text \<open>The names a feature is switched by are those of the three tables.\<close>

lemma with_feature_names:
  "with_feature f name on \<noteq> None \<longleftrightarrow> name \<in> set (map fst (Compat @ Incompat @ RoCompat))"
  by (auto simp: with_feature_def from_name_def Compat_def Incompat_def RoCompat_def)

end
