(* ===== verification/Layout.thy ===== *)
theory Layout
  imports Feature
begin

text \<open>
  The ext layout of \<^verbatim>\<open>crates/ferrosys/src/geometry.rs\<close> as placement reads it: a run of blocks, a
  group's placement, and the layout's record of where the fixed metadata sits. The planner that
  computes a layout is the theory \<open>Geometry\<close>.
\<close>

record BlockRange =
  br_start :: nat
  br_len :: nat

definition range_end :: "BlockRange \<Rightarrow> nat" where
  "range_end r = br_start r + br_len r"

definition range_is_empty :: "BlockRange \<Rightarrow> bool" where
  "range_is_empty r \<longleftrightarrow> br_len r = 0"

definition range_blocks :: "BlockRange \<Rightarrow> nat list" where
  "range_blocks r = [br_start r..<range_end r]"

record GroupLayout =
  gl_index :: nat
  gl_start_block :: nat
  gl_block_count :: nat
  gl_has_super :: bool
  gl_block_bitmap :: nat
  gl_inode_bitmap :: nat
  gl_inode_table :: nat

record Layout =
  l_feature :: FeatureSet
  l_block_size :: nat
  l_total_blocks :: nat
  l_blocks_per_group :: nat
  l_first_data_block :: nat
  l_group_count :: nat
  l_inodes_per_group :: nat
  l_inode_table_blocks :: nat
  l_total_inodes :: nat
  l_gdt_blocks :: nat
  l_reserved_gdt_blocks :: nat
  l_flex_bg_size :: nat
  l_max_grow_blocks :: nat
  l_reserved_blocks :: nat
  l_groups :: "GroupLayout list"

definition super_overhead :: "nat \<Rightarrow> nat \<Rightarrow> nat" where
  "super_overhead gdt_blocks reserved_gdt_blocks = 1 + gdt_blocks + reserved_gdt_blocks"

definition is_flex_head :: "Layout \<Rightarrow> nat \<Rightarrow> bool" where
  "is_flex_head l index = (if l_flex_bg_size l = 0 then index = 0 else index mod l_flex_bg_size l = 0)"

definition flex_members :: "Layout \<Rightarrow> nat \<Rightarrow> ('e, nat) outcome" where
  "flex_members l head = mapOk (\<lambda>n. min n (l_flex_bg_size l)) (sub64 (l_group_count l) head)"

definition flex_slots :: "Layout \<Rightarrow> nat \<Rightarrow> ('e, nat) outcome" where
  "flex_slots l head =
     mapOk (\<lambda>members. if members = 1 then l_flex_bg_size l else members) (flex_members l head)"

definition flex_meta_span :: "Layout \<Rightarrow> nat \<Rightarrow> ('e, nat) outcome" where
  "flex_meta_span l head =
     andThen (flex_slots l head) (\<lambda>slots.
     andThen (flex_members l head) (\<lambda>members.
     Ok (2 * slots + members * l_inode_table_blocks l)))"

definition super_overhead_region :: "Layout \<Rightarrow> nat \<Rightarrow> BlockRange option" where
  "super_overhead_region l index =
     (if index < length (l_groups l) then
        let g = l_groups l ! index in
        if gl_has_super g
        then Some \<lparr>br_start = gl_start_block g,
                   br_len = super_overhead (l_gdt_blocks l) (l_reserved_gdt_blocks l)\<rparr>
        else None
      else None)"

definition backup_groups :: "Layout \<Rightarrow> nat list" where
  "backup_groups l = map gl_index (filter (\<lambda>g. gl_has_super g \<and> gl_index g \<noteq> 0) (l_groups l))"

definition group_regions :: "Layout \<Rightarrow> GroupLayout \<Rightarrow> BlockRange list" where
  "group_regions l g =
     (case super_overhead_region l (gl_index g) of Some r \<Rightarrow> [r] | None \<Rightarrow> [])
     @ [\<lparr>br_start = gl_block_bitmap g, br_len = 1\<rparr>,
        \<lparr>br_start = gl_inode_bitmap g, br_len = 1\<rparr>,
        \<lparr>br_start = gl_inode_table g, br_len = l_inode_table_blocks l\<rparr>]"

definition metadata_regions :: "Layout \<Rightarrow> BlockRange list" where
  "metadata_regions l = sort_key br_start (concat (map (group_regions l) (l_groups l)))"

definition overhead_blocks :: "Layout \<Rightarrow> nat" where
  "overhead_blocks l = sum_list (map br_len (metadata_regions l))"

lemma set_range_blocks [simp]: "set (range_blocks r) = {br_start r..<range_end r}"
  by (simp add: range_blocks_def)

lemma set_metadata_regions:
  "set (metadata_regions l) = (\<Union>g \<in> set (l_groups l). set (group_regions l g))"
  by (simp add: metadata_regions_def)

lemma sorted_metadata_regions: "sorted (map br_start (metadata_regions l))"
  by (simp add: metadata_regions_def)

end
