(* ===== verification/ExtentTree.thy ===== *)
theory ExtentTree
  imports ExtentEntry Layout
begin

text \<open>
  The extent tree of \<^verbatim>\<open>crates/ferrosys/src/extent.rs\<close>: turning the block ranges a file was
  allocated into leaves, and planning and assembling the tree over them. The leaves map the
  ranges block for block, in order and with no two that could be one; reading the assembled
  tree back through its index gives the leaves.

  Physical block numbers and lengths of a range are naturals, with the additions the code
  performs in \<^verbatim>\<open>u64\<close> checked; the fields of a leaf are the words the code stores.
\<close>

definition MAX_EXTENT_LEN :: nat where
  "MAX_EXTENT_LEN = 32768"

definition MAX_EXTENT_DEPTH :: nat where
  "MAX_EXTENT_DEPTH = 5"

definition MAX_LOGICAL_BLOCKS :: nat where
  "MAX_LOGICAL_BLOCKS = 2 ^ 32"

datatype ExtentError =
    TooManyEntries nat nat         \<comment> \<open>entries, capacity\<close>
  | NodeTooSmall nat
  | TooDeep nat
  | FileTooLarge nat
  | NodeBlockCount nat nat         \<comment> \<open>need, got\<close>
  | LeafError ParseError

datatype ExtentNode = Leaves "ExtentLeaf list" | Index u16 "ExtentIdx list"

record ExtentNodeBlock =
  nb_block :: u64
  nb_node :: ExtentNode

record ExtentTree =
  tree_root :: ExtentNode
  tree_nodes :: "ExtentNodeBlock list"

record TreeShape =
  shape_depth :: nat
  level_nodes :: "nat list"
  node_blocks :: nat

fun node_depth :: "ExtentNode \<Rightarrow> u16" where
  "node_depth (Leaves ls) = 0"
| "node_depth (Index d es) = d"

fun node_len :: "ExtentNode \<Rightarrow> nat" where
  "node_len (Leaves ls) = length ls"
| "node_len (Index d es) = length es"

definition node_capacity :: "nat \<Rightarrow> nat" where
  "node_capacity node_bytes = (node_bytes - EXTENT_ENTRY_SIZE) div EXTENT_ENTRY_SIZE"

definition tail_offset :: "nat \<Rightarrow> nat" where
  "tail_offset node_bytes = EXTENT_ENTRY_SIZE * (node_capacity node_bytes + 1)"

section \<open>Leaves\<close>

definition coalesces :: "ExtentLeaf \<Rightarrow> nat \<Rightarrow> nat \<Rightarrow> nat \<Rightarrow> (ExtentError, bool) outcome" where
  "coalesces l logical phys n =
     (if initialized l \<and> unat (leaf_block l) + unat (leaf_len l) = logical
      then andThen (add64 (unat (leaf_start l)) (unat (leaf_len l))) (\<lambda>e.
           Ok (e = phys \<and> unat (leaf_len l) + n \<le> MAX_EXTENT_LEN))
      else Ok False)"

text \<open>One pass of the inner loop: map \<open>n\<close> blocks, into the last leaf or a new one.\<close>

definition add_run ::
  "ExtentLeaf list \<Rightarrow> nat \<Rightarrow> nat \<Rightarrow> nat \<Rightarrow> (ExtentError, ExtentLeaf list) outcome" where
  "add_run leaves logical phys n =
     (let fresh = Ok (leaves @ [\<lparr>leaf_block = of_nat logical, leaf_len = of_nat n,
                                leaf_start = of_nat phys, initialized = True\<rparr>])
      in if leaves = [] then fresh
         else andThen (coalesces (last leaves) logical phys n) (\<lambda>c.
              if c then Ok (butlast leaves @
                   [(last leaves)\<lparr>leaf_len := leaf_len (last leaves) + of_nat n\<rparr>])
              else fresh))"

function place_range ::
  "ExtentLeaf list \<Rightarrow> nat \<Rightarrow> nat \<Rightarrow> nat \<Rightarrow> (ExtentError, ExtentLeaf list \<times> nat) outcome" where
  "place_range leaves logical phys left =
     (if left = 0 then Ok (leaves, logical)
      else let n = min left MAX_EXTENT_LEN in
           andThen (add_run leaves logical phys n) (\<lambda>leaves'.
           andThen (add64 logical n) (\<lambda>logical'.
           andThen (add64 phys n) (\<lambda>phys'.
           place_range leaves' logical' phys' (left - n)))))"
  by pat_completeness auto
termination
  by (relation "measure (\<lambda>(leaves, logical, phys, left). left)") (auto simp: MAX_EXTENT_LEN_def)

declare place_range.simps [simp del]

definition build_leaves :: "BlockRange list \<Rightarrow> (ExtentError, ExtentLeaf list) outcome" where
  "build_leaves ranges =
     andThen (sum64 0 (map br_len ranges)) (\<lambda>total.
     if total > MAX_LOGICAL_BLOCKS then Err (FileTooLarge total)
     else mapOk fst (foldOutcome (\<lambda>(leaves, logical) r. place_range leaves logical (br_start r) (br_len r))
            ([], 0) ranges))"

section \<open>The tree\<close>

text \<open>The loop over levels, from the width of the level below to the widths above it.\<close>

function plan_levels :: "nat \<Rightarrow> nat \<Rightarrow> nat \<Rightarrow> nat list" where
  "plan_levels inline_capacity capacity width =
     (if inline_capacity < 1 \<or> capacity < 2 \<or> width \<le> inline_capacity then []
      else let w = div_ceil width capacity in w # plan_levels inline_capacity capacity w)"
  by pat_completeness auto
termination
  by (relation "measure (\<lambda>(i, c, w). w)") (auto intro: div_ceil_less)

declare plan_levels.simps [simp del]

definition plan_tree :: "nat \<Rightarrow> nat \<Rightarrow> nat \<Rightarrow> (ExtentError, TreeShape) outcome" where
  "plan_tree leaves inline_capacity capacity =
     (if leaves \<le> inline_capacity
      then Ok \<lparr>shape_depth = 0, level_nodes = [], node_blocks = 0\<rparr>
      else if capacity < 2 \<or> inline_capacity < 1 then Err (TooManyEntries leaves inline_capacity)
      else
        let width = div_ceil leaves capacity;
            levels = width # plan_levels inline_capacity capacity width;
            d = length levels mod 65536
        in if d > MAX_EXTENT_DEPTH then Err (TooDeep d)
           else Ok \<lparr>shape_depth = d, level_nodes = levels, node_blocks = sum_list levels\<rparr>)"

text \<open>
  One level: each chunk of the level below goes into the next of the node blocks, and an
  index entry for it into the level above.
\<close>

definition build_level ::
  "('r list \<Rightarrow> ExtentNode) \<Rightarrow> ('r \<Rightarrow> u32) \<Rightarrow> nat \<Rightarrow> u64 list \<Rightarrow> 'r list \<Rightarrow> nat
     \<Rightarrow> (ExtentError, ExtentIdx list \<times> ExtentNodeBlock list \<times> nat) outcome" where
  "build_level mk first_block capacity blocks below taken =
     foldOutcome (\<lambda>(parents, nodes, taken) chunk.
         andThen (idx_at blocks taken) (\<lambda>block.
         andThen (idx_at chunk 0) (\<lambda>first.
         Ok (parents @ [\<lparr>idx_block = first_block first, idx_leaf = block\<rparr>],
             nodes @ [\<lparr>nb_block = block, nb_node = mk chunk\<rparr>], taken + 1))))
       ([], [], taken) (chunks capacity below)"

fun build_interior ::
  "nat list \<Rightarrow> nat \<Rightarrow> u64 list \<Rightarrow> ExtentIdx list \<Rightarrow> ExtentNodeBlock list \<Rightarrow> nat
     \<Rightarrow> (ExtentError, ExtentIdx list \<times> ExtentNodeBlock list \<times> nat) outcome" where
  "build_interior [] capacity blocks children nodes taken = Ok (children, nodes, taken)"
| "build_interior (d # ds) capacity blocks children nodes taken =
     andThen (build_level (Index (of_nat d)) idx_block capacity blocks children taken)
       (\<lambda>(parents, more, taken').
         build_interior ds capacity blocks parents (nodes @ more) taken')"

definition build_tree ::
  "ExtentLeaf list \<Rightarrow> nat \<Rightarrow> nat \<Rightarrow> u64 list \<Rightarrow> (ExtentError, ExtentTree) outcome" where
  "build_tree leaves inline_capacity capacity blocks =
     andThen (plan_tree (length leaves) inline_capacity capacity) (\<lambda>shape.
     if length blocks \<noteq> node_blocks shape
     then Err (NodeBlockCount (node_blocks shape) (length blocks))
     else if shape_depth shape = 0 then Ok \<lparr>tree_root = Leaves leaves, tree_nodes = []\<rparr>
     else
       andThen (build_level Leaves leaf_block capacity blocks leaves 0) (\<lambda>(children, nodes, taken).
       andThen (build_interior [1..<shape_depth shape] capacity blocks children nodes taken)
         (\<lambda>(children, nodes, taken).
       Ok \<lparr>tree_root = Index (of_nat (shape_depth shape)) children, tree_nodes = nodes\<rparr>)))"

section \<open>The leaves map the ranges\<close>

definition leaf_log :: "ExtentLeaf \<Rightarrow> nat list" where
  "leaf_log l = [unat (leaf_block l)..<unat (leaf_block l) + unat (leaf_len l)]"

definition leaf_phys :: "ExtentLeaf \<Rightarrow> nat list" where
  "leaf_phys l = [unat (leaf_start l)..<unat (leaf_start l) + unat (leaf_len l)]"

definition leaf_wf :: "ExtentLeaf \<Rightarrow> bool" where
  "leaf_wf l \<longleftrightarrow> initialized l \<and> 0 < unat (leaf_len l) \<and> unat (leaf_len l) \<le> MAX_EXTENT_LEN
     \<and> unat (leaf_start l) + unat (leaf_len l) \<le> u64_max"

text \<open>Two neighbours are apart when they could not have been one leaf.\<close>

definition leaves_apart :: "ExtentLeaf \<Rightarrow> ExtentLeaf \<Rightarrow> bool" where
  "leaves_apart a b \<longleftrightarrow> \<not> (unat (leaf_start a) + unat (leaf_len a) = unat (leaf_start b)
     \<and> unat (leaf_len a) + unat (leaf_len b) \<le> MAX_EXTENT_LEN)"

definition leaves_inv :: "ExtentLeaf list \<Rightarrow> nat \<Rightarrow> bool" where
  "leaves_inv ls logical \<longleftrightarrow> list_all leaf_wf ls \<and> successively leaves_apart ls
     \<and> concat (map leaf_log ls) = [0..<logical]"

lemma upt_snoc_end:
  assumes "xs @ [a..<a + n] = [0..<m]" "0 < n"
  shows "a + n = m"
proof -
  have "[0..<m] \<noteq> []" using assms(2) by (simp flip: assms(1))
  then have "last [0..<m] = m - 1" "0 < m" by auto
  moreover have "last (xs @ [a..<a + n]) = a + n - 1" using assms(2) by simp
  ultimately show ?thesis using assms by simp
qed

lemma leaves_inv_snoc:
  "leaves_inv (ls @ [l]) logical \<Longrightarrow>
    unat (leaf_block l) + unat (leaf_len l) = logical \<and> leaf_wf l \<and> leaves_inv ls (unat (leaf_block l))"
proof -
  assume inv: "leaves_inv (ls @ [l]) logical"
  then have cat: "concat (map leaf_log ls) @ leaf_log l = [0..<logical]" and wf: "leaf_wf l"
    by (auto simp: leaves_inv_def)
  have e: "unat (leaf_block l) + unat (leaf_len l) = logical"
    using upt_snoc_end cat wf by (simp add: leaf_log_def leaf_wf_def)
  have "[0..<logical] = [0..<unat (leaf_block l)] @ leaf_log l"
    using e by (auto simp: leaf_log_def simp flip: upt_add_eq_append)
  with cat have "concat (map leaf_log ls) = [0..<unat (leaf_block l)]" by simp
  with e wf inv show ?thesis
    by (auto simp: leaves_inv_def successively_append_iff)
qed

lemma leaves_inv_grow:
  assumes "leaves_inv (ls @ [l]) logical"
    and "unat (leaf_start l) + unat (leaf_len l) = phys" "unat (leaf_len l) + n \<le> MAX_EXTENT_LEN"
    and "phys + n \<le> u64_max"
  defines "l' \<equiv> l\<lparr>leaf_len := leaf_len l + of_nat n\<rparr>"
  shows "leaves_inv (ls @ [l']) (logical + n)" "leaf_phys l' = leaf_phys l @ [phys..<phys + n]"
proof -
  have len: "unat (leaf_len l') = unat (leaf_len l) + n"
    using assms(3) unat_of_nat_small [of n, where 'a = 16]
    by (simp add: l'_def MAX_EXTENT_LEN_def unat_word_ariths)
  note parts = leaves_inv_snoc [OF assms(1)]
  have "leaf_log l' = leaf_log l @ [logical..<logical + n]"
    using parts len
    by (auto simp: leaf_log_def l'_def add.assoc simp flip: upt_add_eq_append)
  moreover have "successively leaves_apart (ls @ [l'])"
    using assms(1) len
    by (auto simp: leaves_inv_def successively_append_iff leaves_apart_def l'_def)
  moreover have "leaf_wf l'"
    using parts len assms(2-4) by (auto simp: leaf_wf_def l'_def)
  moreover have "concat (map leaf_log (ls @ [l])) @ [logical..<logical + n] = [0..<logical + n]"
    using assms(1) by (simp add: leaves_inv_def del: map_append concat_append flip: upt_add_eq_append)
  ultimately show "leaves_inv (ls @ [l']) (logical + n)"
    using assms(1) by (simp add: leaves_inv_def)
  show "leaf_phys l' = leaf_phys l @ [phys..<phys + n]"
    using assms(2) len
    by (auto simp: leaf_phys_def l'_def add.assoc simp flip: upt_add_eq_append)
qed

lemma leaves_inv_push:
  assumes "leaves_inv ls logical" "0 < n" "n \<le> MAX_EXTENT_LEN"
    and "logical + n \<le> MAX_LOGICAL_BLOCKS" "phys + n \<le> u64_max"
    and "ls \<noteq> [] \<Longrightarrow> \<not> (unat (leaf_start (last ls)) + unat (leaf_len (last ls)) = phys
      \<and> unat (leaf_len (last ls)) + n \<le> MAX_EXTENT_LEN)"
  defines "l' \<equiv> \<lparr>leaf_block = of_nat logical, leaf_len = of_nat n, leaf_start = of_nat phys,
    initialized = True\<rparr>"
  shows "leaves_inv (ls @ [l']) (logical + n)" "leaf_phys l' = [phys..<phys + n]"
proof -
  have vals: "unat (leaf_block l') = logical" "unat (leaf_len l') = n" "unat (leaf_start l') = phys"
    using assms(2-5) unat_of_nat_small [of n, where 'a = 16]
      unat_of_nat_small [of logical, where 'a = 32] unat_of_nat_small [of phys, where 'a = 64]
    by (simp_all add: l'_def MAX_EXTENT_LEN_def MAX_LOGICAL_BLOCKS_def u64_max_def)
  have "successively leaves_apart (ls @ [l'])"
    using assms(1,6) vals by (auto simp: leaves_inv_def successively_append_iff leaves_apart_def)
  moreover have "leaf_wf l'"
    using vals assms(2,3,5) by (auto simp: leaf_wf_def l'_def)
  ultimately show "leaves_inv (ls @ [l']) (logical + n)"
    using assms(1) vals by (auto simp: leaves_inv_def leaf_log_def simp flip: upt_add_eq_append)
  show "leaf_phys l' = [phys..<phys + n]" using vals by (simp add: leaf_phys_def)
qed

lemma add_run_inv:
  assumes "leaves_inv ls logical" "0 < n" "n \<le> MAX_EXTENT_LEN"
    and "logical + n \<le> MAX_LOGICAL_BLOCKS" "phys + n \<le> u64_max"
  shows "\<exists>ls'. add_run ls logical phys n = Ok ls' \<and> leaves_inv ls' (logical + n)
    \<and> concat (map leaf_phys ls') = concat (map leaf_phys ls) @ [phys..<phys + n]"
proof (cases ls rule: rev_cases)
  case Nil
  then show ?thesis
    using leaves_inv_push [OF assms(1-5)] by (auto simp: add_run_def)
next
  case (snoc init l)
  note parts = leaves_inv_snoc [OF assms(1) [unfolded snoc]]
  have fits: "unat (leaf_start l) + unat (leaf_len l) \<le> u64_max" "initialized l"
    using parts by (auto simp: leaf_wf_def)
  show ?thesis
  proof (cases "unat (leaf_start l) + unat (leaf_len l) = phys \<and> unat (leaf_len l) + n \<le> MAX_EXTENT_LEN")
    case True
    then show ?thesis
      using leaves_inv_grow [OF assms(1) [unfolded snoc], of phys n] assms(5) parts fits snoc
      by (auto simp: add_run_def coalesces_def)
  next
    case False
    then show ?thesis
      using leaves_inv_push [OF assms(1-5)] parts fits snoc
      by (auto simp: add_run_def coalesces_def)
  qed
qed

lemma place_range_inv:
  assumes "leaves_inv ls logical" "logical + left \<le> MAX_LOGICAL_BLOCKS" "phys + left \<le> u64_max"
  shows "\<exists>ls'. place_range ls logical phys left = Ok (ls', logical + left)
    \<and> leaves_inv ls' (logical + left)
    \<and> concat (map leaf_phys ls') = concat (map leaf_phys ls) @ [phys..<phys + left]"
  using assms
proof (induction ls logical phys left rule: place_range.induct)
  case (1 ls logical phys left)
  show ?case
  proof (cases "left = 0")
    case True
    then show ?thesis using "1.prems" by (simp add: place_range.simps)
  next
    case False
    define n where "n = min left MAX_EXTENT_LEN"
    have n: "0 < n" "n \<le> MAX_EXTENT_LEN" "n \<le> left"
      using False by (auto simp: n_def MAX_EXTENT_LEN_def)
    obtain ls' where run: "add_run ls logical phys n = Ok ls'" "leaves_inv ls' (logical + n)"
        "concat (map leaf_phys ls') = concat (map leaf_phys ls) @ [phys..<phys + n]"
      using add_run_inv [OF "1.prems"(1) n(1,2), of phys] "1.prems" n(3) by auto
    have sums: "add64 logical n = Ok (logical + n)" "add64 phys n = Ok (phys + n)"
      using "1.prems" n(3) by (auto simp: add64_def u64_max_def MAX_LOGICAL_BLOCKS_def)
    have "\<exists>ls''. place_range ls' (logical + n) (phys + n) (left - n) = Ok (ls'', logical + left)
        \<and> leaves_inv ls'' (logical + left)
        \<and> concat (map leaf_phys ls'') = concat (map leaf_phys ls') @ [phys + n..<phys + left]"
      using "1.IH" [OF False n_def run(1) sums run(2)] "1.prems" n(3) by simp
    moreover have "[phys..<phys + left] = [phys..<phys + n] @ [phys + n..<phys + left]"
      using n(3) upt_add_eq_append [of phys "phys + n" "left - n"] by simp
    ultimately show ?thesis
      using False run(1,3) sums
      by (auto simp: place_range.simps [of ls] Let_def simp flip: n_def)
  qed
qed

lemma place_ranges_inv:
  assumes "leaves_inv ls logical" "logical + sum_list (map br_len rs) \<le> MAX_LOGICAL_BLOCKS"
    and "\<forall>r \<in> set rs. range_end r \<le> u64_max"
  shows "\<exists>ls'. foldOutcome (\<lambda>(leaves, logical) r. place_range leaves logical (br_start r) (br_len r))
      (ls, logical) rs = Ok (ls', logical + sum_list (map br_len rs))
    \<and> leaves_inv ls' (logical + sum_list (map br_len rs))
    \<and> concat (map leaf_phys ls') = concat (map leaf_phys ls) @ concat (map range_blocks rs)"
  using assms
proof (induction rs arbitrary: ls logical)
  case Nil
  then show ?case by simp
next
  case (Cons r rs)
  obtain ls' where step: "place_range ls logical (br_start r) (br_len r) = Ok (ls', logical + br_len r)"
      "leaves_inv ls' (logical + br_len r)"
      "concat (map leaf_phys ls') = concat (map leaf_phys ls) @ range_blocks r"
    using place_range_inv [OF Cons.prems(1), of "br_len r" "br_start r"] Cons.prems
    by (auto simp: range_end_def range_blocks_def)
  from Cons.IH [OF step(2)] Cons.prems step show ?case by (auto simp: add.assoc)
qed

lemma build_leaves_cases:
  assumes "\<forall>r \<in> set rs. range_end r \<le> u64_max" "sum_list (map br_len rs) \<le> u64_max"
  shows "if sum_list (map br_len rs) > MAX_LOGICAL_BLOCKS
    then build_leaves rs = Err (FileTooLarge (sum_list (map br_len rs)))
    else \<exists>ls. build_leaves rs = Ok ls \<and> leaves_inv ls (sum_list (map br_len rs))
      \<and> concat (map leaf_phys ls) = concat (map range_blocks rs)"
proof -
  have "leaves_inv [] 0" by (simp add: leaves_inv_def)
  from place_ranges_inv [OF this, of rs] assms show ?thesis
    by (auto simp: build_leaves_def sum64_eq)
qed



section \<open>Levels\<close>

lemma list_all2_chunks:
  "list_all2 R xs ys \<Longrightarrow> list_all2 (list_all2 R) (chunks n xs) (chunks n ys)"
proof (induction n xs arbitrary: ys rule: chunks.induct)
  case (1 n xs)
  show ?case
  proof (cases "n = 0 \<or> xs = []")
    case True
    then show ?thesis using "1.prems" by (auto simp: chunks.simps)
  next
    case False
    then have "ys \<noteq> []" using "1.prems" by auto
    moreover have "list_all2 (list_all2 R) (chunks n (drop n xs)) (chunks n (drop n ys))"
      using "1.IH" False "1.prems" by (simp add: list_all2_dropI)
    ultimately show ?thesis
      using False "1.prems" by (simp add: chunks.simps [of n xs] chunks.simps [of n ys] list_all2_takeI)
  qed
qed

definition level_entry :: "('r \<Rightarrow> u32) \<Rightarrow> 'r list \<Rightarrow> u64 \<Rightarrow> ExtentIdx" where
  "level_entry first_block chunk b = \<lparr>idx_block = first_block (hd chunk), idx_leaf = b\<rparr>"

definition level_node :: "('r list \<Rightarrow> ExtentNode) \<Rightarrow> 'r list \<Rightarrow> u64 \<Rightarrow> ExtentNodeBlock" where
  "level_node mk chunk b = \<lparr>nb_block = b, nb_node = mk chunk\<rparr>"

lemma build_level_eq:
  assumes "0 < capacity" "taken + div_ceil (length below) capacity \<le> length blocks"
  shows "build_level mk first_block capacity blocks below taken =
    (let cs = chunks capacity below; bs = take (length cs) (drop taken blocks)
     in Ok (map2 (level_entry first_block) cs bs, map2 (level_node mk) cs bs, taken + length cs))"
proof -
  define step where "step = (\<lambda>(parents, nodes, taken) chunk.
         andThen (idx_at blocks taken) (\<lambda>block.
         andThen (idx_at chunk 0) (\<lambda>first.
         Ok (parents @ [\<lparr>idx_block = first_block first, idx_leaf = block\<rparr>],
             nodes @ [\<lparr>nb_block = block, nb_node = mk chunk\<rparr>], taken + 1))) :: (ExtentError, _) outcome)"
  have run: "foldOutcome step (ps, ns, t) cs = Ok (ps @ map2 (level_entry first_block) cs bs,
      ns @ map2 (level_node mk) cs bs, t + length cs)"
    if "t + length cs \<le> length blocks" "\<forall>c \<in> set cs. c \<noteq> []" "bs = take (length cs) (drop t blocks)"
    for ps ns t cs bs
    using that
  proof (induction cs arbitrary: ps ns t bs)
    case Nil
    then show ?case by simp
  next
    case (Cons c cs)
    have b: "bs = blocks ! t # take (length cs) (drop (Suc t) blocks)"
      using Cons.prems by (simp flip: Cons_nth_drop_Suc)
    have "step (ps, ns, t) c = Ok (ps @ [level_entry first_block c (blocks ! t)],
        ns @ [level_node mk c (blocks ! t)], Suc t)"
      using Cons.prems by (simp add: step_def level_entry_def level_node_def hd_conv_nth)
    then show ?case using Cons.IH [of "Suc t"] Cons.prems(1,2) unfolding b by simp
  qed
  have "build_level mk first_block capacity blocks below taken
      = foldOutcome step ([], [], taken) (chunks capacity below)"
    by (simp add: build_level_def step_def)
  moreover have "\<forall>c \<in> set (chunks capacity below). c \<noteq> []"
    using chunks_nonempty [OF assms(1)] by blast
  ultimately show ?thesis
    using run [of taken "chunks capacity below"] assms by (simp add: length_chunks Let_def)
qed

section \<open>The planned shape\<close>

lemma div_ceil_half: "2 \<le> c \<Longrightarrow> w \<le> 2 ^ Suc k \<Longrightarrow> div_ceil w c \<le> 2 ^ k"
proof -
  assume c: "2 \<le> c" and w: "w \<le> 2 ^ Suc k"
  have "w \<le> c * 2 ^ k"
    by (rule order_trans [OF w]) (use c in simp)
  then have "w + c - 1 \<le> c * 2 ^ k + (c - 1)" using c by simp
  then have "div_ceil w c \<le> (c * 2 ^ k + (c - 1)) div c"
    unfolding div_ceil_def by (rule div_le_mono)
  also have "\<dots> = 2 ^ k" by (rule div_nat_eqI) (use c in auto)
  finally show ?thesis .
qed

lemma plan_levels_length: "w \<le> 2 ^ k \<Longrightarrow> length (plan_levels i c w) \<le> k"
proof (induction k arbitrary: w)
  case 0
  then show ?case by (auto simp: plan_levels.simps)
next
  case (Suc k)
  show ?case
  proof (cases "i < 1 \<or> c < 2 \<or> w \<le> i")
    case True
    then show ?thesis by (simp add: plan_levels.simps [of i c w])
  next
    case False
    then have "div_ceil w c \<le> 2 ^ k" using Suc.prems by (intro div_ceil_half) auto
    from Suc.IH [OF this] False show ?thesis by (simp add: plan_levels.simps [of i c w] Let_def)
  qed
qed

text \<open>A plan that is not inline names its levels; the last of them fits in the root.\<close>

lemma plan_tree_deep:
  assumes "plan_tree n i c = Ok shape" "n \<le> u64_max" "i < n"
  shows "shape_depth shape \<noteq> 0" "1 \<le> i" "2 \<le> c"
    and "level_nodes shape = div_ceil n c # plan_levels i c (div_ceil n c)"
    and "shape_depth shape = length (level_nodes shape)" "shape_depth shape \<le> MAX_EXTENT_DEPTH"
    and "node_blocks shape = sum_list (level_nodes shape)"
proof -
  have deep: "\<not> n \<le> i" using assms(3) by simp
  then have params: "\<not> (c < 2 \<or> i < 1)"
    using assms(1) by (cases "c < 2 \<or> i < 1") (auto simp: plan_tree_def)
  have "div_ceil n c \<le> 2 ^ 63"
    using params assms(2) by (intro div_ceil_half) (auto simp: u64_max_def)
  then have "length (plan_levels i c (div_ceil n c)) \<le> 63" by (rule plan_levels_length)
  then show "shape_depth shape \<noteq> 0" "1 \<le> i" "2 \<le> c"
    and "level_nodes shape = div_ceil n c # plan_levels i c (div_ceil n c)"
    and "shape_depth shape = length (level_nodes shape)" "shape_depth shape \<le> MAX_EXTENT_DEPTH"
    and "node_blocks shape = sum_list (level_nodes shape)"
    using assms(1) deep params by (auto simp: plan_tree_def Let_def split: if_splits)
qed

section \<open>Reading a tree back\<close>

text \<open>
  The abstract reader: follow each index entry to the node at its block, one level
  shallower, and require the entry's key to be the first logical block it leads to.
\<close>

fun read_node :: "(u64 \<rightharpoonup> ExtentNode) \<Rightarrow> nat \<Rightarrow> ExtentNode \<Rightarrow> ExtentLeaf list option" where
  "read_node m 0 (Leaves ls) = Some ls"
| "read_node m (Suc d) (Index k es) =
     (if unat k = Suc d then
        map_option concat (those (map (\<lambda>e.
          Option.bind (m (idx_leaf e)) (\<lambda>n.
          Option.bind (read_node m d n) (\<lambda>ls.
          if ls \<noteq> [] \<and> leaf_block (hd ls) = idx_block e then Some ls else None))) es))
      else None)"
| "read_node m d n = None"

definition tree_map :: "ExtentNodeBlock list \<Rightarrow> (u64 \<rightharpoonup> ExtentNode)" where
  "tree_map nbs = map_of (map (\<lambda>nb. (nb_block nb, nb_node nb)) nbs)"

definition read_tree :: "nat \<Rightarrow> ExtentTree \<Rightarrow> ExtentLeaf list option" where
  "read_tree d t = read_node (tree_map (tree_nodes t)) d (tree_root t)"

definition child_reads ::
  "(u64 \<rightharpoonup> ExtentNode) \<Rightarrow> nat \<Rightarrow> ExtentIdx \<Rightarrow> ExtentLeaf list \<Rightarrow> bool" where
  "child_reads m d e ls \<longleftrightarrow> ls \<noteq> [] \<and> leaf_block (hd ls) = idx_block e
     \<and> (\<exists>n. m (idx_leaf e) = Some n \<and> read_node m d n = Some ls)"

lemma those_list_all2:
  "list_all2 (\<lambda>x y. f x = Some y) xs ys \<Longrightarrow> those (map f xs) = Some ys"
  by (induction rule: list_all2_induct) auto

lemma read_index:
  assumes "list_all2 (child_reads m d) es lss" "unat k = Suc d"
  shows "read_node m (Suc d) (Index k es) = Some (concat lss)"
proof -
  have "list_all2 (\<lambda>e ls. Option.bind (m (idx_leaf e)) (\<lambda>n.
          Option.bind (read_node m d n) (\<lambda>ls.
          if ls \<noteq> [] \<and> leaf_block (hd ls) = idx_block e then Some ls else None)) = Some ls) es lss"
    using assms(1) by (rule list_all2_mono) (auto simp: child_reads_def)
  from those_list_all2 [OF this] assms(2) show ?thesis by simp
qed

section \<open>Building it\<close>

lemma concat_map_concat: "concat (map concat xss) = concat (concat xss)"
  by (induction xss) auto

lemma map2_nth_mem:
  "i < length xs \<Longrightarrow> i < length ys \<Longrightarrow> f (xs ! i) (ys ! i) \<in> set (map2 f xs ys)"
  using nth_mem [of i "map2 f xs ys"] by simp

lemma map_nb_block: "length cs = length bs \<Longrightarrow> map nb_block (map2 (level_node mk) cs bs) = bs"
  by (induction cs bs rule: list_induct2) (auto simp: level_node_def)

text \<open>The leaf level: each index entry reads back the chunk of leaves it was made for.\<close>

lemma leaf_level_reads:
  assumes "0 < c" "length bs = length (chunks c ls)"
    and "\<And>nb. nb \<in> set (map2 (level_node Leaves) (chunks c ls) bs) \<Longrightarrow> m (nb_block nb) = Some (nb_node nb)"
  shows "list_all2 (child_reads m 0) (map2 (level_entry leaf_block) (chunks c ls) bs) (chunks c ls)"
proof -
  have "child_reads m 0 (level_entry leaf_block (chunks c ls ! i) (bs ! i)) (chunks c ls ! i)"
    if "i < length (chunks c ls)" for i
  proof -
    have "level_node Leaves (chunks c ls ! i) (bs ! i)
        \<in> set (map2 (level_node Leaves) (chunks c ls) bs)"
      using that assms(2) by (intro map2_nth_mem) auto
    from assms(3) [OF this] chunks_nonempty [OF assms(1) nth_mem [OF that]] show ?thesis
      by (simp add: child_reads_def level_entry_def level_node_def)
  qed
  with assms(2) show ?thesis by (intro list_all2_all_nthI) auto
qed

text \<open>An interior level: each entry above reads back what the chunk below it reads.\<close>

lemma interior_level_reads:
  assumes "0 < c" "length bs = length (chunks c children)" "unat k = Suc d"
    and below: "list_all2 (child_reads m d) children lss"
    and maps: "\<And>nb. nb \<in> set (map2 (level_node (Index k)) (chunks c children) bs)
      \<Longrightarrow> m (nb_block nb) = Some (nb_node nb)"
  shows "list_all2 (child_reads m (Suc d)) (map2 (level_entry idx_block) (chunks c children) bs)
    (map concat (chunks c lss))"
proof -
  have pairs: "list_all2 (list_all2 (child_reads m d)) (chunks c children) (chunks c lss)"
    using below by (rule list_all2_chunks)
  show ?thesis
  proof (rule list_all2_all_nthI)
    show "length (map2 (level_entry idx_block) (chunks c children) bs) = length (map concat (chunks c lss))"
      using assms(2) list_all2_lengthD [OF pairs] by simp
    fix i
    assume "i < length (map2 (level_entry idx_block) (chunks c children) bs)"
    then have i: "i < length (chunks c children)" "i < length bs" using assms(2) by auto
    let ?es = "chunks c children ! i" and ?ls = "chunks c lss ! i"
    have chunk: "list_all2 (child_reads m d) ?es ?ls" using pairs i by (simp add: list_all2_nthD)
    have "?es \<noteq> []" using chunks_nonempty [OF assms(1) nth_mem [OF i(1)]] by simp
    then obtain e es l ls where split: "?es = e # es" "?ls = l # ls" "child_reads m d e l"
      using chunk by (cases ?es; cases ?ls) auto
    have "level_node (Index k) ?es (bs ! i) \<in> set (map2 (level_node (Index k)) (chunks c children) bs)"
      using i by (rule map2_nth_mem)
    from maps [OF this] have "m (bs ! i) = Some (Index k ?es)" by (simp add: level_node_def)
    moreover have "read_node m (Suc d) (Index k ?es) = Some (concat ?ls)"
      using chunk assms(3) by (rule read_index)
    ultimately have "child_reads m (Suc d) (level_entry idx_block ?es (bs ! i)) (concat ?ls)"
      using split by (auto simp: child_reads_def level_entry_def)
    then show "child_reads m (Suc d) (map2 (level_entry idx_block) (chunks c children) bs ! i)
        (map concat (chunks c lss) ! i)"
      using i list_all2_lengthD [OF pairs] by simp
  qed
qed

lemma build_interior_spec:
  assumes "2 \<le> c" "1 \<le> i"
    and "length ds = length (plan_levels i c (length children))" "ds = [Suc d..<Suc d + length ds]"
    and "d + length ds < 65536"
    and "taken + sum_list (plan_levels i c (length children)) \<le> length blocks"
  shows "\<exists>children' more. build_interior ds c blocks children nodes taken
      = Ok (children', nodes @ more, taken + sum_list (plan_levels i c (length children)))
    \<and> length children' \<le> i
    \<and> map nb_block more = take (sum_list (plan_levels i c (length children))) (drop taken blocks)
    \<and> (\<forall>m lss. (\<forall>nb \<in> set more. m (nb_block nb) = Some (nb_node nb)) \<longrightarrow>
         list_all2 (child_reads m d) children lss \<longrightarrow>
         (\<exists>lss'. list_all2 (child_reads m (d + length ds)) children' lss'
            \<and> concat lss' = concat lss))"
  using assms(3-)
proof (induction ds arbitrary: children nodes taken d)
  case Nil
  then have "length children \<le> i"
    using assms(1,2) by (simp add: plan_levels.simps [of i c "length children"] Let_def split: if_splits)
  with Nil show ?case by auto
next
  case (Cons k ds)
  let ?w = "div_ceil (length children) c"
  have levels: "plan_levels i c (length children) = ?w # plan_levels i c ?w"
    using Cons.prems(1) by (simp add: plan_levels.simps [of i c "length children"] Let_def split: if_splits)
  have "[Suc d..<Suc d + length (k # ds)] = Suc d # [Suc (Suc d)..<Suc d + length (k # ds)]"
    by (rule upt_conv_Cons) simp
  then have k: "k = Suc d" and ds: "ds = [Suc (Suc d)..<Suc (Suc d) + length ds]"
    using Cons.prems(2) by (simp_all only: list.inject) simp_all
  define cs bs parents new where "cs = chunks c children" and "bs = take (length cs) (drop taken blocks)"
    and "parents = map2 (level_entry idx_block) cs bs" and "new = map2 (level_node (Index (of_nat k))) cs bs"
  note defs = cs_def bs_def parents_def new_def
  have len: "length cs = ?w" "length bs = ?w" "length parents = ?w"
    using assms(1) Cons.prems(4) levels by (auto simp: defs length_chunks)
  have level: "build_level (Index (of_nat k)) idx_block c blocks children taken
      = Ok (parents, new, taken + ?w)"
    using assms(1) Cons.prems(4) levels len by (subst build_level_eq) (auto simp: Let_def defs)
  have ih1: "length ds = length (plan_levels i c (length parents))"
    using Cons.prems(1) levels len by simp
  have ih2: "Suc d + length ds < 65536" using Cons.prems(3) by simp
  have ih3: "taken + ?w + sum_list (plan_levels i c (length parents)) \<le> length blocks"
    using Cons.prems(4) levels len by (simp add: add.assoc)
  obtain children' more where rec: "build_interior ds c blocks parents (nodes @ new) (taken + ?w)
        = Ok (children', (nodes @ new) @ more, taken + ?w + sum_list (plan_levels i c ?w))"
      "length children' \<le> i"
      "map nb_block more = take (sum_list (plan_levels i c ?w)) (drop (taken + ?w) blocks)"
      and reads: "\<And>m lss. (\<forall>nb \<in> set more. m (nb_block nb) = Some (nb_node nb)) \<Longrightarrow>
         list_all2 (child_reads m (Suc d)) parents lss \<Longrightarrow>
         \<exists>lss'. list_all2 (child_reads m (Suc d + length ds)) children' lss'
            \<and> concat lss' = concat lss"
    using Cons.IH [OF ih1 ds ih2 ih3, of "nodes @ new"] unfolding len(3) by blast
  have blocks: "map nb_block (new @ more)
      = take (sum_list (plan_levels i c (length children))) (drop taken blocks)"
    using rec(3) len levels map_nb_block [of cs bs]
    by (simp add: new_def) (simp add: bs_def take_add add.commute)
  show ?case
  proof (rule exI, rule exI, intro conjI allI impI)
    show "build_interior (k # ds) c blocks children nodes taken
        = Ok (children', nodes @ new @ more, taken + sum_list (plan_levels i c (length children)))"
      using level rec(1) levels by (simp add: add.assoc)
    show "length children' \<le> i" by (rule rec(2))
    show "map nb_block (new @ more)
        = take (sum_list (plan_levels i c (length children))) (drop taken blocks)"
      by (rule blocks)
    fix m lss
    assume maps: "\<forall>nb \<in> set (new @ more). m (nb_block nb) = Some (nb_node nb)"
      and below: "list_all2 (child_reads m d) children lss"
    have "unat (of_nat k :: u16) = Suc d"
      by (subst unat_of_nat_small) (use k Cons.prems(3) in auto)
    then have "list_all2 (child_reads m (Suc d)) parents (map concat (chunks c lss))"
      using assms(1) len below maps unfolding defs by (intro interior_level_reads) auto
    from reads [OF _ this] maps obtain lss' where
        "list_all2 (child_reads m (Suc d + length ds)) children' lss'"
        "concat lss' = concat (map concat (chunks c lss))"
      by auto
    moreover have "concat (map concat (chunks c lss)) = concat lss"
      using assms(1) by (metis concat_chunks concat_map_concat less_le_trans zero_less_numeral)
    ultimately show "\<exists>lss'. list_all2 (child_reads m (d + length (k # ds))) children' lss'
        \<and> concat lss' = concat lss"
      by auto
  qed
qed

lemma tree_map_distinct:
  "distinct (map nb_block nbs) \<Longrightarrow> nb \<in> set nbs \<Longrightarrow> tree_map nbs (nb_block nb) = Some (nb_node nb)"
  unfolding tree_map_def by (rule map_of_is_SomeI) (auto simp: o_def)

lemma build_tree_spec:
  assumes plan: "plan_tree (length ls) i c = Ok shape" and len: "length ls \<le> u64_max"
    and blocks: "length bs = node_blocks shape"
  shows "\<exists>t. build_tree ls i c bs = Ok t \<and> map nb_block (tree_nodes t) = bs
    \<and> node_len (tree_root t) \<le> i \<and> unat (node_depth (tree_root t)) = shape_depth shape
    \<and> (distinct bs \<longrightarrow> read_tree (shape_depth shape) t = Some ls)"
proof (cases "length ls \<le> i")
  case True
  then have "shape = \<lparr>shape_depth = 0, level_nodes = [], node_blocks = 0\<rparr>"
    using plan by (simp add: plan_tree_def)
  with True show ?thesis using plan blocks by (simp add: build_tree_def read_tree_def)
next
  case False
  then have "i < length ls" by simp
  note deep = plan_tree_deep [OF plan len this]
  define cs first children new where "cs = chunks c ls" and "first = take (length cs) bs"
    and "children = map2 (level_entry leaf_block) cs first"
    and "new = map2 (level_node Leaves) cs first"
  note defs = cs_def first_def children_def new_def
  let ?w = "div_ceil (length ls) c"
  let ?d = "shape_depth shape"
  have total: "length bs = ?w + sum_list (plan_levels i c ?w)"
    using blocks deep(4,7) by simp
  have lens: "length cs = ?w" "length first = ?w" "length children = ?w"
    using deep(3) total by (auto simp: defs length_chunks)
  have level: "build_level Leaves leaf_block c bs ls 0 = Ok (children, new, ?w)"
    using deep(3) total lens by (subst build_level_eq) (auto simp: Let_def defs)
  have depth: "?d = Suc (length (plan_levels i c ?w))" "?d \<le> 5"
    using deep(4-6) by (simp_all add: MAX_EXTENT_DEPTH_def)
  have ih: "length [1..<?d] = length (plan_levels i c (length children))"
      "[1..<?d] = [Suc 0..<Suc 0 + length [1..<?d]]" "0 + length [1..<?d] < 65536"
      "?w + sum_list (plan_levels i c (length children)) \<le> length bs"
    using depth lens total by (simp_all del: upt_Suc)
  obtain children' more where interior: "build_interior [1..<?d] c bs children new ?w
        = Ok (children', new @ more, ?w + sum_list (plan_levels i c ?w))"
      "length children' \<le> i"
      "map nb_block more = take (sum_list (plan_levels i c ?w)) (drop ?w bs)"
      and reads: "\<And>m lss. (\<forall>nb \<in> set more. m (nb_block nb) = Some (nb_node nb)) \<Longrightarrow>
         list_all2 (child_reads m 0) children lss \<Longrightarrow>
         \<exists>lss'. list_all2 (child_reads m (0 + length [1..<?d])) children' lss'
            \<and> concat lss' = concat lss"
    using build_interior_spec [OF deep(3,2) ih, of new] unfolding lens(3) by blast
  let ?t = "\<lparr>tree_root = Index (of_nat ?d) children', tree_nodes = new @ more\<rparr>"
  have built: "build_tree ls i c bs = Ok ?t"
    using plan blocks deep(1) level interior(1) by (simp add: build_tree_def)
  have nbs: "map nb_block (new @ more) = bs"
    using interior(3) total map_nb_block [of cs first] lens by (simp add: new_def) (simp add: first_def)
  have d16: "unat (of_nat ?d :: u16) = ?d"
    using depth(2) by (intro unat_of_nat_small) simp
  have "read_tree ?d ?t = Some ls" if "distinct bs"
  proof -
    let ?m = "tree_map (new @ more)"
    have maps: "?m (nb_block nb) = Some (nb_node nb)" if "nb \<in> set (new @ more)" for nb
      using that \<open>distinct bs\<close> nbs by (intro tree_map_distinct) simp_all
    have "list_all2 (child_reads ?m 0) children cs"
      using deep(3) lens maps unfolding defs by (intro leaf_level_reads) auto
    from reads [OF _ this] maps obtain lss where
        lss: "list_all2 (child_reads ?m (?d - 1)) children' lss" "concat lss = concat cs"
      by auto
    have "read_node ?m (Suc (?d - 1)) (Index (of_nat ?d) children') = Some (concat lss)"
      using lss(1) d16 depth(1) by (intro read_index) auto
    then show ?thesis
      using lss(2) deep(3) depth(1) by (simp add: read_tree_def cs_def concat_chunks)
  qed
  with built nbs interior(2) d16 show ?thesis by simp
qed

text \<open>
  C22: a tree assembled from leaves reads back, through its index, as exactly those leaves.
  Given the number of distinct node blocks \<open>plan_tree\<close> asked for, \<open>build_tree\<close> succeeds, uses
  every block once, keeps the root within the inline capacity, and following the index
  entries from the root (each to a node one level shallower, each keyed by the first logical
  block below it) yields the leaves in order.
\<close>

theorem build_tree_reads_back:
  assumes "plan_tree (length ls) inline_capacity capacity = Ok shape" "length ls \<le> u64_max"
    and "length bs = node_blocks shape" "distinct bs"
  shows "\<exists>t. build_tree ls inline_capacity capacity bs = Ok t
    \<and> map nb_block (tree_nodes t) = bs
    \<and> node_len (tree_root t) \<le> inline_capacity
    \<and> shape_depth shape \<le> MAX_EXTENT_DEPTH
    \<and> read_tree (shape_depth shape) t = Some ls"
proof -
  have "shape_depth shape \<le> MAX_EXTENT_DEPTH"
    using plan_tree_deep(6) [OF assms(1,2)] assms(1)
    by (cases "length ls \<le> inline_capacity") (auto simp: plan_tree_def)
  with build_tree_spec [OF assms(1-3)] assms(4) show ?thesis by blast
qed

text \<open>A tree of two levels over five leaves, three to a node: its witness and its plan.\<close>

definition example_leaves :: "ExtentLeaf list" where
  "example_leaves = map (\<lambda>i. \<lparr>leaf_block = of_nat (2 * i), leaf_len = 1,
     leaf_start = of_nat (100 + 3 * i), initialized = True\<rparr>) [0..<5]"

theorem build_tree_reads_back_witness:
  "\<exists>t. build_tree example_leaves 1 3 [900, 901, 902] = Ok t
    \<and> map nb_block (tree_nodes t) = [900, 901, 902] \<and> read_tree 2 t = Some example_leaves"
proof -
  have "plan_levels 1 3 1 = []" by (subst plan_levels.simps) simp
  then have "plan_levels 1 3 2 = [1]"
    by (subst plan_levels.simps) (simp add: div_ceil_def)
  then have plan: "plan_tree (length example_leaves) 1 3
      = Ok \<lparr>shape_depth = 2, level_nodes = [2, 1], node_blocks = 3\<rparr>"
    by (simp add: example_leaves_def plan_tree_def div_ceil_def MAX_EXTENT_DEPTH_def)
  have n: "length example_leaves \<le> u64_max" by (simp add: example_leaves_def u64_max_def)
  from build_tree_reads_back [OF plan n, of "[900, 901, 902]"] show ?thesis by auto
qed

end
