(* ===== verification/ExtentNode.thy ===== *)
theory ExtentNode
  imports ExtentTree
begin

text \<open>
  The node codec of \<^verbatim>\<open>extent.rs\<close>: \<open>write_node\<close> and \<open>parse_node\<close>, over the entry codecs of
  \<^verbatim>\<open>ondisk/extent.rs\<close>. The locale \<open>entry_codec\<close> is what a node asks of the records it holds
  (twelve bytes, and a record read back as written); the array of entries is proved once
  against it and interpreted for leaves and for index entries.
\<close>

section \<open>Nodes as bytes\<close>

text \<open>The closure \<^verbatim>\<open>put\<close> over the entries, from position \<open>i\<close> on.\<close>

fun put_entries ::
  "('r \<Rightarrow> (ParseError, bytes) outcome) \<Rightarrow> nat \<Rightarrow> 'r list \<Rightarrow> bytes \<Rightarrow> (ExtentError, bytes) outcome" where
  "put_entries enc i [] buf = Ok buf"
| "put_entries enc i (x # xs) buf =
     andThen (mapErr LeafError (enc x)) (\<lambda>bs.
     andThen (put_arr buf (EXTENT_ENTRY_SIZE * (i + 1)) bs) (\<lambda>buf'.
     put_entries enc (i + 1) xs buf'))"

definition write_node :: "ExtentNode \<Rightarrow> nat \<Rightarrow> bytes \<Rightarrow> (ExtentError, bytes) outcome" where
  "write_node node cap buf =
     (if length buf < EXTENT_ENTRY_SIZE then Err (NodeTooSmall (length buf))
      else if node_len node > cap \<or> EXTENT_ENTRY_SIZE * (cap + 1) > length buf
      then Err (TooManyEntries (node_len node) (min cap (node_capacity (length buf))))
      else
        andThen (mapErr LeafError (header_to_bytes
            \<lparr>eh_entries = of_nat (node_len node), eh_max = of_nat cap,
             eh_depth = node_depth node, eh_generation = 0\<rparr>)) (\<lambda>h.
        andThen (put_arr buf 0 h) (\<lambda>buf'.
        case node of
          Leaves ls \<Rightarrow> put_entries leaf_to_bytes 0 ls buf'
        | Index d es \<Rightarrow> put_entries idx_to_bytes 0 es buf')))"

definition get_entries ::
  "(bytes \<Rightarrow> (ParseError, 'r) outcome) \<Rightarrow> nat \<Rightarrow> bytes \<Rightarrow> (ParseError, 'r list) outcome" where
  "get_entries decode n buf =
     mapOutcome (\<lambda>i. andThen (slice buf (EXTENT_ENTRY_SIZE * (i + 1))
         (EXTENT_ENTRY_SIZE * (i + 1) + EXTENT_ENTRY_SIZE)) decode) [0..<n]"

definition parse_node :: "bytes \<Rightarrow> (ParseError, ExtentNode) outcome" where
  "parse_node buf =
     (if length buf < EXTENT_ENTRY_SIZE
      then Err (TooShort ''ExtentHeader'' EXTENT_ENTRY_SIZE (length buf))
      else
        andThen (slice buf 0 EXTENT_ENTRY_SIZE) (\<lambda>hb.
        andThen (header_from_bytes hb) (\<lambda>header.
        let capacity = node_capacity (length buf);
            mx = unat (eh_max header);
            n = unat (eh_entries header)
        in
          if mx = 0 \<or> mx > capacity then Err (InvalidField ''ExtentHeader'' ''eh_max'' mx)
          else if n > mx then Err (InvalidField ''ExtentHeader'' ''eh_entries'' n)
          else if eh_depth header = 0 then mapOk Leaves (get_entries leaf_from_bytes n buf)
          else mapOk (Index (eh_depth header)) (get_entries idx_from_bytes n buf))))"

section \<open>What a node asks of its entries\<close>

locale entry_codec =
  fixes enc :: "'r \<Rightarrow> (ParseError, bytes) outcome"
    and decode :: "bytes \<Rightarrow> (ParseError, 'r) outcome"
    and valid :: "'r \<Rightarrow> bool"
  assumes enc_valid: "valid x \<Longrightarrow> \<exists>b. enc x = Ok b"
    and enc_length: "enc x = Ok b \<Longrightarrow> length b = EXTENT_ENTRY_SIZE"
    and enc_no_Panic: "enc x \<noteq> Panic"
    and decode_enc: "valid x \<Longrightarrow> enc x = Ok b \<Longrightarrow> decode b = Ok x"
    and decode_total: "length b = EXTENT_ENTRY_SIZE \<Longrightarrow> \<exists>x. decode b = Ok x"
begin

text \<open>The slot of entry \<open>i\<close>: past the header and the entries before it.\<close>

lemma get_entries_total:
  assumes "EXTENT_ENTRY_SIZE * (n + 1) \<le> length buf"
  shows "\<exists>xs. get_entries decode n buf = Ok xs \<and> length xs = n"
proof -
  let ?slot = "\<lambda>i. take EXTENT_ENTRY_SIZE (drop (EXTENT_ENTRY_SIZE * (i + 1)) buf)"
  define g where "g i = (SOME x. decode (?slot i) = Ok x)" for i
  have "andThen (slice buf (EXTENT_ENTRY_SIZE * (i + 1))
      (EXTENT_ENTRY_SIZE * (i + 1) + EXTENT_ENTRY_SIZE)) decode = Ok (g i)" if "i < n" for i
  proof -
    have "EXTENT_ENTRY_SIZE * (i + 1) + EXTENT_ENTRY_SIZE \<le> length buf"
      using assms that by (simp add: EXTENT_ENTRY_SIZE_def)
    moreover from this have "\<exists>x. decode (?slot i) = Ok x"
      by (intro decode_total) simp
    then have "decode (?slot i) = Ok (g i)"
      unfolding g_def by (rule someI_ex)
    ultimately show ?thesis by simp
  qed
  then have "get_entries decode n buf = Ok (map g [0..<n])"
    unfolding get_entries_def by (intro mapOutcome_all_Ok) auto
  then show ?thesis by simp
qed

lemma put_entries_no_Panic:
  "EXTENT_ENTRY_SIZE * (i + length xs + 1) \<le> length buf \<Longrightarrow> put_entries enc i xs buf \<noteq> Panic"
proof (induction xs arbitrary: i buf)
  case Nil
  then show ?case by simp
next
  case (Cons x xs)
  have "EXTENT_ENTRY_SIZE * (i + 1) + EXTENT_ENTRY_SIZE \<le> length buf"
    using Cons.prems by (simp add: EXTENT_ENTRY_SIZE_def)
  then show ?case
    using Cons.IH [of "Suc i"] Cons.prems enc_no_Panic [of x] enc_length [of x]
    by (auto simp: put_arr_def)
qed

lemma put_entries_Ok_iff:
  "EXTENT_ENTRY_SIZE * (i + length xs + 1) \<le> length buf \<Longrightarrow>
    (\<exists>b. put_entries enc i xs buf = Ok b) \<longleftrightarrow> (\<forall>x \<in> set xs. \<exists>b. enc x = Ok b)"
proof (induction xs arbitrary: i buf)
  case Nil
  then show ?case by simp
next
  case (Cons x xs)
  have room: "EXTENT_ENTRY_SIZE * (i + 1) + EXTENT_ENTRY_SIZE \<le> length buf"
    using Cons.prems by (simp add: EXTENT_ENTRY_SIZE_def)
  show ?case
  proof (cases "enc x")
    case (Ok bs)
    then have "length (splice buf (EXTENT_ENTRY_SIZE * (i + 1)) bs) = length buf"
      "put_arr buf (EXTENT_ENTRY_SIZE * (i + 1)) bs
        = (Ok (splice buf (EXTENT_ENTRY_SIZE * (i + 1)) bs) :: (ExtentError, bytes) outcome)"
      using enc_length [OF Ok] room by (simp_all add: put_arr_def)
    then show ?thesis using Ok Cons.IH [of "Suc i"] Cons.prems by auto
  qed (use enc_no_Panic in auto)
qed

text \<open>Entries put from slot \<open>i\<close> on read back from slot \<open>i\<close> on, and nothing before it moves.\<close>

lemma put_entries_reads:
  assumes "list_all valid xs" "EXTENT_ENTRY_SIZE * (i + length xs + 1) \<le> length buf"
  shows "\<exists>buf'. put_entries enc i xs buf = Ok buf' \<and> length buf' = length buf
    \<and> take (EXTENT_ENTRY_SIZE * (i + 1)) buf' = take (EXTENT_ENTRY_SIZE * (i + 1)) buf
    \<and> drop (EXTENT_ENTRY_SIZE * (i + length xs + 1)) buf' = drop (EXTENT_ENTRY_SIZE * (i + length xs + 1)) buf
    \<and> (\<forall>k < length xs. decode (take EXTENT_ENTRY_SIZE
          (drop (EXTENT_ENTRY_SIZE * (i + k + 1)) buf')) = Ok (xs ! k))"
  using assms
proof (induction xs arbitrary: i buf)
  case Nil
  then show ?case by simp
next
  case (Cons x xs)
  let ?E = EXTENT_ENTRY_SIZE
  obtain bs where bs: "enc x = Ok bs" "length bs = ?E" "decode bs = Ok x"
    using Cons.prems(1) enc_valid enc_length decode_enc by fastforce
  let ?buf = "splice buf (?E * (i + 1)) bs"
  have room: "?E * (i + 1) + ?E \<le> length buf" using Cons.prems(2) by (simp add: EXTENT_ENTRY_SIZE_def)
  then have len: "length ?buf = length buf" using bs(2) by simp
  obtain buf' where rec: "put_entries enc (Suc i) xs ?buf = Ok buf'" "length buf' = length buf"
      "take (?E * (Suc i + 1)) buf' = take (?E * (Suc i + 1)) ?buf"
      "drop (?E * (Suc i + length xs + 1)) buf' = drop (?E * (Suc i + length xs + 1)) ?buf"
      "\<And>k. k < length xs \<Longrightarrow> decode (take ?E (drop (?E * (Suc i + k + 1)) buf')) = Ok (xs ! k)"
    using Cons.IH [of "Suc i" ?buf] Cons.prems len by (auto simp: add_ac)
  have slot: "take ?E (drop (?E * (i + 1)) buf') = bs"
  proof -
    have "take ?E (drop (?E * (i + 1)) buf') = drop (?E * (i + 1)) (take (?E * (Suc i + 1)) buf')"
      by (simp add: drop_take)
    also have "\<dots> = take ?E (drop (?E * (i + 1)) ?buf)"
      unfolding rec(3) by (simp add: drop_take)
    also have "\<dots> = bs" using room bs(2) by (metis take_drop_splice_same)
    finally show ?thesis .
  qed
  have before: "take (?E * (i + 1)) buf' = take (?E * (i + 1)) buf"
  proof -
    have "take (?E * (i + 1)) buf' = take (?E * (i + 1)) (take (?E * (Suc i + 1)) buf')" by simp
    then show ?thesis unfolding rec(3) using room by (simp add: take_splice_before)
  qed
  have after: "drop (?E * (i + length (x # xs) + 1)) buf' = drop (?E * (i + length (x # xs) + 1)) buf"
  proof -
    have "?E * (i + 1) + length bs \<le> ?E * (Suc i + length xs + 1)" using bs(2) by (simp add: algebra_simps)
    then show ?thesis using rec(4) room bs(2) by (simp add: drop_splice_after)
  qed
  have "decode (take ?E (drop (?E * (i + k + 1)) buf')) = Ok ((x # xs) ! k)" if "k < length (x # xs)" for k
    using that slot bs(3) rec(5) [of "k - 1"] by (cases k) auto
  moreover have "put_entries enc i (x # xs) buf = Ok buf'"
    using bs rec(1) room by (simp add: put_arr_def)
  ultimately show ?case using rec(2) before after by blast
qed

lemma get_put_entries:
  assumes "list_all valid xs" "EXTENT_ENTRY_SIZE * (length xs + 1) \<le> length buf"
  shows "\<exists>buf'. put_entries enc 0 xs buf = Ok buf' \<and> length buf' = length buf
    \<and> take EXTENT_ENTRY_SIZE buf' = take EXTENT_ENTRY_SIZE buf
    \<and> drop (EXTENT_ENTRY_SIZE * (length xs + 1)) buf' = drop (EXTENT_ENTRY_SIZE * (length xs + 1)) buf
    \<and> get_entries decode (length xs) buf' = Ok xs"
proof -
  obtain buf' where b: "put_entries enc 0 xs buf = Ok buf'" "length buf' = length buf"
      "take EXTENT_ENTRY_SIZE buf' = take EXTENT_ENTRY_SIZE buf"
      "drop (EXTENT_ENTRY_SIZE * (length xs + 1)) buf' = drop (EXTENT_ENTRY_SIZE * (length xs + 1)) buf"
      "\<And>k. k < length xs \<Longrightarrow> decode (take EXTENT_ENTRY_SIZE
          (drop (EXTENT_ENTRY_SIZE * (k + 1)) buf')) = Ok (xs ! k)"
    using put_entries_reads [OF assms(1), of 0 buf] assms(2) by auto
  have "get_entries decode (length xs) buf' = Ok (map ((!) xs) [0..<length xs])"
    unfolding get_entries_def
  proof (rule mapOutcome_all_Ok)
    fix i assume "i \<in> set [0..<length xs]"
    moreover from this have "EXTENT_ENTRY_SIZE * (i + 1) + EXTENT_ENTRY_SIZE \<le> length buf'"
      using assms(2) b(2) by (simp add: EXTENT_ENTRY_SIZE_def)
    ultimately show "andThen (slice buf' (EXTENT_ENTRY_SIZE * (i + 1))
        (EXTENT_ENTRY_SIZE * (i + 1) + EXTENT_ENTRY_SIZE)) decode = Ok (xs ! i)"
      using b(5) [of i] by simp
  qed
  with b show ?thesis by (auto simp: map_nth)
qed

end

section \<open>The two entry codecs\<close>

definition leaf_valid :: "ExtentLeaf \<Rightarrow> bool" where
  "leaf_valid l \<longleftrightarrow> leaf_encodable l \<and> unat (leaf_start l) < 2 ^ 48"

definition idx_valid :: "ExtentIdx \<Rightarrow> bool" where
  "idx_valid x \<longleftrightarrow> unat (idx_leaf x) < 2 ^ 48"

lemma take_bit_48: "unat (v :: u64) < 2 ^ 48 \<Longrightarrow> take_bit 48 v = v"
  by (simp add: word_unat_eq_iff unsigned_take_bit_eq take_bit_nat_eq_self)

interpretation leaves: entry_codec leaf_to_bytes leaf_from_bytes leaf_valid
proof
  fix l :: ExtentLeaf and b
  show "leaf_to_bytes l \<noteq> Panic"
    by (cases "leaf_raw_len l") (auto simp: leaf_to_bytes_eq leaf_raw_len_cases split: if_splits)
  show "leaf_valid l \<Longrightarrow> \<exists>b. leaf_to_bytes l = Ok b"
    by (simp add: leaf_to_bytes_Ok_iff leaf_valid_def)
  show "leaf_to_bytes l = Ok b \<Longrightarrow> length b = EXTENT_ENTRY_SIZE" by (rule leaf_to_bytes_length)
  show "leaf_valid l \<Longrightarrow> leaf_to_bytes l = Ok b \<Longrightarrow> leaf_from_bytes b = Ok l"
    by (drule leaf_round_trip) (simp add: leaf_valid_def take_bit_48)
  show "length b = EXTENT_ENTRY_SIZE \<Longrightarrow> \<exists>l. leaf_from_bytes b = Ok l" by (rule leaf_from_bytes_Ok)
qed

interpretation indices: entry_codec idx_to_bytes idx_from_bytes idx_valid
proof
  fix x :: ExtentIdx and b
  show "idx_to_bytes x \<noteq> Panic" "idx_valid x \<Longrightarrow> \<exists>b. idx_to_bytes x = Ok b"
    by (simp_all add: idx_to_bytes_eq)
  show "idx_to_bytes x = Ok b \<Longrightarrow> length b = EXTENT_ENTRY_SIZE"
    by (auto simp: idx_to_bytes_eq EXTENT_ENTRY_SIZE_def)
  show "idx_valid x \<Longrightarrow> idx_to_bytes x = Ok b \<Longrightarrow> idx_from_bytes b = Ok x"
    by (drule idx_round_trip) (simp add: idx_valid_def take_bit_48)
  show "length b = EXTENT_ENTRY_SIZE \<Longrightarrow> \<exists>x. idx_from_bytes b = Ok x" by (rule idx_from_bytes_Ok)
qed

fun node_valid :: "ExtentNode \<Rightarrow> bool" where
  "node_valid (Leaves ls) = list_all leaf_valid ls"
| "node_valid (Index d es) = (d \<noteq> 0 \<and> list_all idx_valid es)"

section \<open>The node codec\<close>

lemma header_to_bytes_Ok:
  "\<exists>b. header_to_bytes h = Ok b \<and> length b = EXTENT_ENTRY_SIZE \<and> header_from_bytes b = Ok h"
  using header_round_trip by (simp add: header_to_bytes_eq EXTENT_ENTRY_SIZE_def)

lemma header_from_bytes_no_Panic:
  "length b = EXTENT_ENTRY_SIZE \<Longrightarrow> header_from_bytes b \<noteq> Panic"
  by (simp add: header_from_bytes_def get_laws EXTENT_ENTRY_SIZE_def)

lemma capacity_fits:
  "n \<le> node_capacity bytes \<Longrightarrow> EXTENT_ENTRY_SIZE \<le> bytes \<Longrightarrow> EXTENT_ENTRY_SIZE * (n + 1) \<le> bytes"
  by (simp add: node_capacity_def EXTENT_ENTRY_SIZE_def less_eq_div_iff_mult_less_eq)

lemma fits_capacity:
  "EXTENT_ENTRY_SIZE * (n + 1) \<le> bytes \<Longrightarrow> n \<le> node_capacity bytes"
  by (simp add: node_capacity_def EXTENT_ENTRY_SIZE_def less_eq_div_iff_mult_less_eq)

text \<open>
  C39: no bytes make the node parser panic. Whatever the buffer, and whatever counts its
  header declares, \<open>parse_node\<close> returns a node or an error; and a node it returns holds no
  more entries than fit in the buffer.
\<close>

theorem parse_node_total:
  "parse_node buf \<noteq> Panic
   \<and> (\<forall>node. parse_node buf = Ok node \<longrightarrow> EXTENT_ENTRY_SIZE * (node_len node + 1) \<le> length buf)"
proof (cases "length buf < EXTENT_ENTRY_SIZE")
  case True
  then show ?thesis by (simp add: parse_node_def)
next
  case False
  then have hb: "length (take EXTENT_ENTRY_SIZE buf) = EXTENT_ENTRY_SIZE" by simp
  show ?thesis
  proof (cases "header_from_bytes (take EXTENT_ENTRY_SIZE buf)")
    case (Ok h)
    have "\<exists>xs. get_entries leaf_from_bytes n buf = Ok xs \<and> length xs = n"
      "\<exists>xs. get_entries idx_from_bytes n buf = Ok xs \<and> length xs = n"
      "EXTENT_ENTRY_SIZE * (n + 1) \<le> length buf"
      if "n \<le> node_capacity (length buf)" for n
      using leaves.get_entries_total indices.get_entries_total capacity_fits [OF that] False
      by simp_all
    note total = this
    let ?n = "unat (eh_entries h)" and ?m = "unat (eh_max h)"
    show ?thesis
    proof (cases "?m = 0 \<or> ?m > node_capacity (length buf) \<or> ?n > ?m")
      case True
      then show ?thesis using Ok False by (auto simp: parse_node_def Let_def)
    next
      case fits: False
      then have "?n \<le> node_capacity (length buf)" by simp
      from total [OF this] fits Ok False show ?thesis by (auto simp: parse_node_def Let_def)
    qed
  next
    case (Err e)
    then show ?thesis using False by (simp add: parse_node_def)
  next
    case Panic
    then show ?thesis using header_from_bytes_no_Panic [OF hb] by simp
  qed
qed

theorem parse_node_total_witness:
  "parse_node ([0x0a, 0xf3, 0, 0, 1, 0, 0, 0, 0, 0, 0, 0] @ replicate 12 0) = Ok (Leaves [])
   \<and> EXTENT_ENTRY_SIZE * (node_len (Leaves []) + 1) \<le> 24"
proof -
  let ?b = "[0x0a, 0xf3, 0, 0, 1, 0, 0, 0, 0, 0, 0, 0] @ replicate 12 0 :: bytes"
  have "parse_node ?b = Ok (Leaves [])"
    by (simp add: parse_node_def header_from_bytes_def get_laws EXTENT_ENTRY_SIZE_def EXTENT_MAGIC_def
        node_capacity_def get_entries_def Let_def)
  then show ?thesis using parse_node_total [of ?b] by simp
qed

text \<open>
  C31: a node written into a buffer parses back as the same node. Where the entries fit the
  declared capacity, the capacity fits the buffer and every entry is one its twelve bytes
  can hold, \<open>write_node\<close> succeeds, \<open>parse_node\<close> of the result is the node, and the bytes past
  the entries (where a checksum tail sits) are untouched.
\<close>

theorem write_parse_node:
  assumes "node_valid node" "node_len node \<le> cap" "1 \<le> cap" "cap < 65536"
    and "EXTENT_ENTRY_SIZE * (cap + 1) \<le> length buf"
  shows "\<exists>buf'. write_node node cap buf = Ok buf' \<and> parse_node buf' = Ok node
    \<and> length buf' = length buf
    \<and> drop (EXTENT_ENTRY_SIZE * (node_len node + 1)) buf'
        = drop (EXTENT_ENTRY_SIZE * (node_len node + 1)) buf"
proof -
  let ?n = "node_len node"
  let ?h = "\<lparr>eh_entries = of_nat ?n, eh_max = of_nat cap, eh_depth = node_depth node,
    eh_generation = 0\<rparr>"
  obtain hb where hb: "header_to_bytes ?h = Ok hb" "length hb = EXTENT_ENTRY_SIZE"
      "header_from_bytes hb = Ok ?h"
    using header_to_bytes_Ok by blast
  let ?buf = "splice buf 0 hb"
  have room: "EXTENT_ENTRY_SIZE \<le> length buf" "EXTENT_ENTRY_SIZE * (?n + 1) \<le> length buf"
    using assms(2,5) by (simp_all add: EXTENT_ENTRY_SIZE_def)
  then have len: "length ?buf = length buf" using hb(2) by simp
  have counts: "unat (of_nat cap :: u16) = cap" "unat (of_nat ?n :: u16) = ?n"
    using assms(2,4) by (simp_all add: unat_of_nat_small)
  have parsed: "parse_node buf' = (if node_depth node = 0
      then mapOk Leaves (get_entries leaf_from_bytes ?n buf')
      else mapOk (Index (node_depth node)) (get_entries idx_from_bytes ?n buf'))"
    if "length buf' = length buf" "take EXTENT_ENTRY_SIZE buf' = take EXTENT_ENTRY_SIZE ?buf" for buf'
    using that hb room assms(2,3) counts fits_capacity [OF assms(5)]
    by (simp add: parse_node_def Let_def splice_def)
  have after: "drop (EXTENT_ENTRY_SIZE * (?n + 1)) ?buf = drop (EXTENT_ENTRY_SIZE * (?n + 1)) buf"
    using hb(2) room by (simp add: drop_splice_after)
  have start: "write_node node cap buf = (case node of
          Leaves ls \<Rightarrow> put_entries leaf_to_bytes 0 ls ?buf
        | Index d es \<Rightarrow> put_entries idx_to_bytes 0 es ?buf)"
    using assms(2,5) hb room by (simp add: write_node_def put_arr_def)
  show ?thesis
  proof (cases node)
    case (Leaves ls)
    then show ?thesis
      using leaves.get_put_entries [of ls ?buf] assms(1) room len parsed start after by auto
  next
    case (Index d es)
    then show ?thesis
      using indices.get_put_entries [of es ?buf] assms(1) room len parsed start after by auto
  qed
qed

text \<open>
  the node writer never panics, and it writes exactly when the buffer holds a header, the
  entries fit the declared capacity and that capacity the buffer, and every leaf's length is
  one its sixteen-bit field encodes (an initialized run of at most 32768 blocks, an
  uninitialized one of 1 to 32767); anything else is an error.
\<close>

theorem write_node_accepts:
  "write_node node cap buf \<noteq> Panic
   \<and> ((\<exists>b. write_node node cap buf = Ok b) \<longleftrightarrow>
        EXTENT_ENTRY_SIZE \<le> length buf \<and> node_len node \<le> cap
        \<and> EXTENT_ENTRY_SIZE * (cap + 1) \<le> length buf
        \<and> (case node of Leaves ls \<Rightarrow> list_all leaf_encodable ls | Index d es \<Rightarrow> True))"
proof (cases "EXTENT_ENTRY_SIZE \<le> length buf \<and> node_len node \<le> cap
    \<and> EXTENT_ENTRY_SIZE * (cap + 1) \<le> length buf")
  case False
  then show ?thesis by (auto simp: write_node_def)
next
  case True
  obtain hb where hb: "header_to_bytes \<lparr>eh_entries = of_nat (node_len node), eh_max = of_nat cap,
      eh_depth = node_depth node, eh_generation = 0\<rparr> = Ok hb" "length hb = EXTENT_ENTRY_SIZE"
    using header_to_bytes_Ok by blast
  let ?buf = "splice buf 0 hb"
  have len: "length ?buf = length buf" using hb(2) True by simp
  have room: "EXTENT_ENTRY_SIZE * (0 + node_len node + 1) \<le> length ?buf"
    using True by (simp add: EXTENT_ENTRY_SIZE_def len)
  have w: "write_node node cap buf = (case node of
          Leaves ls \<Rightarrow> put_entries leaf_to_bytes 0 ls ?buf
        | Index d es \<Rightarrow> put_entries idx_to_bytes 0 es ?buf)"
    using True hb by (simp add: write_node_def put_arr_def)
  show ?thesis
  proof (cases node)
    case (Leaves ls)
    then show ?thesis
      using w True room leaves.put_entries_no_Panic [of 0 ls ?buf]
        leaves.put_entries_Ok_iff [of 0 ls ?buf] leaf_to_bytes_Ok_iff
      by (simp add: list_all_iff)
  next
    case (Index d es)
    then show ?thesis
      using w True room indices.put_entries_no_Panic [of 0 es ?buf]
        indices.put_entries_Ok_iff [of 0 es ?buf]
      by (simp add: idx_to_bytes_eq)
  qed
qed

theorem write_parse_node_witness:
  "\<exists>buf'. write_node (Leaves [\<lparr>leaf_block = 7, leaf_len = 5, leaf_start = 2000, initialized = False\<rparr>])
      3 (replicate 60 0xAA) = Ok buf'
    \<and> parse_node buf'
        = Ok (Leaves [\<lparr>leaf_block = 7, leaf_len = 5, leaf_start = 2000, initialized = False\<rparr>])"
  using write_parse_node [of "Leaves [\<lparr>leaf_block = 7, leaf_len = 5, leaf_start = 2000,
      initialized = False\<rparr>]" 3 "replicate 60 0xAA"]
  by (auto simp: leaf_valid_def leaf_encodable_def EXTENT_ENTRY_SIZE_def)

end
