(* ===== verification/BlockAlloc.thy ===== *)
theory BlockAlloc
  imports Layout
begin

text \<open>
  The ext block allocator of \<^verbatim>\<open>crates/ferrosys/src/alloc.rs\<close>: a bit-packed used bitmap and a
  first-fit allocator over it, which may return several ranges. Block numbers are naturals
  (the code's \<^verbatim>\<open>u64\<close>); every one a scan reaches is below \<open>total_blocks\<close>, so no sum leaves the
  width. The bitmap is the byte vector of the code, and a block outside the window it
  describes reads as used.
\<close>

datatype AllocError = OutOfSpace nat nat | BitmapTooLargeInMemory nat

record Allocator =
  bits :: bytes
  total_blocks :: nat
  blocks_per_group :: nat
  bytes_per_group :: nat
  first_data_block :: nat
  cursor :: nat

definition bit_of :: "Allocator \<Rightarrow> nat \<Rightarrow> nat option" where
  "bit_of a b =
     Option.bind (checked_sub b (first_data_block a)) (\<lambda>i.
     if i div 8 < length (bits a) then Some i else None)"

definition is_used :: "Allocator \<Rightarrow> nat \<Rightarrow> bool" where
  "is_used a b = (case bit_of a b of None \<Rightarrow> True
     | Some i \<Rightarrow> bits a ! (i div 8) AND push_bit (i mod 8) 1 \<noteq> 0)"

definition set_used :: "Allocator \<Rightarrow> nat \<Rightarrow> Allocator" where
  "set_used a b = (case bit_of a b of None \<Rightarrow> a
     | Some i \<Rightarrow> a\<lparr>bits := (bits a)[i div 8 := bits a ! (i div 8) OR push_bit (i mod 8) 1]\<rparr>)"

definition mark_used :: "Allocator \<Rightarrow> BlockRange \<Rightarrow> Allocator" where
  "mark_used a r = foldl set_used a [br_start r..<range_end r]"

definition new_allocator :: "Layout \<Rightarrow> (AllocError, Allocator) outcome" where
  "new_allocator l =
     (let capacity_bits = l_group_count l * l_blocks_per_group l;
          capacity_bytes = capacity_bits div 8
      in if capacity_bytes > u64_max then Err (BitmapTooLargeInMemory capacity_bytes)
         else
           let a = \<lparr>bits = replicate capacity_bytes 0, total_blocks = l_total_blocks l,
                    blocks_per_group = l_blocks_per_group l,
                    bytes_per_group = l_blocks_per_group l div 8,
                    first_data_block = l_first_data_block l, cursor = l_first_data_block l\<rparr>;
               last_described = l_first_data_block l + capacity_bits;
               a = foldl set_used a [l_total_blocks l..<last_described]
           in Ok (foldl mark_used a (metadata_regions l)))"

text \<open>The scanning loop \<^verbatim>\<open>while i < cap && p(i) { i += 1 }\<close>.\<close>

function scan_while :: "(nat \<Rightarrow> bool) \<Rightarrow> nat \<Rightarrow> nat \<Rightarrow> nat" where
  "scan_while p cap i = (if i < cap \<and> p i then scan_while p cap (i + 1) else i)"
  by pat_completeness auto
termination
  by (relation "measure (\<lambda>(p, cap, i). cap - i)") auto

declare scan_while.simps [simp del]

lemma scan_while_ge: "i \<le> scan_while p cap i"
proof (induction p cap i rule: scan_while.induct)
  case (1 p cap i)
  then show ?case by (subst scan_while.simps) auto
qed

lemma scan_while_progress: "i < cap \<Longrightarrow> p i \<Longrightarrow> i < scan_while p cap i"
  using scan_while_ge [of "i + 1" p cap] by (subst scan_while.simps) auto

text \<open>The gathering loop of \<^verbatim>\<open>allocate\<close>; \<open>count\<close> is what was asked for.\<close>

function gather ::
  "Allocator \<Rightarrow> nat \<Rightarrow> BlockRange list \<Rightarrow> nat \<Rightarrow> nat \<Rightarrow> (AllocError, BlockRange list \<times> nat) outcome" where
  "gather a count ranges remaining i =
     (if remaining = 0 then Ok (ranges, i)
      else let s = scan_while (is_used a) (total_blocks a) i in
           if s \<ge> total_blocks a then Err (OutOfSpace count (count - remaining))
           else let e = scan_while (\<lambda>b. \<not> is_used a b \<and> b - s < remaining) (total_blocks a) s
                in gather a count (ranges @ [\<lparr>br_start = s, br_len = e - s\<rparr>]) (remaining - (e - s)) e)"
  by pat_completeness auto

lemma scan_while_stops:
  "scan_while p cap i < cap \<Longrightarrow> \<not> p (scan_while p cap i)"
proof (induction p cap i rule: scan_while.induct)
  case (1 p cap i)
  then show ?case
    by (cases "i < cap \<and> p i") (auto simp: scan_while.simps [of p cap i])
qed

termination gather
proof (relation "measure (\<lambda>(a, count, ranges, remaining, i). remaining)")
  fix a :: Allocator and count ranges remaining i s e
  assume r: "remaining \<noteq> 0" and s: "s = scan_while (is_used a) (total_blocks a) i"
    and lt: "\<not> total_blocks a \<le> s"
    and e: "e = scan_while (\<lambda>b. \<not> is_used a b \<and> b - s < remaining) (total_blocks a) s"
  have "\<not> is_used a s" using scan_while_stops [of "is_used a" "total_blocks a" i] lt s by simp
  then have "s < e" using r lt unfolding e by (intro scan_while_progress) auto
  then show "((a, count, ranges @ [\<lparr>br_start = s, br_len = e - s\<rparr>], remaining - (e - s), e),
      a, count, ranges, remaining, i) \<in> measure (\<lambda>(a, count, ranges, remaining, i). remaining)"
    using r by simp
qed simp

declare gather.simps [simp del]

definition allocate ::
  "Allocator \<Rightarrow> nat \<Rightarrow> (AllocError, BlockRange list \<times> Allocator) outcome" where
  "allocate a count =
     (if count = 0 then Ok ([], a)
      else andThen (gather a count [] count (cursor a)) (\<lambda>(ranges, i).
           Ok (ranges, (foldl mark_used a ranges)\<lparr>cursor := i\<rparr>)))"

text \<open>The scan of \<^verbatim>\<open>allocate_contiguous\<close> from block \<open>i\<close>: the first free run of \<open>count\<close>.\<close>

function find_run :: "Allocator \<Rightarrow> nat \<Rightarrow> nat \<Rightarrow> nat option" where
  "find_run a count i =
     (if i < total_blocks a then
        let s = scan_while (is_used a) (total_blocks a) i;
            e = scan_while (\<lambda>b. \<not> is_used a b) (total_blocks a) s
        in if e - s \<ge> count then Some s else find_run a count e
      else None)"
  by pat_completeness auto
termination
proof (relation "measure (\<lambda>(a, count, i). total_blocks a - i)")
  fix a :: Allocator and count i s e
  assume i: "i < total_blocks a" and s: "s = scan_while (is_used a) (total_blocks a) i"
    and e: "e = scan_while (\<lambda>b. \<not> is_used a b) (total_blocks a) s"
  have "i < e"
  proof (cases "is_used a i")
    case True
    then show ?thesis
      using scan_while_progress [of i "total_blocks a" "is_used a"] i
        scan_while_ge [of s "\<lambda>b. \<not> is_used a b" "total_blocks a"] s e by simp
  next
    case False
    then have "s = i" unfolding s by (subst scan_while.simps) simp
    then show ?thesis
      using scan_while_progress [of i "total_blocks a" "\<lambda>b. \<not> is_used a b"] i False e by simp
  qed
  then show "((a, count, e), a, count, i) \<in> measure (\<lambda>(a, count, i). total_blocks a - i)"
    using i by simp
qed simp

declare find_run.simps [simp del]

definition allocate_contiguous :: "Allocator \<Rightarrow> nat \<Rightarrow> BlockRange option \<times> Allocator" where
  "allocate_contiguous a count =
     (if count = 0 then (Some \<lparr>br_start = first_data_block a, br_len = 0\<rparr>, a)
      else case find_run a count (first_data_block a) of
             Some s \<Rightarrow> let r = \<lparr>br_start = s, br_len = count\<rparr> in (Some r, mark_used a r)
           | None \<Rightarrow> (None, a))"

definition allocate_one :: "Allocator \<Rightarrow> (AllocError, nat \<times> Allocator) outcome" where
  "allocate_one a =
     andThen (allocate a 1) (\<lambda>(ranges, a').
     andThen (idx_at ranges 0) (\<lambda>r. Ok (br_start r, a')))"

definition group_bitmap :: "Allocator \<Rightarrow> nat \<Rightarrow> bytes option" where
  "group_bitmap a index =
     (let s = index * bytes_per_group a in
      if s + bytes_per_group a \<le> length (bits a)
      then Some (take (bytes_per_group a) (drop s (bits a))) else None)"

definition count_ones :: "u8 \<Rightarrow> nat" where
  "count_ones b = length (filter (bit b) [0..<8])"

definition used_in_prefix :: "bytes \<Rightarrow> nat \<Rightarrow> ('e, nat) outcome" where
  "used_in_prefix bs n =
     (let whole = n div 8; rem = n mod 8 in
      andThen (slice bs 0 whole) (\<lambda>prefix.
      let used = sum_list (map count_ones prefix) in
      if rem \<noteq> 0
      then andThen (idx_at bs whole) (\<lambda>b. Ok (used + count_ones (b AND (push_bit rem 1 - 1))))
      else Ok used))"

definition free_count :: "Allocator \<Rightarrow> ('e, nat) outcome" where
  "free_count a =
     andThen (sub64 (total_blocks a) (first_data_block a)) (\<lambda>positions.
     andThen (used_in_prefix (bits a) positions) (\<lambda>used. sub64 positions used))"

definition group_free_count :: "Allocator \<Rightarrow> nat \<Rightarrow> ('e, nat) outcome" where
  "group_free_count a index =
     (let s = first_data_block a + index * blocks_per_group a;
          e = min (s + blocks_per_group a) (total_blocks a);
          positions = e - s
      in case group_bitmap a index of
           None \<Rightarrow> Ok 0
         | Some bs \<Rightarrow> andThen (used_in_prefix bs positions) (\<lambda>used. sub64 positions used))"

section \<open>The contract of a used map\<close>

text \<open>
  All the allocator asks of its bitmap: marking a block makes that block read as used and
  changes no other. A block with no bit already reads as used, so the law has no side
  condition.
\<close>

locale used_map =
  fixes used :: "'s \<Rightarrow> nat \<Rightarrow> bool"
    and mark :: "'s \<Rightarrow> nat \<Rightarrow> 's"
  assumes used_mark: "used (mark s b) c \<longleftrightarrow> used s c \<or> c = b"
begin

lemma used_mark_all: "used (foldl mark s bs) c \<longleftrightarrow> used s c \<or> c \<in> set bs"
  by (induction bs arbitrary: s) (auto simp: used_mark)

lemma free_mark_all:
  "filter (\<lambda>b. \<not> used (foldl mark s bs) b) xs = filter (\<lambda>b. b \<notin> set bs) (filter (\<lambda>b. \<not> used s b) xs)"
  by (auto simp: used_mark_all intro: filter_cong)

end

lemma bit_of_set_used [simp]: "bit_of (set_used a b) c = bit_of a c"
  by (simp add: bit_of_def set_used_def split: option.split)

lemma is_used_bit:
  "is_used a b = (case bit_of a b of None \<Rightarrow> True | Some i \<Rightarrow> bit (bits a ! (i div 8)) (i mod 8))"
  by (simp only: is_used_def bit_iff_and_push_bit_not_eq_0)

lemma bit_of_Some_iff:
  "bit_of a b = Some i \<longleftrightarrow> b = first_data_block a + i \<and> i div 8 < length (bits a)"
  by (auto simp: bit_of_def checked_sub_def Option.bind_eq_Some_conv split: if_splits)

lemma is_used_set_used: "is_used (set_used a b) c \<longleftrightarrow> is_used a c \<or> c = b"
proof (cases "bit_of a b")
  case None
  then show ?thesis by (auto simp: set_used_def is_used_def)
next
  case (Some i)
  show ?thesis
  proof (cases "bit_of a c")
    case None
    then show ?thesis by (simp add: is_used_def)
  next
    case c: (Some j)
    have "j = i \<longleftrightarrow> c = b" using Some c by (auto simp: bit_of_Some_iff)
    moreover have "j = i" if "j div 8 = i div 8" "j mod 8 = i mod 8"
      using that by (metis div_mod_decomp)
    moreover have "i mod 8 < LENGTH(8)" by simp
    moreover have "bits (set_used a b) = (bits a)[i div 8 := bits a ! (i div 8) OR push_bit (i mod 8) 1]"
      using Some by (simp add: set_used_def)
    moreover have "i div 8 < length (bits a)" "j div 8 < length (bits a)"
      using Some c by (simp_all add: bit_of_Some_iff)
    ultimately have "bit (bits (set_used a b) ! (j div 8)) (j mod 8)
        \<longleftrightarrow> bit (bits a ! (j div 8)) (j mod 8) \<or> c = b"
      by (auto simp: nth_list_update bit_or_iff bit_exp_iff possible_bit_word)
    then show ?thesis by (simp only: is_used_bit bit_of_set_used c option.case)
  qed
qed

interpretation used: used_map is_used set_used
  by unfold_locales (rule is_used_set_used)

lemma set_used_fields [simp]:
  "total_blocks (set_used a b) = total_blocks a" "first_data_block (set_used a b) = first_data_block a"
  "blocks_per_group (set_used a b) = blocks_per_group a" "cursor (set_used a b) = cursor a"
  "bytes_per_group (set_used a b) = bytes_per_group a" "length (bits (set_used a b)) = length (bits a)"
  by (simp_all add: set_used_def split: option.split)

lemma foldl_set_used_fields [simp]:
  "total_blocks (foldl set_used a bs) = total_blocks a"
  "first_data_block (foldl set_used a bs) = first_data_block a"
  "blocks_per_group (foldl set_used a bs) = blocks_per_group a"
  "cursor (foldl set_used a bs) = cursor a"
  "bytes_per_group (foldl set_used a bs) = bytes_per_group a"
  "length (bits (foldl set_used a bs)) = length (bits a)"
  by (induction bs arbitrary: a) simp_all

lemma foldl_mark_used: "foldl mark_used a rs = foldl set_used a (concat (map range_blocks rs))"
  by (induction rs arbitrary: a) (simp_all add: mark_used_def range_blocks_def)

lemma is_used_cursor [simp]: "is_used (a\<lparr>cursor := i\<rparr>) b = is_used a b"
  by (simp add: is_used_def bit_of_def split: option.split)

section \<open>Scanning\<close>

definition free_list :: "Allocator \<Rightarrow> nat \<Rightarrow> nat list" where
  "free_list a i = filter (\<lambda>b. \<not> is_used a b) [i..<total_blocks a]"

lemma scan_while_all: "i \<le> b \<Longrightarrow> b < scan_while p cap i \<Longrightarrow> p b"
proof (induction p cap i rule: scan_while.induct)
  case (1 p cap i)
  show ?case
  proof (cases "i < cap \<and> p i")
    case True
    then show ?thesis using 1 by (cases "b = i") (auto simp: scan_while.simps [of p cap i])
  next
    case False
    then show ?thesis using "1.prems" by (auto simp: scan_while.simps [of p cap i])
  qed
qed

lemma scan_while_le: "i \<le> cap \<Longrightarrow> scan_while p cap i \<le> cap"
proof (induction p cap i rule: scan_while.induct)
  case (1 p cap i)
  then show ?case by (cases "i < cap \<and> p i") (auto simp: scan_while.simps [of p cap i])
qed

lemma free_list_split:
  assumes "i \<le> j" "j \<le> total_blocks a"
  shows "free_list a i = filter (\<lambda>b. \<not> is_used a b) [i..<j] @ free_list a j"
proof -
  have "[i..<total_blocks a] = [i..<j] @ [j..<total_blocks a]"
    using assms upt_add_eq_append [of i j "total_blocks a - j"] by simp
  then show ?thesis by (simp add: free_list_def)
qed

lemma free_list_skip:
  assumes "i \<le> total_blocks a"
  shows "free_list a (scan_while (is_used a) (total_blocks a) i) = free_list a i"
proof -
  let ?s = "scan_while (is_used a) (total_blocks a) i"
  have "filter (\<lambda>b. \<not> is_used a b) [i..<?s] = []"
    using scan_while_all [of i _ "is_used a" "total_blocks a"] by (auto simp: filter_empty_conv)
  then show ?thesis
    using free_list_split [of i ?s a] scan_while_ge scan_while_le [OF assms] by simp
qed

lemma gather_spec:
  assumes "i \<le> total_blocks a"
  shows "if remaining \<le> length (free_list a i)
    then \<exists>new j. gather a count ranges remaining i = Ok (ranges @ new, j)
      \<and> concat (map range_blocks new) = take remaining (free_list a i)
      \<and> (\<forall>r \<in> set new. br_len r > 0) \<and> i \<le> j \<and> j \<le> total_blocks a
      \<and> free_list a j = drop remaining (free_list a i)
    else gather a count ranges remaining i
      = Err (OutOfSpace count (count - (remaining - length (free_list a i))))"
  using assms
proof (induction a count ranges remaining i rule: gather.induct)
  case (1 a count ranges remaining i)
  define s where "s = scan_while (is_used a) (total_blocks a) i"
  define e where "e = scan_while (\<lambda>b. \<not> is_used a b \<and> b - s < remaining) (total_blocks a) s"
  show ?case
  proof (cases "remaining = 0")
    case True
    then show ?thesis using "1.prems" by (simp add: gather.simps)
  next
    case rem: False
    have skip: "free_list a s = free_list a i" unfolding s_def using "1.prems" by (rule free_list_skip)
    show ?thesis
    proof (cases "total_blocks a \<le> s")
      case True
      then have "free_list a i = []" using skip by (simp add: free_list_def)
      then show ?thesis
        using rem True by (simp add: gather.simps [of a count ranges remaining i] Let_def flip: s_def)
    next
      case False
      have free_s: "\<not> is_used a s"
        using scan_while_stops [of "is_used a" "total_blocks a" i] False by (simp add: s_def)
      have lt: "s < e" unfolding e_def using False free_s rem by (intro scan_while_progress) auto
      have le: "e \<le> total_blocks a" unfolding e_def using False by (intro scan_while_le) simp
      have all: "\<not> is_used a b \<and> b - s < remaining" if "s \<le> b" "b < e" for b
        using scan_while_all [OF that(1) that(2) [unfolded e_def]] by simp
      have n: "e - s \<le> remaining" using all [of "e - 1"] lt by linarith
      have "filter (\<lambda>b. \<not> is_used a b) [s..<e] = [s..<e]" using all by (auto simp: filter_id_conv)
      then have split: "free_list a i = [s..<e] @ free_list a e"
        using free_list_split [of s e a] lt le skip by simp
      have step: "gather a count ranges remaining i
          = gather a count (ranges @ [\<lparr>br_start = s, br_len = e - s\<rparr>]) (remaining - (e - s)) e"
        using rem False by (simp add: gather.simps [of a count ranges remaining i] Let_def flip: s_def e_def)
      have run: "range_blocks \<lparr>br_start = s, br_len = e - s\<rparr> = [s..<e]"
        using lt by (simp add: range_blocks_def range_end_def)
      note IH = "1.IH" [OF rem s_def False e_def le]
      show ?thesis
      proof (cases "remaining \<le> length (free_list a i)")
        case True
        then have "remaining - (e - s) \<le> length (free_list a e)" using split n by simp
        with IH obtain new j where "gather a count ranges remaining i
              = Ok (ranges @ \<lparr>br_start = s, br_len = e - s\<rparr> # new, j)"
            "concat (map range_blocks new) = take (remaining - (e - s)) (free_list a e)"
            "\<forall>r \<in> set new. br_len r > 0" "e \<le> j" "j \<le> total_blocks a"
            "free_list a j = drop (remaining - (e - s)) (free_list a e)"
          by (auto simp: step)
        then show ?thesis
          using True split run lt n scan_while_ge [of i "is_used a" "total_blocks a"]
          by (auto simp: s_def intro!: exI [of _ "\<lparr>br_start = s, br_len = e - s\<rparr> # new"] exI [of _ j])
      next
        case False
        then show ?thesis using IH split n by (auto simp: step)
      qed
    qed
  qed
qed

section \<open>The invariant\<close>

text \<open>
  What every operation keeps: the bitmap describes every real block, and no block before the
  cursor is free, so that a scan may start there.
\<close>

definition wf_alloc :: "Allocator \<Rightarrow> bool" where
  "wf_alloc a \<longleftrightarrow> first_data_block a \<le> cursor a \<and> cursor a \<le> total_blocks a
     \<and> total_blocks a - first_data_block a \<le> 8 * length (bits a)
     \<and> (\<forall>b < cursor a. is_used a b)"

lemma is_used_below_first: "b < first_data_block a \<Longrightarrow> is_used a b"
  by (simp add: is_used_def bit_of_def checked_sub_def)

lemma free_list_from:
  assumes "i \<le> total_blocks a" "\<forall>b < i. is_used a b"
  shows "free_list a i = free_list a 0"
proof -
  have "filter (\<lambda>b. \<not> is_used a b) [0..<i] = []" using assms(2) by (auto simp: filter_empty_conv)
  then show ?thesis using free_list_split [of 0 i a] assms(1) by simp
qed

lemma wf_free_list: "wf_alloc a \<Longrightarrow> free_list a (cursor a) = free_list a 0"
  by (rule free_list_from) (auto simp: wf_alloc_def)

lemma free_list_mark:
  "free_list (foldl set_used a bs) i = filter (\<lambda>b. b \<notin> set bs) (free_list a i)"
  by (simp only: free_list_def used.free_mark_all foldl_set_used_fields)

lemma free_list_cursor [simp]: "free_list (a\<lparr>cursor := c\<rparr>) i = free_list a i"
  by (simp add: free_list_def)

lemma set_free_list: "set (free_list a i) = {b. i \<le> b \<and> b < total_blocks a \<and> \<not> is_used a b}"
  by (auto simp: free_list_def)

lemma distinct_free_list [simp]: "distinct (free_list a i)"
  by (simp add: free_list_def)

lemma sorted_free_list [simp]: "sorted (free_list a i)"
  by (simp add: free_list_def sorted_wrt_filter)

lemma mark_used_eq: "mark_used a r = foldl set_used a (range_blocks r)"
  by (simp add: mark_used_def range_blocks_def)

lemma wf_mark: "wf_alloc a \<Longrightarrow> wf_alloc (foldl set_used a bs)"
  by (simp add: wf_alloc_def used.used_mark_all)

lemma filter_notin_take:
  "distinct xs \<Longrightarrow> filter (\<lambda>b. b \<notin> set (take n xs)) xs = drop n xs"
proof (induction xs arbitrary: n)
  case (Cons x xs)
  show ?case
  proof (cases n)
    case (Suc m)
    have "filter (\<lambda>b. b \<notin> set (x # take m xs)) xs = filter (\<lambda>b. b \<notin> set (take m xs)) xs"
      using Cons.prems by (intro filter_cong) auto
    then show ?thesis using Cons Suc by simp
  qed simp
qed simp

lemma allocate_free_list:
  assumes "wf_alloc a" "n \<le> length (free_list a 0)"
  shows "\<exists>rs i. allocate a n = Ok (rs, (foldl set_used a (take n (free_list a 0)))\<lparr>cursor := i\<rparr>)
      \<and> concat (map range_blocks rs) = take n (free_list a 0) \<and> (\<forall>r \<in> set rs. br_len r > 0)
      \<and> cursor a \<le> i \<and> i \<le> total_blocks a \<and> free_list a i = drop n (free_list a 0)"
proof (cases "n = 0")
  case True
  then show ?thesis using assms by (intro exI [of _ "[]"] exI [of _ "cursor a"])
      (simp add: allocate_def wf_alloc_def wf_free_list)
next
  case False
  have le: "cursor a \<le> total_blocks a" using assms(1) by (simp add: wf_alloc_def)
  obtain rs i where g: "gather a n [] n (cursor a) = Ok (rs, i)"
      "concat (map range_blocks rs) = take n (free_list a 0)" "\<forall>r \<in> set rs. br_len r > 0"
      "cursor a \<le> i" "i \<le> total_blocks a" "free_list a i = drop n (free_list a 0)"
    using gather_spec [OF le, of n n "[]"] assms by (auto simp: wf_free_list)
  then show ?thesis using False
    by (intro exI [of _ rs] exI [of _ i]) (simp add: allocate_def foldl_mark_used)
qed

lemma allocate_no_space:
  assumes "wf_alloc a" "length (free_list a 0) < n"
  shows "allocate a n = Err (OutOfSpace n (length (free_list a 0)))"
proof -
  have le: "cursor a \<le> total_blocks a" using assms(1) by (simp add: wf_alloc_def)
  show ?thesis
    using gather_spec [OF le, of n n "[]"] assms by (auto simp: wf_free_list allocate_def)
qed

lemma wf_advance:
  assumes "wf_alloc a" "cursor a \<le> i" "i \<le> total_blocks a" "free_list a i = drop n (free_list a 0)"
  shows "wf_alloc ((foldl set_used a (take n (free_list a 0)))\<lparr>cursor := i\<rparr>)"
proof -
  have "is_used a b \<or> b \<in> set (take n (free_list a 0))" if "b < i" for b
  proof (rule ccontr)
    assume c: "\<not> (is_used a b \<or> b \<in> set (take n (free_list a 0)))"
    then have "b \<in> set (free_list a 0)" using that assms(3) by (simp add: set_free_list)
    then have "b \<in> set (drop n (free_list a 0))"
      using c append_take_drop_id [of n "free_list a 0"] by (metis Un_iff set_append)
    then have "b \<in> set (free_list a i)" by (simp add: assms(4))
    then show False using that by (simp add: set_free_list)
  qed
  then show ?thesis
    using assms(1-3) by (auto simp: wf_alloc_def used.used_mark_all)
qed

text \<open>
  C24: On a well-formed allocator \<open>allocate\<close> succeeds exactly when enough blocks are free. It then
  hands out the lowest free blocks in order, in nonempty runs; the free blocks left are the
  others, in order; and the invariant holds again. Otherwise it reports the exact number of free blocks.
\<close>

theorem allocate_takes_lowest_free:
  assumes "wf_alloc a"
  shows "if n \<le> length (free_list a 0)
    then \<exists>rs a'. allocate a n = Ok (rs, a')
        \<and> concat (map range_blocks rs) = take n (free_list a 0) \<and> (\<forall>r \<in> set rs. br_len r > 0)
        \<and> free_list a' 0 = drop n (free_list a 0)
        \<and> (\<forall>b. is_used a' b \<longleftrightarrow> is_used a b \<or> b \<in> set (take n (free_list a 0)))
        \<and> wf_alloc a'
    else allocate a n = Err (OutOfSpace n (length (free_list a 0)))"
proof (cases "n \<le> length (free_list a 0)")
  case True
  let ?t = "take n (free_list a 0)"
  obtain rs i where r: "allocate a n = Ok (rs, (foldl set_used a ?t)\<lparr>cursor := i\<rparr>)"
      "concat (map range_blocks rs) = ?t" "\<forall>r \<in> set rs. br_len r > 0"
      "cursor a \<le> i" "i \<le> total_blocks a" "free_list a i = drop n (free_list a 0)"
    using allocate_free_list [OF assms True] by blast
  have "free_list ((foldl set_used a ?t)\<lparr>cursor := i\<rparr>) 0 = drop n (free_list a 0)"
    by (simp add: free_list_mark filter_notin_take)
  moreover have "wf_alloc ((foldl set_used a ?t)\<lparr>cursor := i\<rparr>)"
    by (rule wf_advance [OF assms r(4-6)])
  ultimately show ?thesis using True r(1-3) by (auto simp: used.used_mark_all)
next
  case False
  then show ?thesis using allocate_no_space [OF assms] by simp
qed

definition small_allocator :: Allocator where
  "small_allocator = \<lparr>bits = [0x29, 0xE0], total_blocks = 14, blocks_per_group = 16,
     bytes_per_group = 2, first_data_block = 1, cursor = 2\<rparr>"

lemmas allocator_eval = small_allocator_def free_list_def is_used_def bit_of_def checked_sub_def upt_rec

lemma small_allocator_free: "free_list small_allocator 0 = [2, 3, 5, 7, 8, 9, 10, 11, 12, 13]"
  by (simp add: allocator_eval)

lemma small_allocator_wf: "wf_alloc small_allocator"
proof -
  have "is_used small_allocator b" if "b < 2" for b
    using that by (auto simp: allocator_eval less_Suc_eq numeral_2_eq_2)
  then show ?thesis by (simp add: wf_alloc_def small_allocator_def)
qed

theorem allocate_takes_lowest_free_witness:
  "(\<exists>rs a'. allocate small_allocator 4 = Ok (rs, a') \<and> concat (map range_blocks rs) = [2, 3, 5, 7])
   \<and> allocate small_allocator 11 = Err (OutOfSpace 11 10)"
  using allocate_takes_lowest_free [OF small_allocator_wf, of 4]
    allocate_takes_lowest_free [OF small_allocator_wf, of 11]
  by (auto simp: small_allocator_free)

section \<open>Contiguous allocation\<close>

definition run_free :: "Allocator \<Rightarrow> nat \<Rightarrow> nat \<Rightarrow> bool" where
  "run_free a s n \<longleftrightarrow> s + n \<le> total_blocks a \<and> (\<forall>b \<in> set [s..<s + n]. \<not> is_used a b)"

lemma run_free_first: "run_free a s n \<Longrightarrow> s \<le> b \<Longrightarrow> b < s + n \<Longrightarrow> b < total_blocks a \<and> \<not> is_used a b"
  by (auto simp: run_free_def)

lemma find_run_spec:
  assumes "0 < n"
  shows "case find_run a n i of
      Some s \<Rightarrow> i \<le> s \<and> run_free a s n \<and> (\<forall>t. i \<le> t \<and> t < s \<longrightarrow> \<not> run_free a t n)
    | None \<Rightarrow> \<forall>t \<ge> i. \<not> run_free a t n"
  using assms
proof (induction a n i rule: find_run.induct)
  case (1 a n i)
  define s where "s = scan_while (is_used a) (total_blocks a) i"
  define e where "e = scan_while (\<lambda>b. \<not> is_used a b) (total_blocks a) s"
  show ?case
  proof (cases "i < total_blocks a")
    case False
    then show ?thesis using "1.prems" by (auto simp: find_run.simps [of a n i] run_free_def)
  next
    case True
    have i_s: "i \<le> s" and se: "s \<le> e" and s_le: "s \<le> total_blocks a" and e_le: "e \<le> total_blocks a"
      using True scan_while_ge scan_while_le s_def e_def by (metis less_imp_le)+
    have busy: "is_used a b" if "i \<le> b" "b < s" for b
      using scan_while_all [OF that(1) that(2) [unfolded s_def]] .
    have free: "\<not> is_used a b" if "s \<le> b" "b < e" for b
      using scan_while_all [OF that(1) that(2) [unfolded e_def]] .
    have stop: "is_used a e" if "e < total_blocks a"
      using scan_while_stops [of "\<lambda>b. \<not> is_used a b" "total_blocks a" s] that by (simp add: e_def)
    have before: "\<not> run_free a t n" if "i \<le> t" "t < s" for t
      using run_free_first [of a t n t] busy [OF that] "1.prems" by auto
    have unfold: "find_run a n i = (if n \<le> e - s then Some s else find_run a n e)"
      using True by (simp add: find_run.simps [of a n i] Let_def flip: s_def e_def)
    show ?thesis
    proof (cases "n \<le> e - s")
      case long: True
      then have "run_free a s n" using free e_le se by (auto simp: run_free_def)
      then show ?thesis using long i_s before by (simp add: unfold)
    next
      case short: False
      have within: "\<not> run_free a t n" if "s \<le> t" "t < e" for t
      proof
        assume r: "run_free a t n"
        have "e < t + n" using short that by linarith
        then show False using run_free_first [OF r, of e] stop that by simp
      qed
      have none: "\<not> run_free a t n" if "i \<le> t" "t < e" for t
        using before within that by (cases "t < s") auto
      have IH: "case find_run a n e of
          Some s \<Rightarrow> e \<le> s \<and> run_free a s n \<and> (\<forall>t. e \<le> t \<and> t < s \<longrightarrow> \<not> run_free a t n)
        | None \<Rightarrow> \<forall>t \<ge> e. \<not> run_free a t n"
        using "1.IH" [OF True s_def e_def short "1.prems"] .
      show ?thesis
      proof (cases "find_run a n e")
        case None
        then show ?thesis using IH none by (auto simp: unfold short) (meson not_less)
      next
        case (Some t)
        then show ?thesis using IH none i_s se by (auto simp: unfold short) (meson not_less)
      qed
    qed
  qed
qed

text \<open>
  C36: \<open>allocate_contiguous\<close> is first fit and complete: it returns the lowest free run of the
  length asked for, marks exactly that run used and keeps the invariant; when it returns nothing
  the allocator is unchanged and no free run of that length exists anywhere.
\<close>

theorem allocate_contiguous_first_fit:
  assumes "wf_alloc a" "0 < n"
  shows "case allocate_contiguous a n of
      (Some r, a') \<Rightarrow> br_len r = n \<and> run_free a (br_start r) n
        \<and> (\<forall>t < br_start r. \<not> run_free a t n)
        \<and> (\<forall>b. is_used a' b \<longleftrightarrow> is_used a b \<or> b \<in> set (range_blocks r)) \<and> wf_alloc a'
    | (None, a') \<Rightarrow> a' = a \<and> (\<forall>t. \<not> run_free a t n)"
proof -
  have low: "\<not> run_free a t n" if "t < first_data_block a" for t
    using run_free_first [of a t n t] is_used_below_first [OF that] assms(2) by auto
  show ?thesis
  proof (cases "find_run a n (first_data_block a)")
    case None
    then show ?thesis using find_run_spec [OF assms(2), where a = a and i = "first_data_block a"] low assms(2)
      by (auto simp: allocate_contiguous_def) (meson not_less)
  next
    case (Some s)
    then have "\<not> run_free a t n" if "t < s" for t
      using find_run_spec [OF assms(2), where a = a and i = "first_data_block a"] low that
      by (auto) (meson not_less)
    then show ?thesis using Some find_run_spec [OF assms(2), where a = a and i = "first_data_block a"] assms
      by (auto simp: allocate_contiguous_def Let_def mark_used_eq used.used_mark_all wf_mark not_le)
  qed
qed

theorem allocate_contiguous_first_fit_witness:
  "\<exists>a'. allocate_contiguous small_allocator 3 = (Some \<lparr>br_start = 7, br_len = 3\<rparr>, a')"
proof -
  have "run_free small_allocator 7 3" by (simp add: run_free_def allocator_eval)
  moreover have "\<not> run_free small_allocator t 3" if "t < 7" for t
  proof -
    have "is_used small_allocator 1" "is_used small_allocator 4" "is_used small_allocator 6"
      by (simp_all add: allocator_eval)
    then show ?thesis using that run_free_first [of small_allocator t 3 1] run_free_first [of small_allocator t 3 4]
        run_free_first [of small_allocator t 3 6] by (cases "t \<le> 1"; cases "t \<le> 4") auto
  qed
  ultimately show ?thesis
    using allocate_contiguous_first_fit [OF small_allocator_wf, of 3]
    by (auto split: prod.splits option.splits) (metis BlockRange.surjective linorder_neqE_nat old.unit.exhaust)
qed

section \<open>Counting\<close>

definition used_positions :: "bytes \<Rightarrow> nat \<Rightarrow> nat" where
  "used_positions bs n = length (filter (\<lambda>i. bit (bs ! (i div 8)) (i mod 8)) [0..<n])"

lemma upt_shift: "[m..<m + n] = map (\<lambda>i. m + i) [0..<n]"
  using map_add_upt [of m n] by (simp only: add.commute [of _ m])

lemma unused_positions:
  "length (filter (\<lambda>i. \<not> bit (bs ! (i div 8)) (i mod 8)) [0..<n]) = n - used_positions bs n"
proof -
  have "used_positions bs n + length (filter (\<lambda>i. \<not> bit (bs ! (i div 8)) (i mod 8)) [0..<n]) = n"
    using sum_length_filter_compl [of "\<lambda>i. bit (bs ! (i div 8)) (i mod 8)" "[0..<n]"]
    by (simp add: used_positions_def)
  then show ?thesis by linarith
qed

lemma used_positions_add:
  assumes "r \<le> 8"
  shows "used_positions bs (8 * k + r)
    = used_positions bs (8 * k) + length (filter (bit (bs ! k)) [0..<r])"
proof -
  let ?P = "\<lambda>i. bit (bs ! (i div 8)) (i mod 8)"
  have "[0..<8 * k + r] = [0..<8 * k] @ map (\<lambda>i. 8 * k + i) [0..<r]"
    using upt_add_eq_append [of 0 "8 * k" r] upt_shift [of "8 * k" r] by simp
  moreover have "filter (\<lambda>i. ?P (8 * k + i)) [0..<r] = filter (bit (bs ! k)) [0..<r]"
    using assms by (intro filter_cong) auto
  ultimately show ?thesis
    by (simp only: used_positions_def filter_append length_append filter_map comp_def length_map)
qed

lemma used_positions_bytes:
  "k \<le> length bs \<Longrightarrow> used_positions bs (8 * k) = sum_list (map count_ones (take k bs))"
proof (induction k)
  case 0
  then show ?case by (simp add: used_positions_def)
next
  case (Suc k)
  then show ?case
    using used_positions_add [of 8 bs k] by (simp add: take_Suc_conv_app_nth count_ones_def add.commute)
qed

lemma count_ones_mask:
  assumes "r < 8"
  shows "count_ones (b AND (push_bit r 1 - 1)) = length (filter (bit b) [0..<r])"
proof -
  have "push_bit r 1 - 1 = (mask r :: u8)" by (simp add: mask_eq_exp_minus_1)
  then have "filter (bit (b AND (push_bit r 1 - 1))) [0..<8] = filter (\<lambda>i. i < r \<and> bit b i) [0..<8]"
    by (intro filter_cong) (auto simp: bit_and_iff bit_mask_iff)
  also have "\<dots> = filter (\<lambda>i. i < r \<and> bit b i) ([0..<r] @ [r..<8])"
    using assms upt_add_eq_append [of 0 r "8 - r"] by simp
  also have "\<dots> = filter (bit b) [0..<r]"
    by (auto simp del: upt_Suc intro: filter_cong simp: filter_empty_conv)
  finally show ?thesis by (simp only: count_ones_def)
qed

lemma used_in_prefix_eq:
  assumes "n \<le> 8 * length bs"
  shows "used_in_prefix bs n = Ok (used_positions bs n)"
proof -
  have whole: "n div 8 \<le> length bs" using assms by linarith
  have n: "8 * (n div 8) + n mod 8 = n" by simp
  show ?thesis
  proof (cases "n mod 8 = 0")
    case True
    then have "n = 8 * (n div 8)" using n by simp
    then have "used_positions bs n = sum_list (map count_ones (take (n div 8) bs))"
      using used_positions_bytes [OF whole] by simp
    then show ?thesis using True whole by (simp add: used_in_prefix_def)
  next
    case False
    then have "8 * (n div 8) < 8 * length bs" using assms n by linarith
    then have "n div 8 < length bs" by simp
    then show ?thesis
      using False whole used_positions_add [of "n mod 8" bs "n div 8"] used_positions_bytes [OF whole]
      by (simp add: used_in_prefix_def count_ones_mask [simplified] n Let_def)
  qed
qed

lemma free_positions:
  assumes "f \<le> t" "t - f \<le> n" "n \<le> 8 * length (bits a)" "f = first_data_block a"
  shows "length (filter (\<lambda>b. \<not> is_used a b) [f..<t]) = t - f - used_positions (bits a) (t - f)"
proof -
  let ?P = "\<lambda>i. bit (bits a ! (i div 8)) (i mod 8)"
  have "[f..<t] = map (\<lambda>i. f + i) [0..<t - f]" using assms(1) upt_shift [of f "t - f"] by simp
  moreover have "is_used a (f + i) = ?P i" if "i < t - f" for i
  proof -
    have "i div 8 < length (bits a)" using that assms(2,3) by linarith
    then show ?thesis using assms(4) by (simp add: is_used_bit bit_of_def checked_sub_def)
  qed
  ultimately have "filter (\<lambda>b. \<not> is_used a b) [f..<t] = map (\<lambda>i. f + i) (filter (\<lambda>i. \<not> ?P i) [0..<t - f])"
    by (auto simp: filter_map comp_def intro!: filter_cong)
  then show ?thesis by (simp add: unused_positions)
qed

lemma free_count_eq:
  assumes "wf_alloc a"
  shows "free_count a = Ok (length (free_list a 0))"
proof -
  let ?f = "first_data_block a" and ?t = "total_blocks a"
  have b: "?f \<le> ?t" "?t - ?f \<le> 8 * length (bits a)" using assms by (auto simp: wf_alloc_def)
  have "free_list a 0 = filter (\<lambda>b. \<not> is_used a b) [?f..<?t]"
    using free_list_from [of ?f a] b(1) by (simp add: free_list_def is_used_below_first)
  then have "length (free_list a 0) = ?t - ?f - used_positions (bits a) (?t - ?f)"
    using free_positions [OF b(1) order_refl b(2) refl] by simp
  moreover have "used_positions (bits a) (?t - ?f) \<le> ?t - ?f"
    using length_filter_le [of _ "[0..<?t - ?f]"] by (simp add: used_positions_def)
  ultimately show ?thesis using b by (simp add: free_count_def used_in_prefix_eq)
qed

text \<open>
  The free count the descriptors are written from is a population count over the bitmap bytes;
  it never panics, and it is exactly the number of blocks the allocator can hand out.
\<close>

theorem free_count_counts_allocatable:
  assumes "wf_alloc a"
  shows "\<exists>free. free_count a = Ok free
    \<and> free = card {b. b < total_blocks a \<and> \<not> is_used a b}
    \<and> ((\<exists>rs a'. allocate a n = Ok (rs, a')) \<longleftrightarrow> n \<le> free)"
proof -
  have "card {b. b < total_blocks a \<and> \<not> is_used a b} = length (free_list a 0)"
    using distinct_card [OF distinct_free_list, of a 0] by (simp add: set_free_list)
  moreover have "(\<exists>rs a'. allocate a n = Ok (rs, a')) \<longleftrightarrow> n \<le> length (free_list a 0)"
    using allocate_free_list [OF assms, of n] allocate_no_space [OF assms, of n]
    by (cases "n \<le> length (free_list a 0)") auto
  ultimately show ?thesis by (simp add: free_count_eq [OF assms])
qed

theorem free_count_counts_allocatable_witness:
  "card {b. b < total_blocks small_allocator \<and> \<not> is_used small_allocator b} = 10
   \<and> (\<exists>rs a'. allocate small_allocator 10 = Ok (rs, a'))"
proof -
  have "free_count small_allocator = (Ok 10 :: (unit, nat) outcome)"
    using free_count_eq [OF small_allocator_wf] by (simp add: small_allocator_free eval_nat_numeral)
  moreover have "\<exists>free. free_count small_allocator = (Ok free :: (unit, nat) outcome)
      \<and> free = card {b. b < total_blocks small_allocator \<and> \<not> is_used small_allocator b}
      \<and> ((\<exists>rs a'. allocate small_allocator 10 = Ok (rs, a')) \<longleftrightarrow> 10 \<le> free)"
    by (rule free_count_counts_allocatable [OF small_allocator_wf])
  ultimately show ?thesis by auto
qed

section \<open>Per-group counting\<close>

text \<open>The bitmap is a whole number of group bitmaps, and the last group holds the end.\<close>

definition grouped :: "Allocator \<Rightarrow> nat \<Rightarrow> bool" where
  "grouped a groups \<longleftrightarrow> blocks_per_group a = 8 * bytes_per_group a
     \<and> length (bits a) = groups * bytes_per_group a
     \<and> first_data_block a \<le> total_blocks a
     \<and> total_blocks a \<le> first_data_block a + groups * blocks_per_group a"

lemma grouped_mark: "grouped (foldl set_used a bs) n = grouped a n"
  by (simp add: grouped_def)

definition group_end :: "Allocator \<Rightarrow> nat \<Rightarrow> nat" where
  "group_end a i = min (first_data_block a + i * blocks_per_group a) (total_blocks a)"

lemma used_positions_le: "used_positions bs n \<le> n"
  using length_filter_le [of _ "[0..<n]"] by (simp add: used_positions_def)

lemma free_in_group:
  assumes "grouped a groups" "i < groups"
  shows "group_free_count a i
    = Ok (length (filter (\<lambda>b. \<not> is_used a b) [group_end a i..<group_end a (Suc i)]))"
proof -
  let ?B = "bytes_per_group a" and ?f = "first_data_block a" and ?t = "total_blocks a"
  let ?s = "?f + i * (8 * ?B)"
  let ?e = "min (?s + 8 * ?B) ?t"
  let ?bs = "take ?B (drop (i * ?B) (bits a))"
  have bpg: "blocks_per_group a = 8 * ?B" using assms(1) by (simp add: grouped_def)
  have fit: "i * ?B + ?B \<le> length (bits a)"
    using assms mult_le_mono1 [of "Suc i" groups ?B] by (simp add: grouped_def)
  then have len: "length ?bs = ?B" by simp
  have n: "?e - ?s \<le> 8 * length ?bs" using len by simp
  have pos: "\<not> is_used a (?s + j) \<longleftrightarrow> \<not> bit (?bs ! (j div 8)) (j mod 8)" if "j < 8 * ?B" for j
  proof -
    have j: "j div 8 < ?B" using that by simp
    have "(i * (8 * ?B) + j) div 8 = i * ?B + j div 8" "(i * (8 * ?B) + j) mod 8 = j mod 8"
      using div_mult_self3 [of 8 "i * ?B" j] mod_mult_self3 [of "i * ?B" 8 j]
      by (simp_all add: mult.left_commute mult.commute [of _ 8])
    then show ?thesis using j fit
      by (simp add: is_used_bit bit_of_def checked_sub_def add.assoc)
  qed
  have "length (filter (\<lambda>b. \<not> is_used a b) [?s..<?e])
      = length (filter (\<lambda>j. \<not> bit (?bs ! (j div 8)) (j mod 8)) [0..<?e - ?s])"
  proof (cases "?s \<le> ?e")
    case True
    then have "[?s..<?e] = map (\<lambda>j. ?s + j) [0..<?e - ?s]" using upt_shift [of ?s "?e - ?s"] by simp
    then show ?thesis using pos n len
      by (simp only: filter_map comp_def length_map) (auto intro!: arg_cong [of _ _ length] filter_cong)
  qed simp
  also have "\<dots> = ?e - ?s - used_positions ?bs (?e - ?s)"
    by (rule unused_positions)
  finally have count: "length (filter (\<lambda>b. \<not> is_used a b) [?s..<?e]) = ?e - ?s - used_positions ?bs (?e - ?s)" .
  have "[group_end a i..<group_end a (Suc i)] = [?s..<?e]"
    by (cases "?s \<le> ?t") (simp_all add: group_end_def bpg min_def algebra_simps)
  moreover have "group_bitmap a i = Some ?bs" using fit by (simp add: group_bitmap_def)
  ultimately show ?thesis
    by (simp only: group_free_count_def bpg Let_def option.case used_in_prefix_eq [OF n] andThen.simps
        count sub64_Ok [OF used_positions_le])
qed

lemma group_ends_partition:
  "filter P [first_data_block a..<group_end a n]
     = concat (map (\<lambda>i. filter P [group_end a i..<group_end a (Suc i)]) [0..<n])"
  if "first_data_block a \<le> total_blocks a"
proof (induction n)
  case 0
  then show ?case by (simp add: group_end_def)
next
  case (Suc n)
  have le: "first_data_block a \<le> group_end a n" "group_end a n \<le> group_end a (Suc n)"
    using that by (auto simp: group_end_def)
  then have "[first_data_block a..<group_end a (Suc n)]
      = [first_data_block a..<group_end a n] @ [group_end a n..<group_end a (Suc n)]"
    using upt_add_eq_append [of "first_data_block a" "group_end a n" "group_end a (Suc n) - group_end a n"]
    by simp
  then show ?case using Suc by simp
qed

text \<open>
  The per-group free counts never panic, each is the number of free blocks of its group, and
  together they add up to the filesystem's free count.
\<close>

theorem group_free_counts_sum:
  assumes "wf_alloc a" "grouped a groups"
  shows "\<exists>counts. mapOutcome (group_free_count a) [0..<groups] = Ok counts
    \<and> free_count a = Ok (sum_list counts) \<and> length counts = groups
    \<and> (\<forall>i < groups. counts ! i = card {b. group_end a i \<le> b \<and> b < group_end a (Suc i) \<and> \<not> is_used a b})"
proof -
  let ?free = "\<lambda>i. filter (\<lambda>b. \<not> is_used a b) [group_end a i..<group_end a (Suc i)]"
  let ?counts = "map (\<lambda>i. length (?free i)) [0..<groups]"
  have f: "first_data_block a \<le> total_blocks a" using assms(2) by (simp add: grouped_def)
  have "group_end a groups = total_blocks a" using assms(2) by (auto simp: group_end_def grouped_def min_def)
  then have "filter (\<lambda>b. \<not> is_used a b) [first_data_block a..<total_blocks a]
      = concat (map ?free [0..<groups])"
    using group_ends_partition [OF f, of "\<lambda>b. \<not> is_used a b" groups] by simp
  moreover have "free_list a 0 = filter (\<lambda>b. \<not> is_used a b) [first_data_block a..<total_blocks a]"
    using free_list_from [of "first_data_block a" a] f by (simp add: free_list_def is_used_below_first)
  ultimately have "length (free_list a 0) = sum_list ?counts"
    by (simp add: length_concat comp_def)
  moreover have "mapOutcome (group_free_count a) [0..<groups] = Ok ?counts"
    by (rule mapOutcome_all_Ok) (use free_in_group [OF assms(2)] in simp)
  moreover have "length (?free i) = card {b. group_end a i \<le> b \<and> b < group_end a (Suc i) \<and> \<not> is_used a b}" for i
  proof -
    have "set (?free i) = {b. group_end a i \<le> b \<and> b < group_end a (Suc i) \<and> \<not> is_used a b}" by auto
    then show ?thesis using distinct_card [of "?free i"] by simp
  qed
  ultimately show ?thesis
    by (intro exI [of _ ?counts]) (simp add: free_count_eq [OF assms(1)])
qed

theorem group_free_counts_sum_witness:
  "\<exists>counts. mapOutcome (group_free_count small_allocator) [0..<1] = (Ok counts :: (unit, _) outcome)
    \<and> free_count small_allocator = (Ok (sum_list counts) :: (unit, _) outcome)"
proof -
  have "grouped small_allocator 1" by (simp add: grouped_def small_allocator_def)
  then show ?thesis using group_free_counts_sum [OF small_allocator_wf] by blast
qed

section \<open>Construction\<close>

definition layout_fits :: "Layout \<Rightarrow> bool" where
  "layout_fits l \<longleftrightarrow> l_blocks_per_group l mod 8 = 0
     \<and> l_first_data_block l \<le> l_total_blocks l
     \<and> l_total_blocks l \<le> l_first_data_block l + l_group_count l * l_blocks_per_group l
     \<and> l_group_count l * l_blocks_per_group l \<le> u64_max"

lemma new_allocator_spec:
  assumes "layout_fits l"
  shows "\<exists>a. new_allocator l = Ok a \<and> wf_alloc a \<and> total_blocks a = l_total_blocks l
    \<and> (\<forall>b. is_used a b \<longleftrightarrow> b < l_first_data_block l \<or> l_total_blocks l \<le> b
         \<or> (\<exists>r \<in> set (metadata_regions l). br_start r \<le> b \<and> b < range_end r))"
proof -
  define cap where "cap = l_group_count l * l_blocks_per_group l"
  define a0 where "a0 = \<lparr>bits = replicate (cap div 8) (0 :: u8), total_blocks = l_total_blocks l,
    blocks_per_group = l_blocks_per_group l, bytes_per_group = l_blocks_per_group l div 8,
    first_data_block = l_first_data_block l, cursor = l_first_data_block l\<rparr>"
  define bs where "bs = [l_total_blocks l..<l_first_data_block l + cap]
    @ concat (map range_blocks (metadata_regions l))"
  have dvd: "8 dvd cap" using assms by (simp add: layout_fits_def cap_def mod_eq_0_iff_dvd)
  then have cap8: "8 * (cap div 8) = cap" by simp
  have "cap \<le> u64_max" using assms by (simp add: layout_fits_def cap_def)
  then have "cap div 8 \<le> u64_max" by (rule le_trans [OF div_le_dividend])
  then have new: "new_allocator l = Ok (foldl set_used a0 bs)"
    by (simp add: new_allocator_def Let_def foldl_mark_used bs_def flip: cap_def a0_def)
  have used0: "is_used a0 b \<longleftrightarrow> b < l_first_data_block l \<or> l_first_data_block l + cap \<le> b" for b
  proof -
    have "(b - l_first_data_block l) div 8 < cap div 8 \<longleftrightarrow> b - l_first_data_block l < cap"
      using cap8 by (metis div_less_iff_less_mult mult.commute zero_less_numeral)
    then show ?thesis by (auto simp: is_used_bit bit_of_def checked_sub_def a0_def split: if_splits)
  qed
  have "wf_alloc a0"
    using assms cap8 is_used_below_first [of _ a0]
    by (auto simp: wf_alloc_def a0_def layout_fits_def simp flip: cap_def)
  then have "wf_alloc (foldl set_used a0 bs)" by (rule wf_mark)
  moreover have "total_blocks (foldl set_used a0 bs) = l_total_blocks l" by (simp add: a0_def)
  ultimately show ?thesis
    using assms by (auto simp: new used.used_mark_all used0 bs_def layout_fits_def simp flip: cap_def)
qed

text \<open>
  A new allocator over a layout whose groups cover the filesystem is well formed, and a block
  is free in it exactly when it is a real block that no fixed metadata region of the layout holds.
\<close>

theorem new_allocator_marks_metadata:
  assumes "layout_fits l"
  shows "\<exists>a. new_allocator l = Ok a \<and> wf_alloc a
    \<and> (\<forall>b. is_used a b \<longleftrightarrow> b < l_first_data_block l \<or> l_total_blocks l \<le> b
         \<or> (\<exists>r \<in> set (metadata_regions l). br_start r \<le> b \<and> b < range_end r))"
  using new_allocator_spec [OF assms] by blast

definition tiny_layout :: Layout where
  "tiny_layout = \<lparr>l_feature = EXT2, l_block_size = 1024, l_total_blocks = 14, l_blocks_per_group = 16,
     l_first_data_block = 1, l_group_count = 1, l_inodes_per_group = 8, l_inode_table_blocks = 2, l_total_inodes = 8,
     l_gdt_blocks = 1, l_reserved_gdt_blocks = 0, l_flex_bg_size = 1, l_max_grow_blocks = 14, l_reserved_blocks = 0,
     l_groups = [\<lparr>gl_index = 0, gl_start_block = 1, gl_block_count = 13, gl_has_super = True, gl_block_bitmap = 3,
       gl_inode_bitmap = 4, gl_inode_table = 5\<rparr>]\<rparr>"

theorem new_allocator_marks_metadata_witness:
  "\<exists>a. new_allocator tiny_layout = Ok a \<and> wf_alloc a \<and> is_used a 6 \<and> \<not> is_used a 7 \<and> is_used a 14"
proof -
  have "layout_fits tiny_layout" by (simp add: layout_fits_def tiny_layout_def u64_max_def)
  then show ?thesis
    using new_allocator_marks_metadata [of tiny_layout]
    by (auto simp: tiny_layout_def set_metadata_regions group_regions_def super_overhead_region_def
        super_overhead_def range_end_def)
qed

section \<open>The allocator as a state machine\<close>

text \<open>
  The writer's use of one allocator: any interleaving of the three allocating calls and of
  \<open>mark_used\<close> for space the writer reserves itself. The second component of the state is what
  has been handed out so far, newest first.
\<close>

type_synonym session = "Allocator \<times> nat list"

inductive alloc_step :: "session \<Rightarrow> session \<Rightarrow> bool" where
  step_allocate: "allocate a n = Ok (rs, a') \<Longrightarrow>
    alloc_step (a, given) (a', concat (map range_blocks rs) @ given)"
| step_refused: "allocate a n = Err e \<Longrightarrow> alloc_step (a, given) (a, given)"
| step_one: "allocate_one a = Ok (b, a') \<Longrightarrow> alloc_step (a, given) (a', b # given)"
| step_contiguous: "allocate_contiguous a n = (Some r, a') \<Longrightarrow>
    alloc_step (a, given) (a', range_blocks r @ given)"
| step_reserve: "alloc_step (a, given) (mark_used a r, given)"

inductive_cases alloc_stepE: "alloc_step (a, given) s"

inductive alloc_reach :: "Layout \<Rightarrow> session \<Rightarrow> bool" for l where
  reach_new: "new_allocator l = Ok a \<Longrightarrow> alloc_reach l (a, [])"
| reach_step: "alloc_reach l s \<Longrightarrow> alloc_step s t \<Longrightarrow> alloc_reach l t"

text \<open>What holds of every reachable session: \<open>given\<close> has no block twice and all are real and used.\<close>

definition session_ok :: "Layout \<Rightarrow> session \<Rightarrow> bool" where
  "session_ok l s = (case s of (a, given) \<Rightarrow>
     wf_alloc a \<and> total_blocks a = l_total_blocks l \<and> distinct given
     \<and> (\<forall>b \<in> set given. is_used a b \<and> b < total_blocks a
          \<and> l_first_data_block l \<le> b
          \<and> (\<forall>r \<in> set (metadata_regions l). \<not> (br_start r \<le> b \<and> b < range_end r)))
     \<and> (\<forall>b. \<not> is_used a b \<longrightarrow> l_first_data_block l \<le> b
          \<and> (\<forall>r \<in> set (metadata_regions l). \<not> (br_start r \<le> b \<and> b < range_end r))))"

lemma session_extend:
  assumes "session_ok l (a, given)" "wf_alloc a'" "total_blocks a' = total_blocks a"
    and "\<And>b. is_used a' b \<longleftrightarrow> is_used a b \<or> b \<in> set new"
    and "distinct new" "\<And>b. b \<in> set new \<Longrightarrow> \<not> is_used a b \<and> b < total_blocks a"
  shows "session_ok l (a', new @ given)"
  using assms by (auto simp: session_ok_def)

lemma allocate_Ok:
  assumes "wf_alloc a" "allocate a n = Ok (rs, a')"
  shows "wf_alloc a'" "total_blocks a' = total_blocks a"
    and "concat (map range_blocks rs) = take n (free_list a 0)" "n \<le> length (free_list a 0)"
    and "is_used a' b \<longleftrightarrow> is_used a b \<or> b \<in> set (take n (free_list a 0))"
    and "\<forall>r \<in> set rs. br_len r > 0"
proof -
  show le: "n \<le> length (free_list a 0)"
    using assms allocate_no_space [OF assms(1), of n] by (cases "n \<le> length (free_list a 0)") auto
  obtain i where "a' = (foldl set_used a (take n (free_list a 0)))\<lparr>cursor := i\<rparr>"
      "concat (map range_blocks rs) = take n (free_list a 0)" "\<forall>r \<in> set rs. br_len r > 0"
      "cursor a \<le> i" "i \<le> total_blocks a" "free_list a i = drop n (free_list a 0)"
    using allocate_free_list [OF assms(1) le] assms(2) by auto
  then show "wf_alloc a'" "total_blocks a' = total_blocks a" "concat (map range_blocks rs) = take n (free_list a 0)"
    "is_used a' b \<longleftrightarrow> is_used a b \<or> b \<in> set (take n (free_list a 0))" "\<forall>r \<in> set rs. br_len r > 0"
    using wf_advance [OF assms(1)] by (auto simp: used.used_mark_all)
qed

lemma session_allocate:
  assumes "session_ok l (a, given)" "allocate a n = Ok (rs, a')"
  shows "session_ok l (a', concat (map range_blocks rs) @ given)"
proof -
  have wf: "wf_alloc a" using assms(1) by (simp add: session_ok_def)
  note ok = allocate_Ok [OF wf assms(2)]
  show ?thesis
    by (rule session_extend [OF assms(1) ok(1,2)])
       (auto simp: ok(3,5) distinct_take set_free_list dest: in_set_takeD)
qed

lemma allocate_one_head:
  assumes "wf_alloc a" "allocate_one a = Ok (b, a')"
  shows "\<exists>rs. allocate a 1 = Ok (rs, a') \<and> concat (map range_blocks rs) = [b]"
proof -
  obtain rs where rs: "allocate a 1 = Ok (rs, a')" "idx_at rs 0 = (Ok \<lparr>br_start = b, br_len = br_len (rs ! 0)\<rparr> :: (AllocError, _) outcome)"
    using assms(2) by (auto simp: allocate_one_def idx_at_def split: if_splits)
  note ok = allocate_Ok [OF assms(1) rs(1)]
  obtain r rest where r: "rs = r # rest" "br_start r = b" using rs(2)
    by (cases rs) (auto simp: idx_at_def, metis BlockRange.select_convs(1))
  then have "b \<in> set (concat (map range_blocks rs))" using ok(6) by (simp add: range_end_def)
  moreover have "length (concat (map range_blocks rs)) = 1" using ok(3,4) by simp
  ultimately have "concat (map range_blocks rs) = [b]"
    by (metis One_nat_def length_0_conv length_Suc_conv empty_iff empty_set set_ConsD)
  then show ?thesis using rs(1) by blast
qed

lemma session_contiguous:
  assumes "session_ok l (a, given)" "allocate_contiguous a n = (Some r, a')"
  shows "session_ok l (a', range_blocks r @ given)"
proof (cases "n = 0")
  case True
  then show ?thesis using assms by (auto simp: allocate_contiguous_def range_blocks_def range_end_def)
next
  case False
  have wf: "wf_alloc a" using assms(1) by (simp add: session_ok_def)
  obtain s where s: "find_run a n (first_data_block a) = Some s"
      "r = \<lparr>br_start = s, br_len = n\<rparr>" "a' = mark_used a r"
    using False assms(2) by (auto simp: allocate_contiguous_def Let_def split: option.splits)
  then have "run_free a s n"
    using find_run_spec [where a = a and i = "first_data_block a" and n = n] False by simp
  then show ?thesis
    by (intro session_extend [OF assms(1)])
       (auto simp: s mark_used_eq used.used_mark_all wf wf_mark run_free_def range_blocks_def range_end_def)
qed

lemma session_step: "alloc_step s t \<Longrightarrow> session_ok l s \<Longrightarrow> session_ok l t"
proof (induction rule: alloc_step.induct)
  case (step_one a b a' given)
  then obtain rs where "allocate a 1 = Ok (rs, a')" "concat (map range_blocks rs) = [b]"
    using allocate_one_head [of a b a'] by (auto simp: session_ok_def)
  then show ?case using session_allocate [OF step_one(2), of 1 rs a'] by simp
next
  case (step_reserve a given r)
  then show ?case by (auto simp: session_ok_def mark_used_eq used.used_mark_all wf_mark)
qed (auto intro: session_allocate session_contiguous)

lemma session_reachable:
  assumes "layout_fits l" "alloc_reach l s"
  shows "session_ok l s"
  using assms(2)
proof (induction rule: alloc_reach.induct)
  case (reach_new a)
  then show ?case using new_allocator_spec [OF assms(1)] by (auto simp: session_ok_def)
qed (blast intro: session_step)

text \<open>
  C23: However the writer interleaves its calls on a new allocator, refused calls and its own
  reservations included, no block is ever handed out twice, and every block handed out is a real
  block of the filesystem outside all of its fixed metadata; the next allocation, of either kind, is
  disjoint from everything handed out before it.
\<close>

theorem no_block_handed_out_twice:
  assumes "layout_fits l" "alloc_reach l (a, given)"
  shows "distinct given
    \<and> (\<forall>b \<in> set given. l_first_data_block l \<le> b \<and> b < l_total_blocks l
        \<and> (\<forall>r \<in> set (metadata_regions l). b \<notin> set (range_blocks r)))
    \<and> (\<forall>n rs a'. allocate a n = Ok (rs, a') \<longrightarrow>
        set (concat (map range_blocks rs)) \<inter> set given = {})
    \<and> (\<forall>n r a'. allocate_contiguous a n = (Some r, a') \<longrightarrow> set (range_blocks r) \<inter> set given = {})"
proof -
  have ok: "session_ok l (a, given)" using session_reachable [OF assms] .
  have "set (concat (map range_blocks rs)) \<inter> set given = {}" if "allocate a n = Ok (rs, a')" for n rs a'
    using session_allocate [OF ok that] by (simp only: session_ok_def prod.case distinct_append)
  moreover have "set (range_blocks r) \<inter> set given = {}" if "allocate_contiguous a n = (Some r, a')" for n r a'
    using session_contiguous [OF ok that] by (simp only: session_ok_def prod.case distinct_append)
  moreover have "distinct given
    \<and> (\<forall>b \<in> set given. l_first_data_block l \<le> b \<and> b < l_total_blocks l
        \<and> (\<forall>r \<in> set (metadata_regions l). b \<notin> set (range_blocks r)))"
    using ok by (auto simp: session_ok_def)
  ultimately show ?thesis by blast
qed

lemma tiny_layout_fits: "layout_fits tiny_layout"
  by (simp add: layout_fits_def tiny_layout_def u64_max_def)

lemma tiny_layout_free:
  "\<exists>a. new_allocator tiny_layout = Ok a \<and> wf_alloc a \<and> free_list a 0 = [7, 8, 9, 10, 11, 12, 13]"
proof -
  obtain a where a: "new_allocator tiny_layout = Ok a" "wf_alloc a" "total_blocks a = 14"
      "\<forall>b. is_used a b \<longleftrightarrow> b < 7 \<or> 14 \<le> b"
    using new_allocator_spec [OF tiny_layout_fits]
    by (fastforce simp: tiny_layout_def set_metadata_regions group_regions_def super_overhead_region_def
        super_overhead_def range_end_def)
  then have "free_list a 0 = filter (\<lambda>b. 7 \<le> b) [0..<14]"
    by (auto simp: free_list_def intro: filter_cong)
  then show ?thesis using a by (simp add: upt_rec)
qed

theorem no_block_handed_out_twice_witness:
  "\<exists>a given rs a'. alloc_reach tiny_layout (a, given) \<and> given = [7, 8, 9]
     \<and> allocate a 2 = Ok (rs, a') \<and> concat (map range_blocks rs) = [10, 11]
     \<and> set (concat (map range_blocks rs)) \<inter> set given = {}"
proof -
  obtain a where a: "new_allocator tiny_layout = Ok a" "wf_alloc a"
      "free_list a 0 = [7, 8, 9, 10, 11, 12, 13]"
    using tiny_layout_free by blast
  obtain rs i where r: "allocate a 3 = Ok (rs, (foldl set_used a [7, 8, 9])\<lparr>cursor := i\<rparr>)"
      "concat (map range_blocks rs) = [7, 8, 9]"
    using allocate_free_list [OF a(2), of 3] by (auto simp: a(3))
  define a2 where "a2 = (foldl set_used a [7, 8, 9])\<lparr>cursor := i\<rparr>"
  have "alloc_step (a, []) (a2, [7, 8, 9])"
    using alloc_step.step_allocate [OF r(1), of "[]"] by (simp only: r(2) a2_def append_Nil2)
  then have reach: "alloc_reach tiny_layout (a2, [7, 8, 9])"
    by (rule reach_step [OF reach_new [OF a(1)]])
  have wf: "wf_alloc a2" using allocate_Ok(1) [OF a(2) r(1)] by (simp add: a2_def)
  have "free_list a2 0 = filter (\<lambda>b. b \<notin> set [7, 8, 9]) (free_list a 0)"
    by (simp only: a2_def free_list_cursor free_list_mark)
  then have "free_list a2 0 = [10, 11, 12, 13]" by (simp add: a(3))
  then obtain rs' a' where "allocate a2 2 = Ok (rs', a')" "concat (map range_blocks rs') = [10, 11]"
    using allocate_free_list [OF wf, of 2] by auto
  then show ?thesis using no_block_handed_out_twice [OF tiny_layout_fits reach] reach by blast
qed

end
