(* ===== verification/Crc32c.thy ===== *)
theory Crc32c
  imports ByteFields
begin

text \<open>
  The reflected CRC-32C of \<^verbatim>\<open>crates/ferrosys/src/crc32c.rs\<close>: the eight lookup tables, the
  slicing-by-8 loop over whole words and the byte loop over the tail. The reference is
  the polynomial division itself, one bit at a time (the code's own test reference
  \<^verbatim>\<open>bitwise\<close>), and the tables' loop is proved equal to it for every seed and buffer.
\<close>

section \<open>The code\<close>

definition POLY :: u32 where
  "POLY = 0x82F63B78"

text \<open>One iteration of the innermost loop of \<^verbatim>\<open>build_tables\<close>, and of \<^verbatim>\<open>bitwise\<close>.\<close>

definition crc_bit :: "u32 \<Rightarrow> u32" where
  "crc_bit crc = (if crc AND 1 \<noteq> 0 then POLY XOR drop_bit 1 crc else drop_bit 1 crc)"

definition table0 :: "u32 list" where
  "table0 = map (\<lambda>n. (crc_bit ^^ 8) (of_nat n)) [0..<256]"

definition next_table :: "u32 list \<Rightarrow> u32 list" where
  "next_table prev_table =
     map (\<lambda>prev. drop_bit 8 prev XOR table0 ! unat (prev AND 0xff)) prev_table"

definition TABLES :: "u32 list list" where
  "TABLES = map (\<lambda>k. (next_table ^^ k) table0) [0..<8]"

definition lookup :: "nat \<Rightarrow> u32 \<Rightarrow> u32" where
  "lookup k i = TABLES ! k ! unat i"

text \<open>The body of the loop over whole words: \<open>word\<close> is eight bytes.\<close>

definition crc_word :: "u32 \<Rightarrow> bytes \<Rightarrow> u32" where
  "crc_word crc word =
     (let low = crc XOR from_le (take 4 word)
      in lookup 7 (low AND 0xff)
         XOR lookup 6 (drop_bit 8 low AND 0xff)
         XOR lookup 5 (drop_bit 16 low AND 0xff)
         XOR lookup 4 (drop_bit 24 low)
         XOR lookup 3 (ucast (word ! 4))
         XOR lookup 2 (ucast (word ! 5))
         XOR lookup 1 (ucast (word ! 6))
         XOR lookup 0 (ucast (word ! 7)))"

definition crc_tail_byte :: "u32 \<Rightarrow> u8 \<Rightarrow> u32" where
  "crc_tail_byte crc b = drop_bit 8 crc XOR lookup 0 ((crc XOR ucast b) AND 0xff)"

text \<open>Rust's \<^verbatim>\<open>as_chunks\<close>: the whole chunks of \<open>n\<close> elements, and what is left over.\<close>

function as_chunks :: "nat \<Rightarrow> 'a list \<Rightarrow> 'a list list \<times> 'a list" where
  "as_chunks n xs =
     (if n = 0 \<or> length xs < n then ([], xs)
      else let (cs, tail) = as_chunks n (drop n xs) in (take n xs # cs, tail))"
  by pat_completeness auto
termination
  by (relation "measure (\<lambda>(n, xs). length xs)") auto

declare as_chunks.simps [simp del]

definition crc32c :: "u32 \<Rightarrow> bytes \<Rightarrow> u32" where
  "crc32c seed data =
     (let (words, tail) = as_chunks 8 data
      in foldl crc_tail_byte (foldl crc_word seed words) tail)"

section \<open>The reference\<close>

definition crc_byte :: "u32 \<Rightarrow> u8 \<Rightarrow> u32" where
  "crc_byte crc b = (crc_bit ^^ 8) (crc XOR ucast b)"

definition bitwise :: "u32 \<Rightarrow> bytes \<Rightarrow> u32" where
  "bitwise seed data = foldl crc_byte seed data"

section \<open>The step is linear and injective\<close>

lemma bit_crc_bit:
  "bit (crc_bit x) i = ((bit POLY i \<and> bit x 0) \<noteq> (i < 31 \<and> bit x (Suc i)))"
proof -
  have "x AND 1 \<noteq> 0 \<longleftrightarrow> bit x 0"
    by (simp add: and_one_eq bit_0 odd_iff_mod_2_eq_one)
  moreover have "bit x (Suc i) \<Longrightarrow> i < 31"
    using bit_imp_le_length [of x "Suc i"] by simp
  ultimately show ?thesis by (auto simp: crc_bit_def bit_simps)
qed

lemma crc_bit_xor: "crc_bit (x XOR y) = crc_bit x XOR crc_bit y"
  by (rule bit_word_eqI) (auto simp: bit_crc_bit bit_simps)

lemma crc_bit_inj: "crc_bit x = crc_bit y \<Longrightarrow> x = y"
proof (rule bit_word_eqI)
  fix i
  assume eq: "crc_bit x = crc_bit y" and "i < LENGTH(32)"
  have top: "bit POLY 31" by (simp add: POLY_def)
  then have zero: "bit x 0 = bit y 0"
    using arg_cong [OF eq, of "\<lambda>w. bit w 31"] by (simp add: bit_crc_bit)
  show "bit x i = bit y i"
  proof (cases i)
    case 0
    then show ?thesis using zero by simp
  next
    case (Suc j)
    then show ?thesis
      using arg_cong [OF eq, of "\<lambda>w. bit w j"] zero \<open>i < LENGTH(32)\<close> by (auto simp: bit_crc_bit)
  qed
qed

definition crc_zero_byte :: "u32 \<Rightarrow> u32" where
  "crc_zero_byte x = (crc_bit ^^ 8) x"

lemma funpow_xor: "(crc_bit ^^ n) (x XOR y) = (crc_bit ^^ n) x XOR (crc_bit ^^ n) y"
  by (induction n) (simp_all add: crc_bit_xor)

lemma crc_zero_byte_xor: "crc_zero_byte (x XOR y) = crc_zero_byte x XOR crc_zero_byte y"
  by (simp add: crc_zero_byte_def funpow_xor)

lemma crc_zero_byte_inj: "crc_zero_byte x = crc_zero_byte y \<Longrightarrow> x = y"
proof -
  have "(crc_bit ^^ n) x = (crc_bit ^^ n) y \<Longrightarrow> x = y" for n
    by (induction n) (auto dest: crc_bit_inj)
  then show "crc_zero_byte x = crc_zero_byte y \<Longrightarrow> x = y" by (simp add: crc_zero_byte_def)
qed

text \<open>Bits below the low end only move: a value with \<open>n\<close> low zero bits is shifted.\<close>

lemma funpow_crc_bit_shift:
  "take_bit n x = 0 \<Longrightarrow> (crc_bit ^^ n) x = drop_bit n x"
proof (induction n arbitrary: x)
  case 0
  then show ?case by simp
next
  case (Suc n)
  have zeros: "\<not> bit x i" if "i < Suc n" for i
    using arg_cong [OF Suc.prems, of "\<lambda>w. bit w i"] that by (simp add: bit_take_bit_iff)
  then have step: "crc_bit x = drop_bit 1 x"
    by (intro bit_word_eqI) (auto simp: bit_crc_bit bit_simps dest: bit_imp_le_length)
  have "take_bit n (drop_bit 1 x) = 0"
    using zeros by (intro bit_word_eqI) (auto simp: bit_simps)
  then have "(crc_bit ^^ n) (drop_bit 1 x) = drop_bit n (drop_bit 1 x)" by (rule Suc.IH)
  then show ?case by (simp only: funpow_Suc_right o_def step drop_bit_drop_bit) simp
qed

lemma crc_zero_byte_split: "crc_zero_byte x = drop_bit 8 x XOR crc_zero_byte (x AND 0xff)"
proof -
  have mask: "0xff = (mask 8 :: u32)" by (simp add: mask_eq_exp_minus_1)
  have "x = (x AND NOT (mask 8)) XOR (x AND 0xff)"
    unfolding mask by (rule bit_word_eqI) (auto simp: bit_simps)
  then have "crc_zero_byte x = crc_zero_byte (x AND NOT (mask 8)) XOR crc_zero_byte (x AND 0xff)"
    using crc_zero_byte_xor by metis
  moreover have "crc_zero_byte (x AND NOT (mask 8)) = drop_bit 8 (x AND NOT (mask 8))"
    unfolding crc_zero_byte_def
    by (rule funpow_crc_bit_shift) (rule bit_word_eqI, auto simp: bit_simps)
  moreover have "drop_bit 8 (x AND NOT (mask 8)) = drop_bit 8 x"
    by (rule bit_word_eqI) (auto simp: bit_simps dest: bit_imp_le_length)
  ultimately show ?thesis by simp
qed

section \<open>The tables are the step, iterated\<close>

lemma length_table0 [simp]: "length table0 = 256"
  by (simp add: table0_def)

lemma table0_nth: "n < 256 \<Longrightarrow> table0 ! n = crc_zero_byte (of_nat n)"
  by (simp add: table0_def crc_zero_byte_def)

lemma unat_and_ff: "unat (x AND 0xff :: u32) < 256"
proof -
  have "x AND 0xff \<le> (0xff :: u32)" by (rule word_and_le1)
  then show ?thesis by (simp add: word_le_nat_alt)
qed

lemma table0_and_ff: "table0 ! unat (x AND 0xff) = crc_zero_byte (x AND 0xff)"
  by (simp add: table0_nth unat_and_ff)

lemma next_table_map: "next_table t = map crc_zero_byte t"
  by (simp add: next_table_def table0_and_ff crc_zero_byte_split [symmetric] cong: map_cong)

lemma next_table_iterate: "(next_table ^^ k) table0 = map (crc_zero_byte ^^ k) table0"
  by (induction k) (simp_all add: next_table_map)

lemma lookup_eq:
  assumes "k < 8" "unat i < 256"
  shows "lookup k i = (crc_zero_byte ^^ Suc k) i"
proof -
  have "(crc_zero_byte ^^ k) (crc_zero_byte x) = crc_zero_byte ((crc_zero_byte ^^ k) x)" for x
    by (simp add: funpow_swap1)
  then show ?thesis
    using assms by (simp add: lookup_def TABLES_def next_table_iterate table0_nth)
qed

lemma lookup_low: "k < 8 \<Longrightarrow> lookup k (x AND 0xff) = (crc_zero_byte ^^ Suc k) (x AND 0xff)"
  by (simp add: lookup_eq unat_and_ff)

lemma lookup_byte: "k < 8 \<Longrightarrow> lookup k (ucast (b :: u8)) = (crc_zero_byte ^^ Suc k) (ucast b)"
proof -
  have "unat (ucast b :: u32) < 256" by (simp add: unat_ucast_up)
  then show "k < 8 \<Longrightarrow> ?thesis" by (rule lookup_eq [rotated])
qed

lemma iterate_xor:
  "(crc_zero_byte ^^ k) (x XOR y) = (crc_zero_byte ^^ k) x XOR (crc_zero_byte ^^ k) y"
  by (induction k) (simp_all add: crc_zero_byte_xor)

lemma crc_tail_byte_eq: "crc_tail_byte crc b = crc_byte crc b"
proof -
  have "drop_bit 8 (crc XOR ucast b) = drop_bit 8 crc"
    by (rule bit_word_eqI) (auto simp: bit_simps dest: bit_imp_le_length)
  then show ?thesis
    using crc_zero_byte_split [of "crc XOR ucast b"]
    by (simp add: crc_tail_byte_def crc_byte_def lookup_low crc_zero_byte_def)
qed

section \<open>Eight bytes at once\<close>

text \<open>Four steps from a state: each byte falls out at the low end in its turn.\<close>

lemma crc_four_steps:
  "(crc_zero_byte ^^ 4) x =
     (crc_zero_byte ^^ 4) (x AND 0xff) XOR (crc_zero_byte ^^ 3) (drop_bit 8 x AND 0xff)
     XOR (crc_zero_byte ^^ 2) (drop_bit 16 x AND 0xff) XOR crc_zero_byte (drop_bit 24 x)"
proof -
  have step: "(crc_zero_byte ^^ Suc k) y =
      (crc_zero_byte ^^ k) (drop_bit 8 y) XOR (crc_zero_byte ^^ Suc k) (y AND 0xff)" for k y
    by (subst (1 2) funpow_Suc_right) (simp add: crc_zero_byte_split [of y] iterate_xor)
  have "(crc_zero_byte ^^ 4) x = (crc_zero_byte ^^ 3) (drop_bit 8 x) XOR (crc_zero_byte ^^ 4) (x AND 0xff)"
    using step [of 3 x] by (simp add: numeral_eq_Suc)
  moreover have "(crc_zero_byte ^^ 3) (drop_bit 8 x)
      = (crc_zero_byte ^^ 2) (drop_bit 16 x) XOR (crc_zero_byte ^^ 3) (drop_bit 8 x AND 0xff)"
    using step [of 2 "drop_bit 8 x"] by (simp add: numeral_eq_Suc)
  moreover have "(crc_zero_byte ^^ 2) (drop_bit 16 x)
      = crc_zero_byte (drop_bit 24 x) XOR (crc_zero_byte ^^ 2) (drop_bit 16 x AND 0xff)"
    using step [of 1 "drop_bit 16 x"] by (simp add: numeral_eq_Suc)
  ultimately show ?thesis by (simp add: ac_simps)
qed

text \<open>A byte that meets the state after a step is the same byte eight places up before it.\<close>

lemma crc_step_absorb:
  assumes "take_bit 24 y = y"
  shows "crc_zero_byte x XOR y = crc_zero_byte (x XOR push_bit 8 y)"
proof -
  have "crc_zero_byte (push_bit 8 y) = drop_bit 8 (push_bit 8 y)"
    unfolding crc_zero_byte_def
    by (rule funpow_crc_bit_shift) (rule bit_word_eqI, auto simp: bit_simps)
  also have "\<dots> = y"
  proof (rule bit_word_eqI)
    fix n
    have "bit y n \<Longrightarrow> n < 24" using arg_cong [OF assms, of "\<lambda>w. bit w n"] by (simp add: bit_take_bit_iff)
    then show "bit (drop_bit 8 (push_bit 8 y)) n = bit y n" by (auto simp: bit_simps)
  qed
  finally show ?thesis by (simp add: crc_zero_byte_xor)
qed

lemma crc_absorb_byte:
  "k \<le> 3 \<Longrightarrow> (crc_zero_byte ^^ k) x XOR ucast (b :: u8)
     = (crc_zero_byte ^^ k) (x XOR push_bit (8 * k) (ucast b))"
proof (induction k arbitrary: x)
  case 0
  then show ?case by simp
next
  case (Suc k)
  have "(crc_zero_byte ^^ Suc k) x XOR ucast b
      = (crc_zero_byte ^^ k) (crc_zero_byte x XOR push_bit (8 * k) (ucast b))"
    using Suc by (simp add: funpow_swap1)
  also have "take_bit 24 (push_bit (8 * k) (ucast b :: u32)) = push_bit (8 * k) (ucast b)"
    using Suc.prems by (intro bit_word_eqI) (auto simp: bit_simps dest: bit_imp_le_length)
  then have "crc_zero_byte x XOR push_bit (8 * k) (ucast b)
      = crc_zero_byte (x XOR push_bit 8 (push_bit (8 * k) (ucast b)))"
    by (rule crc_step_absorb)
  also have "(crc_zero_byte ^^ k) (crc_zero_byte (x XOR push_bit 8 (push_bit (8 * k) (ucast b))))
      = (crc_zero_byte ^^ Suc k) (x XOR push_bit (8 * Suc k) (ucast b))"
    by (simp add: funpow_swap1 push_bit_push_bit)
  finally show ?case .
qed

lemma crc_byte_iterate:
  "k \<le> 3 \<Longrightarrow> crc_byte ((crc_zero_byte ^^ k) x) b
     = (crc_zero_byte ^^ Suc k) (x XOR push_bit (8 * k) (ucast b))"
  by (simp add: crc_byte_def crc_absorb_byte crc_zero_byte_def)

lemma crc_four_bytes:
  "foldl crc_byte crc [b0, b1, b2, b3] = (crc_zero_byte ^^ 4) (crc XOR from_le [b0, b1, b2, b3])"
proof -
  have "foldl crc_byte crc [b0, b1, b2, b3]
      = (crc_zero_byte ^^ 4) (crc XOR ucast b0 XOR push_bit 8 (ucast b1)
          XOR push_bit 16 (ucast b2) XOR push_bit 24 (ucast b3))"
    using crc_byte_iterate [of 0 crc b0] crc_byte_iterate [of 1] crc_byte_iterate [of 2]
      crc_byte_iterate [of 3]
    by (simp add: numeral_eq_Suc xor.assoc)
  moreover have "from_le [b0, b1, b2, b3] = ucast b0 XOR push_bit 8 (ucast b1)
      XOR push_bit 16 (ucast b2) XOR push_bit 24 (ucast b3 :: u32)"
    by (rule bit_word_eqI) (auto simp: bit_simps dest: bit_imp_le_length)
  ultimately show ?thesis by (simp add: ac_simps)
qed

lemma crc_byte_eq: "crc_byte x b = crc_zero_byte x XOR crc_zero_byte (ucast b)"
  by (simp add: crc_byte_def crc_zero_byte_xor flip: crc_zero_byte_def)

lemma crc_word_eq:
  assumes "length word = 8"
  shows "crc_word crc word = foldl crc_byte crc word"
proof -
  obtain b0 b1 b2 b3 b4 b5 b6 b7 where w: "word = [b0, b1, b2, b3, b4, b5, b6, b7]"
    using assms by (auto simp: numeral_eq_Suc length_Suc_conv)
  define low where "low = crc XOR from_le [b0, b1, b2, b3]"
  have "foldl crc_byte crc word = foldl crc_byte ((crc_zero_byte ^^ 4) low) [b4, b5, b6, b7]"
    using crc_four_bytes [of crc b0 b1 b2 b3] by (simp add: w low_def)
  also have "\<dots> = (crc_zero_byte ^^ 4) ((crc_zero_byte ^^ 4) low)
      XOR (crc_zero_byte ^^ 4) (ucast b4) XOR (crc_zero_byte ^^ 3) (ucast b5)
      XOR (crc_zero_byte ^^ 2) (ucast b6) XOR crc_zero_byte (ucast b7)"
    by (simp add: crc_byte_eq crc_zero_byte_xor numeral_eq_Suc ac_simps)
  finally have eq: "foldl crc_byte crc word = (crc_zero_byte ^^ 4) ((crc_zero_byte ^^ 4) low)
      XOR (crc_zero_byte ^^ 4) (ucast b4) XOR (crc_zero_byte ^^ 3) (ucast b5)
      XOR (crc_zero_byte ^^ 2) (ucast b6) XOR crc_zero_byte (ucast b7)" .
  have eq4: "(crc_zero_byte ^^ 4) ((crc_zero_byte ^^ 4) low)
      = (crc_zero_byte ^^ 8) (low AND 0xff) XOR (crc_zero_byte ^^ 7) (drop_bit 8 low AND 0xff)
        XOR (crc_zero_byte ^^ 6) (drop_bit 16 low AND 0xff)
        XOR (crc_zero_byte ^^ 5) (drop_bit 24 low)"
    by (subst crc_four_steps [of low]) (simp only: iterate_xor, simp add: numeral_eq_Suc)
  have "unat (drop_bit 24 low) < 256"
  proof -
    have "drop_bit 24 low = drop_bit 24 low AND 0xff"
    proof -
      have m: "0xff = (mask 8 :: u32)" by (simp add: mask_eq_exp_minus_1)
      show ?thesis unfolding m
        by (intro bit_word_eqI) (auto simp: bit_simps dest: bit_imp_le_length)
    qed
    then show ?thesis by (metis unat_and_ff)
  qed
  then have "lookup 4 (drop_bit 24 low) = (crc_zero_byte ^^ 5) (drop_bit 24 low)"
    by (simp add: lookup_eq)
  moreover have "lookup 7 (low AND 0xff) = (crc_zero_byte ^^ 8) (low AND 0xff)"
    "lookup 6 (drop_bit 8 low AND 0xff) = (crc_zero_byte ^^ 7) (drop_bit 8 low AND 0xff)"
    "lookup 5 (drop_bit 16 low AND 0xff) = (crc_zero_byte ^^ 6) (drop_bit 16 low AND 0xff)"
    by (simp_all add: lookup_low)
  moreover have "lookup 3 (ucast b4) = (crc_zero_byte ^^ 4) (ucast b4)"
    "lookup 2 (ucast b5) = (crc_zero_byte ^^ 3) (ucast b5)"
    "lookup 1 (ucast b6) = (crc_zero_byte ^^ 2) (ucast b6)"
    "lookup 0 (ucast b7) = crc_zero_byte (ucast b7)"
    by (simp_all add: lookup_byte numeral_eq_Suc)
  moreover have "crc_word crc word = lookup 7 (low AND 0xff) XOR lookup 6 (drop_bit 8 low AND 0xff)
      XOR lookup 5 (drop_bit 16 low AND 0xff) XOR lookup 4 (drop_bit 24 low)
      XOR lookup 3 (ucast b4) XOR lookup 2 (ucast b5) XOR lookup 1 (ucast b6)
      XOR lookup 0 (ucast b7)"
    by (simp add: crc_word_def w low_def)
  ultimately show ?thesis using eq eq4 by (simp only: xor.assoc)
qed

section \<open>The whole buffer\<close>

lemma as_chunks_spec:
  "0 < n \<Longrightarrow> as_chunks n xs = (cs, tail) \<Longrightarrow>
    concat cs @ tail = xs \<and> (\<forall>c \<in> set cs. length c = n) \<and> length tail < n"
proof (induction n xs arbitrary: cs tail rule: as_chunks.induct)
  case (1 n xs)
  show ?case
  proof (cases "length xs < n")
    case True
    then show ?thesis using "1.prems" by (auto simp: as_chunks.simps [of n xs])
  next
    case False
    obtain cs' tail' where rec: "as_chunks n (drop n xs) = (cs', tail')" by force
    have "concat cs' @ tail' = drop n xs \<and> (\<forall>c \<in> set cs'. length c = n) \<and> length tail' < n"
      using "1.IH" [OF _ \<open>0 < n\<close> rec] False "1.prems"(1) by simp
    moreover have "cs = take n xs # cs'" "tail = tail'"
      using "1.prems" False rec by (auto simp: as_chunks.simps [of n xs])
    ultimately show ?thesis using False by auto
  qed
qed

lemma foldl_crc_word:
  "\<forall>w \<in> set ws. length w = 8 \<Longrightarrow> foldl crc_word crc ws = foldl crc_byte crc (concat ws)"
  by (induction ws arbitrary: crc) (simp_all add: crc_word_eq)

lemma crc32c_bitwise: "crc32c seed data = bitwise seed data"
proof -
  obtain ws tail where ch: "as_chunks 8 data = (ws, tail)" by force
  then have "concat ws @ tail = data" "\<forall>w \<in> set ws. length w = 8"
    using as_chunks_spec [OF _ ch] by auto
  moreover have "foldl crc_tail_byte x tail = foldl crc_byte x tail" for x
    by (induction tail arbitrary: x) (simp_all add: crc_tail_byte_eq)
  ultimately show ?thesis
    by (simp add: crc32c_def ch bitwise_def foldl_crc_word flip: foldl_append)
qed

lemma crc32c_append: "crc32c seed (xs @ ys) = crc32c (crc32c seed xs) ys"
  by (simp add: crc32c_bitwise bitwise_def)

lemma crc32c_Nil [simp]: "crc32c seed [] = seed"
  by (simp add: crc32c_bitwise bitwise_def)

lemma bitwise_inj_seed: "bitwise s xs = bitwise t xs \<Longrightarrow> s = t"
proof (induction xs arbitrary: s t)
  case Nil
  then show ?case by (simp add: bitwise_def)
next
  case (Cons x xs)
  then have "crc_byte s x = crc_byte t x" by (simp add: bitwise_def)
  then have "s XOR ucast x = t XOR ucast x"
    by (auto simp: crc_byte_def crc_zero_byte_def dest!: crc_zero_byte_inj [unfolded crc_zero_byte_def])
  from arg_cong [OF this, of "\<lambda>z. z XOR ucast x"] show ?case by (simp add: xor.assoc)
qed

lemma from_le_inj4:
  assumes "length bs = 4" "length cs = 4" "from_le bs = (from_le cs :: u32)"
  shows "bs = cs"
proof -
  have "bs = to_le 4 (from_le bs :: u32)" by (rule to_from_le_n [OF assms(1), symmetric]) simp
  also have "\<dots> = to_le 4 (from_le cs :: u32)" by (rule arg_cong [OF assms(3)])
  also have "\<dots> = cs" by (rule to_from_le_n [OF assms(2)]) simp
  finally show ?thesis .
qed

section \<open>What the checksum promises\<close>

lemma crc_byte_unroll:
  "crc_byte x b = crc_bit (crc_bit (crc_bit (crc_bit (crc_bit (crc_bit (crc_bit
     (crc_bit (x XOR ucast b))))))))"
  by (simp add: crc_byte_def eval_nat_numeral)

lemma crc32c_check_value:
  "NOT (crc32c (NOT 0) [0x31, 0x32, 0x33, 0x34, 0x35, 0x36, 0x37, 0x38, 0x39]) = 0xE3069283"
proof -
  have "NOT 0 = (0xFFFFFFFF :: u32)" by simp
  then show ?thesis
    by (simp only: crc32c_bitwise bitwise_def) (simp add: crc_byte_unroll crc_bit_def POLY_def)
qed

text \<open>
  C26: The slicing-by-8 routine is the bit-at-a-time polynomial division, it is a continuation (the
  checksum of a concatenation is the checksum of the second part continued from that of the
  first, and of nothing is the seed), and it has the published CRC-32C check value.
\<close>

theorem crc32c_is_division:
  "crc32c seed data = bitwise seed data
   \<and> crc32c seed (xs @ ys) = crc32c (crc32c seed xs) ys \<and> crc32c seed [] = seed
   \<and> NOT (crc32c (NOT 0) [0x31, 0x32, 0x33, 0x34, 0x35, 0x36, 0x37, 0x38, 0x39]) = 0xE3069283"
  using crc32c_check_value by (simp add: crc32c_bitwise crc32c_append [unfolded crc32c_bitwise])
     (simp add: bitwise_def)

lemma crc_zero_bytes_inj: "(crc_zero_byte ^^ n) x = (crc_zero_byte ^^ n) y \<Longrightarrow> x = y"
  by (induction n) (auto dest: crc_zero_byte_inj)

lemma crc32c_four_inj:
  assumes "length bs = 4" "length cs = 4" "crc32c s bs = crc32c s cs"
  shows "bs = cs"
proof -
  have four: "crc32c s ds = (crc_zero_byte ^^ 4) (s XOR from_le ds)" if "length ds = 4" for ds
  proof -
    obtain b0 b1 b2 b3 where "ds = [b0, b1, b2, b3]"
      using \<open>length ds = 4\<close> by (auto simp: numeral_eq_Suc length_Suc_conv)
    then show ?thesis by (simp only: crc32c_bitwise bitwise_def crc_four_bytes)
  qed
  have "s XOR from_le bs = s XOR from_le cs"
    using assms(3) unfolding four [OF assms(1)] four [OF assms(2)] by (rule crc_zero_bytes_inj)
  from arg_cong [OF this, of "\<lambda>z. s XOR z"] have "from_le bs = (from_le cs :: u32)"
    by (simp flip: xor.assoc)
  then show ?thesis by (rule from_le_inj4 [OF assms(1,2)])
qed



end
