(* ===== verification/FatTable.thy ===== *)
theory FatTable
  imports ByteFields
begin

text \<open>
  The file allocation table of \<^verbatim>\<open>crates/ferrosys/src/fat/table.rs\<close>: entries of 12, 16 or 28 bits
  packed into bytes. The reader and writer work on bytes, nibbles and reserved bits; the
  abstract view is an array of bits in which entry \<open>n\<close> owns the \<open>entry_width\<close> bits from
  \<open>entry_bits * n\<close> on, and the lemmas \<open>read_entry_bits\<close> and \<open>write_entry_bits\<close> say that the code
  implements exactly that array.
\<close>

section \<open>The code\<close>

datatype FatType = Fat12 | Fat16 | Fat32

fun entry_mask :: "FatType \<Rightarrow> u32" where
  "entry_mask Fat12 = 0x00000FFF"
| "entry_mask Fat16 = 0x0000FFFF"
| "entry_mask Fat32 = 0x0FFFFFFF"

definition media_entry :: "FatType \<Rightarrow> u8 \<Rightarrow> u32" where
  "media_entry ft media = (entry_mask ft AND NOT 0xFF) OR ucast media"

definition tail_entry :: "FatType \<Rightarrow> u32" where
  "tail_entry ft = entry_mask ft"

fun status_bits :: "FatType \<Rightarrow> u32 \<times> u32" where
  "status_bits Fat12 = (0, 0)"
| "status_bits Fat16 = (0x8000, 0x4000)"
| "status_bits Fat32 = (0x08000000, 0x04000000)"

definition end_of_chain :: "FatType \<Rightarrow> u32" where
  "end_of_chain ft = entry_mask ft AND NOT 0x7"

definition bad_cluster :: "FatType \<Rightarrow> u32" where
  "bad_cluster ft = entry_mask ft - 8"

definition FREE :: u32 where
  "FREE = 0"

definition is_end_of_chain :: "FatType \<Rightarrow> u32 \<Rightarrow> bool" where
  "is_end_of_chain ft entry \<longleftrightarrow> entry \<ge> end_of_chain ft"

definition is_cluster :: "FatType \<Rightarrow> u32 \<Rightarrow> bool" where
  "is_cluster ft entry \<longleftrightarrow> entry \<ge> 2 \<and> entry < bad_cluster ft"

fun entry_offset :: "FatType \<Rightarrow> u32 \<Rightarrow> nat" where
  "entry_offset Fat12 cluster = unat cluster + unat cluster div 2"
| "entry_offset Fat16 cluster = unat cluster * 2"
| "entry_offset Fat32 cluster = unat cluster * 4"

fun entry_span :: "FatType \<Rightarrow> nat" where
  "entry_span Fat12 = 2"
| "entry_span Fat16 = 2"
| "entry_span Fat32 = 4"

definition fits :: "FatType \<Rightarrow> u32 \<Rightarrow> nat \<Rightarrow> bool" where
  "fits ft cluster n =
     (case checked_add (entry_offset ft cluster) (entry_span ft) of
        Some e \<Rightarrow> e \<le> n
      | None \<Rightarrow> False)"

definition read_entry :: "FatType \<Rightarrow> bytes \<Rightarrow> u32 \<Rightarrow> u32 option may_panic" where
  "read_entry ft table cluster =
     (if \<not> fits ft cluster (length table) then Ok None
      else let off = entry_offset ft cluster in
        mapOk Some (case ft of
          Fat12 \<Rightarrow>
            andThen (get_u16 table off) (\<lambda>w.
            let pair = (ucast w :: u32) in
            if cluster AND 1 = 0 then Ok (pair AND 0xFFF) else Ok (drop_bit 4 pair))
        | Fat16 \<Rightarrow> mapOk ucast (get_u16 table off)
        | Fat32 \<Rightarrow> mapOk (\<lambda>e. e AND entry_mask Fat32) (get_u32 table off)))"

definition write_entry :: "FatType \<Rightarrow> bytes \<Rightarrow> u32 \<Rightarrow> u32 \<Rightarrow> (bool \<times> bytes) may_panic" where
  "write_entry ft table cluster val =
     (if \<not> fits ft cluster (length table) then Ok (False, table)
      else let off = entry_offset ft cluster in
        mapOk (\<lambda>t. (True, t)) (case ft of
          Fat12 \<Rightarrow>
            let val = val AND 0xFFF in
            if cluster AND 1 = 0
            then andThen (put_u8 table off (ucast val)) (\<lambda>table.
                 andThen (get_u8 table (off + 1)) (\<lambda>b.
                 let keep = b AND 0xF0 in
                 put_u8 table (off + 1) (keep OR ucast (drop_bit 8 val))))
            else andThen (get_u8 table off) (\<lambda>b.
                 let keep = b AND 0x0F in
                 andThen (put_u8 table off (keep OR ucast (push_bit 4 val AND 0xF0))) (\<lambda>table.
                 put_u8 table (off + 1) (ucast (drop_bit 4 val))))
        | Fat16 \<Rightarrow> put_u16 table off (ucast val)
        | Fat32 \<Rightarrow>
            andThen (get_u32 table off) (\<lambda>e.
            let reserved = e AND NOT (entry_mask Fat32) in
            put_u32 table off (reserved OR (val AND entry_mask Fat32)))))"

section \<open>The table as an array of bits\<close>

fun entry_bits :: "FatType \<Rightarrow> nat" where
  "entry_bits Fat12 = 12"
| "entry_bits Fat16 = 16"
| "entry_bits Fat32 = 32"

fun entry_width :: "FatType \<Rightarrow> nat" where
  "entry_width Fat12 = 12"
| "entry_width Fat16 = 16"
| "entry_width Fat32 = 28"

definition table_bit :: "bytes \<Rightarrow> nat \<Rightarrow> bool" where
  "table_bit t p \<longleftrightarrow> bit (t ! (p div 8)) (p mod 8)"

lemma bit_from_le_iff:
  "i < LENGTH('a) \<Longrightarrow> bit (from_le bs :: 'a::len word) i \<longleftrightarrow> i < 8 * length bs \<and> bit (bs ! (i div 8)) (i mod 8)"
proof (induction bs arbitrary: i)
  case Nil
  then show ?case by simp
next
  case (Cons b bs)
  show ?case
  proof (cases "i < 8")
    case True
    then show ?thesis using Cons.prems by (auto simp: bit_simps)
  next
    case False
    then have "i div 8 = Suc ((i - 8) div 8)" "(i - 8) mod 8 = i mod 8"
      by (auto simp: le_div_geq le_mod_geq not_less)
    then show ?thesis
      using Cons.IH [of "i - 8"] Cons.prems False
      by (auto simp: bit_simps dest: bit_imp_le_length)
  qed
qed

lemma bit_to_le: "k < n \<Longrightarrow> bit (to_le n v ! k) j \<longleftrightarrow> j < 8 \<and> bit (v :: 'a::len word) (8 * k + j)"
proof (induction n v arbitrary: k rule: to_le.induct)
  case (2 n v)
  then show ?case
    by (cases k) (auto simp: bit_simps add.assoc dest: bit_imp_le_length)
qed simp

lemma unat_double: "unat (c :: u32) * 4 + 8 \<le> u64_max"
  using unat_u32_less [of c] by (simp add: u64_max_def del: unat_u32_less)

lemma fits_iff: "fits ft c n \<longleftrightarrow> entry_offset ft c + entry_span ft \<le> n"
proof -
  have "entry_offset ft c + entry_span ft \<le> u64_max"
    using unat_double [of c] by (cases ft) simp_all
  then show ?thesis by (simp add: fits_def checked_add_def)
qed

lemma and_1_even: "(c :: u32) AND 1 = 0 \<longleftrightarrow> even (unat c)"
  using bit_unsigned_iff [of c 0, where 'a = nat] by (simp add: and_one_eq mod2_eq_if bit_0)

lemma table_bit_at [simp]: "table_bit t (8 * off + i) \<longleftrightarrow> bit (t ! (off + i div 8)) (i mod 8)"
  by (simp add: table_bit_def)

lemma bit_field:
  assumes "off + n \<le> length t" "8 * n \<le> LENGTH('a)"
  shows "bit (from_le (take n (drop off t)) :: 'a::len word) i \<longleftrightarrow> i < 8 * n \<and> table_bit t (8 * off + i)"
proof (cases "i < LENGTH('a)")
  case True
  have "i < 8 * n \<Longrightarrow> i div 8 < n" by linarith
  then show ?thesis using assms True by (auto simp: bit_from_le_iff min_def)
next
  case False
  then show ?thesis using assms by (auto dest: bit_imp_le_length)
qed

lemma bit_pair_field:
  assumes "off + 2 \<le> length t"
  shows "bit (ucast (from_le (take 2 (drop off t)) :: u16) :: u32) i
    \<longleftrightarrow> i < 16 \<and> table_bit t (8 * off + i)"
proof -
  have "bit (from_le (take 2 (drop off t)) :: u16) i \<longleftrightarrow> i < 16 \<and> table_bit t (8 * off + i)"
    using bit_field [OF assms, of i, where 'a = 16] by (simp del: table_bit_at)
  then show ?thesis by (simp add: bit_unsigned_iff del: table_bit_at) auto
qed

lemma bit_quad_field:
  assumes "off + 4 \<le> length t"
  shows "bit (from_le (take 4 (drop off t)) :: u32) i \<longleftrightarrow> i < 32 \<and> table_bit t (8 * off + i)"
  using bit_field [OF assms, of i, where 'a = 32] by (simp del: table_bit_at)

lemma table_bit_splice:
  assumes "off + length bs \<le> length t" "p < 8 * length t"
  shows "table_bit (splice t off bs) p
    = (if 8 * off \<le> p \<and> p < 8 * (off + length bs) then table_bit bs (p - 8 * off) else table_bit t p)"
proof -
  have "p div 8 < length t" using assms by simp
  moreover have "8 * off \<le> p \<and> p < 8 * (off + length bs) \<longleftrightarrow> off \<le> p div 8 \<and> p div 8 < off + length bs"
    by (simp add: less_eq_div_iff_mult_less_eq div_less_iff_less_mult mult.commute)
  moreover have "(p - 8 * off) div 8 = p div 8 - off" "(p - 8 * off) mod 8 = p mod 8" if "8 * off \<le> p"
    using that by (auto simp: le_iff_add)
  ultimately show ?thesis using assms by (auto simp: table_bit_def nth_splice)
qed

lemma table_bit_to_le: "p < 8 * n \<Longrightarrow> table_bit (to_le n v) p \<longleftrightarrow> bit v p"
  by (simp add: table_bit_def bit_to_le)

lemma table_bit_byte: "p < 8 \<Longrightarrow> table_bit [b] p \<longleftrightarrow> bit b p"
  by (simp add: table_bit_def)

lemma bit_low28: "bit (0x0FFFFFFF :: u32) i \<longleftrightarrow> i < 28"
proof -
  have "0x0FFFFFFF = (mask 28 :: u32)" by (simp add: mask_eq_exp_minus_1)
  then show ?thesis by (simp only: bit_mask_iff) auto
qed

lemma bit_low16: "bit (0xFFFF :: u32) i \<longleftrightarrow> i < 16"
proof -
  have "0xFFFF = (mask 16 :: u32)" by (simp add: mask_eq_exp_minus_1)
  then show ?thesis by (simp only: bit_mask_iff) auto
qed

lemma bit_low12: "bit (0xFFF :: u32) i \<longleftrightarrow> i < 12"
proof -
  have "0xFFF = (mask 12 :: u32)" by (simp add: mask_eq_exp_minus_1)
  then show ?thesis by (simp only: bit_mask_iff) auto
qed

lemma bit_high4_u32: "bit (0xF0 :: u32) i \<longleftrightarrow> 4 \<le> i \<and> i < 8"
proof -
  have "0xF0 = (mask 8 AND NOT (mask 4) :: u32)" by (simp add: mask_eq_exp_minus_1)
  then show ?thesis by (simp only: bit_and_iff bit_not_iff bit_mask_iff) auto
qed

lemma entry_position:
  "8 * entry_offset ft c + (if ft = Fat12 \<and> odd (unat c) then 4 else 0) = entry_bits ft * unat c"
proof (cases ft)
  case Fat12
  then show ?thesis using odd_two_times_div_two_succ [of "unat c"] even_two_times_div_two [of "unat c"]
    by simp presburger
qed auto

lemma read_entry_bits:
  assumes "fits ft c (length t)"
  shows "\<exists>e. read_entry ft t c = Ok (Some e)
    \<and> (\<forall>i. bit e i \<longleftrightarrow> i < entry_width ft \<and> table_bit t (entry_bits ft * unat c + i))"
proof -
  note fit = assms [unfolded fits_iff] and pos = entry_position [of ft c, symmetric]
  show ?thesis
  proof (cases ft)
    case Fat16
    note w = bit_pair_field [of "entry_offset ft c" t]
    have r: "read_entry ft t c
        = Ok (Some (ucast (from_le (take 2 (drop (entry_offset ft c) t)) :: u16)))"
      using fit assms Fat16 by (simp add: read_entry_def f16.get_law)
    show ?thesis unfolding r pos using w fit Fat16 by (simp del: table_bit_at)
  next
    case Fat32
    have e: "bit (from_le (take 4 (drop (entry_offset ft c) t)) AND 0x0FFFFFFF :: u32) i
        \<longleftrightarrow> i < 28 \<and> table_bit t (8 * entry_offset ft c + i)" for i
      using fit Fat32 by (simp only: bit_and_iff bit_low28 bit_quad_field entry_span.simps) auto
    have r: "read_entry ft t c
        = Ok (Some (from_le (take 4 (drop (entry_offset ft c) t)) AND 0x0FFFFFFF))"
      using fit assms Fat32 by (simp add: read_entry_def f32.get_law)
    show ?thesis unfolding r pos using e Fat32 by (simp del: table_bit_at)
  next
    case Fat12
    define w where "w = (ucast (from_le (take 2 (drop (entry_offset ft c) t)) :: u16) :: u32)"
    define e where "e = (if even (unat c) then w AND 0xFFF else drop_bit 4 w)"
    have w: "bit w i \<longleftrightarrow> i < 16 \<and> table_bit t (8 * entry_offset ft c + i)" for i
      using bit_pair_field [of "entry_offset ft c" t] fit Fat12 by (simp only: w_def entry_span.simps)
    have r: "read_entry ft t c = Ok (Some e)"
      using assms fit Fat12 by (simp add: read_entry_def f16.get_law Let_def and_1_even e_def w_def)
    have "bit e i \<longleftrightarrow> i < entry_width ft \<and> table_bit t (entry_bits ft * unat c + i)" for i
    proof (cases "even (unat c)")
      case True
      then show ?thesis unfolding pos e_def using w [of i] Fat12
        by (simp only: if_True bit_and_iff bit_low12) (auto simp del: table_bit_at)
    next
      case False
      then show ?thesis unfolding pos e_def using w [of "4 + i"] Fat12
        by (auto simp: bit_drop_bit_eq add.assoc simp del: table_bit_at)
    qed
    then show ?thesis unfolding r by simp
  qed
qed

lemma splice_two:
  assumes "off + 2 \<le> length t"
  shows "splice (splice t off [x]) (off + 1) [y] = splice t off [x, y]"
  using assms by (intro nth_equalityI) (auto simp: nth_splice nth_Cons split: nat.split)

lemma hd_drop_splice:
  "off + 2 \<le> length t \<Longrightarrow> hd (drop (off + 1) (splice t off [x])) = t ! (off + 1)"
  by (simp add: hd_drop_conv_nth nth_splice_out)

lemma bit_low4: "bit (0x0F :: u8) i \<longleftrightarrow> i < 4"
proof -
  have "0x0F = (mask 4 :: u8)" by (simp add: mask_eq_exp_minus_1)
  then show ?thesis by (simp only: bit_mask_iff) auto
qed

lemma bit_high4: "bit (0xF0 :: u8) i \<longleftrightarrow> 4 \<le> i \<and> i < 8"
proof -
  have "0xF0 = (NOT (mask 4) :: u8)" by (simp add: mask_eq_exp_minus_1)
  then show ?thesis by (simp only: bit_not_iff bit_mask_iff) auto
qed

lemma write_entry_bits:
  assumes "fits ft c (length t)"
  shows "\<exists>t'. write_entry ft t c v = Ok (True, t') \<and> length t' = length t
    \<and> (\<forall>p < 8 * length t. table_bit t' p \<longleftrightarrow>
        (if entry_bits ft * unat c \<le> p \<and> p < entry_bits ft * unat c + entry_width ft
         then bit v (p - entry_bits ft * unat c) else table_bit t p))"
proof -
  note fit = assms [unfolded fits_iff] and pos = entry_position [of ft c, symmetric]
  let ?off = "entry_offset ft c"
  show ?thesis
  proof (cases ft)
    case Fat16
    have r: "write_entry ft t c v = Ok (True, splice t ?off (to_le 2 (ucast v :: u16)))"
      using fit assms Fat16 by (simp add: write_entry_def f16.put_law)
    show ?thesis unfolding r pos using fit Fat16
      by (auto simp: table_bit_splice table_bit_to_le bit_unsigned_iff simp del: to_le.simps)
  next
    case Fat32
    define w where
      "w = (from_le (take 4 (drop ?off t)) AND NOT 0x0FFFFFFF :: u32) OR (v AND 0x0FFFFFFF)"
    have r: "write_entry ft t c v = Ok (True, splice t ?off (to_le 4 w))"
      unfolding w_def using fit assms Fat32 by (simp add: write_entry_def f32.put_law f32.get_law Let_def)
    have w: "bit w i \<longleftrightarrow> (if i < 28 then bit v i else i < 32 \<and> table_bit t (8 * ?off + i))" for i
      using fit Fat32 bit_imp_le_length [of v i]
      by (simp only: w_def bit_and_iff bit_or_iff bit_not_iff possible_bit_word bit_low28 bit_quad_field
          entry_span.simps) auto
    show ?thesis unfolding r pos using fit Fat32
      by (auto simp: table_bit_splice table_bit_to_le w simp del: table_bit_at to_le.simps)
  next
    case Fat12
    note off = fit [unfolded Fat12 entry_span.simps]
    show ?thesis
    proof (cases "even (unat c)")
      case True
      define b0 where "b0 = (ucast (v AND 0xFFF) :: u8)"
      define b1 where "b1 = (t ! (?off + 1) AND 0xF0 :: u8) OR ucast (drop_bit 8 (v AND 0xFFF))"
      have r: "write_entry ft t c v = Ok (True, splice t ?off [b0, b1])"
        using off assms Fat12 True
        by (simp add: write_entry_def f8.put_law f8.get_law Let_def and_1_even b0_def b1_def
            splice_two [simplified] hd_drop_splice [simplified])
      have b: "table_bit [b0, b1] i \<longleftrightarrow> (if i < 12 then bit v i else table_bit t (8 * ?off + i))"
        if i: "i < 16" for i
      proof -
        have "bit b0 j \<longleftrightarrow> j < 8 \<and> bit v j" for j
          by (simp only: b0_def bit_unsigned_iff bit_and_iff bit_low12 possible_bit_word) auto
        moreover have "bit b1 j \<longleftrightarrow> (if j < 4 then bit v (8 + j) else j < 8 \<and> bit (t ! (?off + 1)) j)" for j
          by (simp only: b1_def bit_unsigned_iff bit_and_iff bit_or_iff bit_low12 bit_high4 bit_drop_bit_eq
              comp_apply possible_bit_word) auto
        moreover obtain j where "i = j \<or> i = 8 + j" "j < 8"
          using i nat_le_iff_add [of 8 i] by (cases "i < 8") auto
        ultimately show ?thesis by (auto simp: table_bit_def div_add1_eq)
      qed
      show ?thesis unfolding r pos using off Fat12 True by (auto simp: table_bit_splice b simp del: table_bit_at)
    next
      case False
      define b0 where "b0 = (t ! ?off AND 0x0F :: u8) OR ucast (push_bit 4 (v AND 0xFFF) AND 0xF0)"
      define b1 where "b1 = (ucast (drop_bit 4 (v AND 0xFFF)) :: u8)"
      have r: "write_entry ft t c v = Ok (True, splice t ?off [b0, b1])"
        using off assms Fat12 False
        by (simp add: write_entry_def f8.put_law f8.get_law Let_def and_1_even b0_def b1_def
            splice_two [simplified] hd_drop_conv_nth)
      have b: "table_bit [b0, b1] i \<longleftrightarrow> (if 4 \<le> i then bit v (i - 4) else table_bit t (8 * ?off + i))"
        if i: "i < 16" for i
      proof -
        have "bit b0 j \<longleftrightarrow> (if j < 4 then bit (t ! ?off) j else j < 8 \<and> bit v (j - 4))" for j
          by (simp only: b0_def bit_unsigned_iff bit_and_iff bit_or_iff bit_low4 bit_low12 bit_high4_u32
              bit_push_bit_iff possible_bit_word) auto
        moreover have "bit b1 j \<longleftrightarrow> j < 8 \<and> bit v (4 + j)" for j
          by (simp only: b1_def bit_unsigned_iff bit_and_iff bit_low12 bit_drop_bit_eq comp_apply
              possible_bit_word) auto
        moreover obtain j where "i = j \<or> i = 8 + j" "j < 8"
          using i nat_le_iff_add [of 8 i] by (cases "i < 8") auto
        ultimately show ?thesis by (auto simp: table_bit_def div_add1_eq)
      qed
      show ?thesis unfolding r pos using off Fat12 False by (auto simp: table_bit_splice b simp del: table_bit_at)
    qed
  qed
qed


lemma write_entry_refused: "\<not> fits ft c (length t) \<Longrightarrow> write_entry ft t c v = Ok (False, t)"
  by (simp add: write_entry_def)

lemma read_entry_refused: "\<not> fits ft c (length t) \<Longrightarrow> read_entry ft t c = Ok None"
  by (simp add: read_entry_def)

lemma entry_width_le: "entry_width ft \<le> entry_bits ft"
  by (cases ft) simp_all

lemma entry_mask_bit: "bit (entry_mask ft) i \<longleftrightarrow> i < entry_width ft"
  by (cases ft) (simp_all only: entry_mask.simps entry_width.simps bit_low12 bit_low28 bit_low16)

text \<open>The entries own disjoint bits, all within the table.\<close>

lemma entry_bits_disjoint:
  assumes "c \<noteq> d" "i < entry_width ft"
  shows "\<not> (entry_bits ft * unat c \<le> entry_bits ft * unat d + i
    \<and> entry_bits ft * unat d + i < entry_bits ft * unat c + entry_width ft)"
proof (cases "unat c < unat d")
  case True
  then have "entry_bits ft * unat c + entry_bits ft \<le> entry_bits ft * unat d"
    by (metis Suc_leI mult_Suc_right mult_le_mono2 add.commute)
  then show ?thesis using entry_width_le [of ft] by linarith
next
  case False
  then have "unat d < unat c" using assms(1) by (simp add: word_unat_eq_iff)
  then have "entry_bits ft * unat d + entry_bits ft \<le> entry_bits ft * unat c"
    by (metis Suc_leI mult_Suc_right mult_le_mono2 add.commute)
  then show ?thesis using assms(2) entry_width_le [of ft] by linarith
qed

lemma entry_bits_in_table:
  assumes "fits ft c (length t)" "i < entry_width ft"
  shows "entry_bits ft * unat c + i < 8 * length t"
  using assms entry_position [of ft c] by (cases ft) (auto simp: fits_iff split: if_splits)

lemma write_entry_fits: "write_entry ft t c v = Ok (True, t') \<Longrightarrow> fits ft c (length t)"
  by (cases "fits ft c (length t)") (simp_all add: write_entry_refused)

lemma read_after_write:
  assumes w: "write_entry ft t c v = Ok (True, t')" and d: "fits ft d (length t)"
  shows "read_entry ft t' d = (if d = c then Ok (Some (v AND entry_mask ft)) else read_entry ft t d)"
proof -
  have len: "length t' = length t" and bits: "\<And>p. p < 8 * length t \<Longrightarrow> table_bit t' p \<longleftrightarrow>
        (if entry_bits ft * unat c \<le> p \<and> p < entry_bits ft * unat c + entry_width ft
         then bit v (p - entry_bits ft * unat c) else table_bit t p)"
    using write_entry_bits [OF write_entry_fits [OF w], of v] w by (auto split: if_splits)
  obtain e where e: "read_entry ft t' d = Ok (Some e)"
      "\<And>i. bit e i \<longleftrightarrow> i < entry_width ft \<and> table_bit t' (entry_bits ft * unat d + i)"
    using read_entry_bits [of ft d t'] d len by auto
  show ?thesis
  proof (cases "d = c")
    case True
    have "e = v AND entry_mask ft"
      using bits [OF entry_bits_in_table [OF d]] True
      by (intro bit_word_eqI) (auto simp: e(2) bit_and_iff entry_mask_bit)
    then show ?thesis using True e(1) by simp
  next
    case False
    obtain e0 where e0: "read_entry ft t d = Ok (Some e0)"
        "\<And>i. bit e0 i \<longleftrightarrow> i < entry_width ft \<and> table_bit t (entry_bits ft * unat d + i)"
      using read_entry_bits [OF d] by auto
    have "e = e0"
      using bits [OF entry_bits_in_table [OF d]] entry_bits_disjoint [of c d _ ft] False
      by (intro bit_word_eqI) (auto simp: e(2) e0(2))
    then show ?thesis using False e(1) e0(1) by simp
  qed
qed

text \<open>The four bits of a FAT32 entry that are not the cluster number.\<close>

definition reserved_bits :: "bytes \<Rightarrow> u32 \<Rightarrow> bool list" where
  "reserved_bits t d = map (\<lambda>i. table_bit t (32 * unat d + i)) [28..<32]"

lemma reserved_after_write:
  assumes "write_entry Fat32 t c v = Ok (True, t')" "fits Fat32 d (length t)"
  shows "reserved_bits t' d = reserved_bits t d"
proof -
  have bits: "\<And>p. p < 8 * length t \<Longrightarrow> table_bit t' p \<longleftrightarrow>
        (if 32 * unat c \<le> p \<and> p < 32 * unat c + 28 then bit v (p - 32 * unat c) else table_bit t p)"
    using write_entry_bits [OF write_entry_fits [OF assms(1)], of v] assms(1) by auto
  have "table_bit t' (32 * unat d + i) = table_bit t (32 * unat d + i)" if "28 \<le> i" "i < 32" for i
  proof -
    have "32 * unat d + i < 8 * length t" using assms(2) that by (simp add: fits_iff)
    moreover have "\<not> (32 * unat c \<le> 32 * unat d + i \<and> 32 * unat d + i < 32 * unat c + 28)"
      using that by presburger
    ultimately show ?thesis by (simp only: bits if_False)
  qed
  then show ?thesis by (simp add: reserved_bits_def)
qed

text \<open>
  C25: Writing a table entry of any of the three widths succeeds exactly when the table holds the
  entry, and then reads back as the value cut to the entry's width, keeps the table's length, and
  leaves every other entry as it was, the one that shares a byte with it included; a FAT32
  write keeps the four reserved bits. A refused write changes nothing, and none panics.
\<close>

theorem write_entry_correct:
  "if fits ft c (length t)
   then \<exists>t'. write_entry ft t c v = Ok (True, t') \<and> length t' = length t
     \<and> read_entry ft t' c = Ok (Some (v AND entry_mask ft))
     \<and> (\<forall>d. d \<noteq> c \<longrightarrow> read_entry ft t' d = read_entry ft t d)
     \<and> (ft = Fat32 \<longrightarrow> (\<forall>d. fits Fat32 d (length t) \<longrightarrow> reserved_bits t' d = reserved_bits t d))
   else write_entry ft t c v = Ok (False, t)"
proof (cases "fits ft c (length t)")
  case True
  then obtain t' where t': "write_entry ft t c v = Ok (True, t')" "length t' = length t"
    using write_entry_bits [OF True] by blast
  moreover have "read_entry ft t' d = read_entry ft t d" if "d \<noteq> c" for d
    using read_after_write [OF t'(1), of d] that t'(2)
    by (cases "fits ft d (length t)") (simp_all add: read_entry_refused)
  ultimately show ?thesis
    using True read_after_write [OF t'(1) True] reserved_after_write by auto
qed (simp add: write_entry_refused)

theorem write_entry_correct_witness:
  "\<exists>t. write_entry Fat12 (replicate 6 0xAB) 3 0x1456 = Ok (True, t) \<and> length t = 6
     \<and> read_entry Fat12 t 3 = Ok (Some 0x456) \<and> read_entry Fat12 t 2 = read_entry Fat12 (replicate 6 0xAB) 2"
proof -
  have "fits Fat12 3 (length (replicate 6 (0xAB :: u8)))" by (simp add: fits_iff)
  then show ?thesis using write_entry_correct [where ft = Fat12 and c = 3 and t = "replicate 6 0xAB" and v = "0x1456"] by auto
qed

lemma entry_one_class:
  assumes "e \<le> entry_mask ft"
  shows "length (filter id [e = FREE, e = 1, is_cluster ft e, e = bad_cluster ft, is_end_of_chain ft e]) = 1"
proof -
  have marks: "end_of_chain ft = bad_cluster ft + 1" "unat (bad_cluster ft + 1) = unat (bad_cluster ft) + 1"
    "2 < unat (bad_cluster ft)"
    by (cases ft; simp add: end_of_chain_def bad_cluster_def)+
  consider "unat e = 0" | "unat e = 1" | "2 \<le> unat e" "unat e < unat (bad_cluster ft)"
    | "unat e = unat (bad_cluster ft)" | "unat (bad_cluster ft) < unat e" by linarith
  then show ?thesis
    using marks(3)
    by cases (auto simp: FREE_def is_cluster_def is_end_of_chain_def word_less_nat_alt word_le_nat_alt
        word_unat_eq_iff marks(1) marks(2))
qed

text \<open>
  C40: Reading an entry never panics, whatever the table and the cluster number: an entry past the
  table is answered \<open>None\<close>, any other is a value of the entry's width, and what a value means is
  decided: it is exactly one of free, the nonexistent cluster 1, an ordinary cluster, the
  bad-cluster mark and an end-of-chain mark.
\<close>

theorem read_entry_classified:
  "(\<exists>r. read_entry ft t c = Ok r \<and> (r = None \<longleftrightarrow> length t < entry_offset ft c + entry_span ft)
     \<and> (\<forall>e. r = Some e \<longrightarrow> e \<le> entry_mask ft
          \<and> length (filter id [e = FREE, e = 1, is_cluster ft e, e = bad_cluster ft, is_end_of_chain ft e]) = 1))"
proof (cases "fits ft c (length t)")
  case True
  obtain e where e: "read_entry ft t c = Ok (Some e)"
      "\<And>i. bit e i \<longleftrightarrow> i < entry_width ft \<and> table_bit t (entry_bits ft * unat c + i)"
    using read_entry_bits [OF True] by auto
  have "e AND entry_mask ft = e"
    by (intro bit_word_eqI) (auto simp: bit_and_iff entry_mask_bit e(2))
  then have le: "e \<le> entry_mask ft" by (metis word_and_le1)
  have eoc: "end_of_chain ft = entry_mask ft - 7" "bad_cluster ft = entry_mask ft - 8"
    by (cases ft; simp add: end_of_chain_def bad_cluster_def)+
  have one: "length (filter id [e = FREE, e = 1, is_cluster ft e, e = bad_cluster ft, is_end_of_chain ft e]) = 1"
    by (rule entry_one_class [OF le])
  show ?thesis using True e(1) le one by (auto simp: fits_iff)
qed (auto simp: read_entry_refused fits_iff)

theorem read_entry_classified_witness:
  "\<exists>e. read_entry Fat16 [0, 0, 0, 0, 3, 0] 2 = Ok (Some e) \<and> e \<le> entry_mask Fat16"
  using read_entry_classified [where ft = Fat16 and t = "[0, 0, 0, 0, 3, 0]" and c = 2] by auto

end
