(* ===== verification/BlockCache.thy ===== *)
theory BlockCache
  imports Prelude "HOL-Library.Multiset"
begin

text \<open>
  The bounded block cache of \<^verbatim>\<open>crates/ferrosys/src/cache.rs\<close>, which the ext reader and the btrfs
  volume read their tree and table blocks through. The slots are an unordered vector searched
  from the front; recency is the \<open>slot_used\<close> stamp of the last access. The clock is a natural (the
  code's \<^verbatim>\<open>u64\<close>, one tick or two per read).

  The abstract cache is the recency stack of the keys: a cache of capacity \<open>c\<close> holds the first
  \<open>c\<close> keys of the stack, whatever the capacity.
\<close>

section \<open>The code\<close>

record 'v Slot =
  slot_key :: nat
  slot_used :: nat
  slot_value :: 'v

record 'v BlockCache =
  slots :: "'v Slot list"
  capacity :: nat
  clock :: nat

definition new_cache :: "nat \<Rightarrow> 'v BlockCache" where
  "new_cache cap = \<lparr>slots = [], capacity = cap, clock = 0\<rparr>"

definition cache_within :: "nat \<Rightarrow> nat \<Rightarrow> nat \<Rightarrow> 'v BlockCache" where
  "cache_within budget block floor = new_cache (max (budget div max block 1) floor)"

fun find_slot :: "nat \<Rightarrow> 'v Slot list \<Rightarrow> nat option" where
  "find_slot key [] = None"
| "find_slot key (s # ss) =
     (if slot_key s = key then Some 0 else map_option Suc (find_slot key ss))"

definition cache_get :: "'v BlockCache \<Rightarrow> nat \<Rightarrow> 'v option \<times> 'v BlockCache" where
  "cache_get c key =
     (let c = c\<lparr>clock := clock c + 1\<rparr> in
      case find_slot key (slots c) of
        None \<Rightarrow> (None, c)
      | Some i \<Rightarrow>
          let s = (slots c ! i)\<lparr>slot_used := clock c\<rparr>
          in (Some (slot_value s), c\<lparr>slots := (slots c)[i := s]\<rparr>))"

text \<open>\<^verbatim>\<open>min_by_key\<close> on the stamps: the first of the least.\<close>

fun oldest_slot :: "'v Slot list \<Rightarrow> nat option" where
  "oldest_slot [] = None"
| "oldest_slot (s # ss) =
     (case oldest_slot ss of
        None \<Rightarrow> Some 0
      | Some i \<Rightarrow> if slot_used s \<le> slot_used (ss ! i) then Some 0 else Some (Suc i))"

definition cache_insert :: "'v BlockCache \<Rightarrow> nat \<Rightarrow> 'v \<Rightarrow> 'v BlockCache" where
  "cache_insert c key val =
     (if capacity c = 0 then c
      else
        let c = c\<lparr>clock := clock c + 1\<rparr>;
            slot = \<lparr>slot_key = key, slot_used = clock c, slot_value = val\<rparr>
        in if length (slots c) < capacity c then c\<lparr>slots := slots c @ [slot]\<rparr>
           else case oldest_slot (slots c) of
                  Some i \<Rightarrow> c\<lparr>slots := (slots c)[i := slot]\<rparr>
                | None \<Rightarrow> c)"

text \<open>
  How both readers use it: look the address up, and on a miss read the block from the source and
  insert it. \<open>load\<close> is the source, which does not change under a reader.
\<close>

definition cached_read :: "(nat \<Rightarrow> 'v) \<Rightarrow> 'v BlockCache \<Rightarrow> nat \<Rightarrow> ('v \<times> bool) \<times> 'v BlockCache" where
  "cached_read load c key =
     (case cache_get c key of
        (Some v, c') \<Rightarrow> ((v, True), c')
      | (None, c') \<Rightarrow> ((load key, False), cache_insert c' key (load key)))"

fun read_trace :: "(nat \<Rightarrow> 'v) \<Rightarrow> 'v BlockCache \<Rightarrow> nat list \<Rightarrow> ('v \<times> bool) list \<times> 'v BlockCache" where
  "read_trace load c [] = ([], c)"
| "read_trace load c (k # ks) =
     (let (r, c') = cached_read load c k; (rs, c'') = read_trace load c' ks in (r # rs, c''))"

section \<open>The recency stack\<close>

definition touch :: "nat \<Rightarrow> nat list \<Rightarrow> nat list" where
  "touch k st = k # remove1 k st"

fun stack_hits :: "nat \<Rightarrow> nat list \<Rightarrow> nat list \<Rightarrow> bool list" where
  "stack_hits cap st [] = []"
| "stack_hits cap st (k # ks) = (k \<in> set (take cap st)) # stack_hits cap (touch k st) ks"

text \<open>The slots, put in order of recency, are the top of the stack with the source's values.\<close>

definition holds_top :: "(nat \<Rightarrow> 'v) \<Rightarrow> 'v BlockCache \<Rightarrow> nat list \<Rightarrow> bool" where
  "holds_top load c st \<longleftrightarrow> distinct st \<and>
     (\<exists>ord. mset ord = mset (slots c) \<and> sorted_wrt (\<lambda>a b. slot_used a > slot_used b) ord
        \<and> map slot_key ord = take (capacity c) st
        \<and> (\<forall>s \<in> set ord. slot_used s \<le> clock c \<and> slot_value s = load (slot_key s)))"

lemma distinct_touch: "distinct st \<Longrightarrow> distinct (touch k st)"
  by (simp add: touch_def)

lemma take_remove1_in:
  "k \<in> set (take (Suc n) st) \<Longrightarrow> take n (remove1 k st) = remove1 k (take (Suc n) st)"
proof (induction st arbitrary: n)
  case (Cons x xs)
  then show ?case by (cases n) auto
qed simp

lemma take_remove1_beyond: "k \<notin> set (take (Suc n) st) \<Longrightarrow> take n (remove1 k st) = take n st"
proof (induction st arbitrary: n)
  case (Cons x xs)
  then show ?case by (cases n) auto
qed simp

lemma sorted_wrt_remove1: "sorted_wrt P xs \<Longrightarrow> sorted_wrt P (remove1 x xs)"
  by (induction xs) (auto dest: in_set_remove1 [THEN iffD1, rotated] notin_set_remove1)

lemma find_slot_Some:
  "find_slot k ss = Some i \<Longrightarrow> i < length ss \<and> slot_key (ss ! i) = k"
  by (induction ss arbitrary: i) (auto split: if_splits)

lemma find_slot_None: "find_slot k ss = None \<longleftrightarrow> k \<notin> slot_key ` set ss"
  by (induction ss) auto

lemma oldest_slot_Some:
  "ss \<noteq> [] \<Longrightarrow> \<exists>i. oldest_slot ss = Some i \<and> i < length ss
     \<and> (\<forall>s \<in> set ss. slot_used (ss ! i) \<le> slot_used s)"
proof (induction ss)
  case (Cons s ss)
  then show ?case
    by (cases "ss = []") (force split: option.split)+
qed simp

lemma mset_update:
  "i < length xs \<Longrightarrow> mset (xs[i := y]) = add_mset y (mset xs - {#xs ! i#})"
  by (simp add: mset_update)

lemma holds_top_hit:
  assumes h: "holds_top load c st" and f: "find_slot k (slots c) = Some i"
    and c': "c' = c\<lparr>clock := clock c + 1, slots := (slots c)[i := (slots c ! i)\<lparr>slot_used := clock c + 1\<rparr>]\<rparr>"
  shows "holds_top load c' (touch k st) \<and> slot_value (slots c ! i) = load k \<and> k \<in> set (take (capacity c) st)"
proof -
  obtain ord where o: "mset ord = mset (slots c)" "sorted_wrt (\<lambda>a b. slot_used a > slot_used b) ord"
      "map slot_key ord = take (capacity c) st"
      "\<forall>s \<in> set ord. slot_used s \<le> clock c \<and> slot_value s = load (slot_key s)" and d: "distinct st"
    using h by (auto simp: holds_top_def)
  have i: "i < length (slots c)" "slot_key (slots c ! i) = k" using find_slot_Some [OF f] by auto
  let ?s = "slots c ! i"
  let ?s' = "?s\<lparr>slot_used := clock c + 1\<rparr>"
  have mem: "?s \<in> set ord" using i(1) o(1) by (metis nth_mem set_mset_mset)
  have k: "k \<in> set (take (capacity c) st)" using mem i(2) by (metis image_eqI list.set_map o(3))
  then obtain n where n: "capacity c = Suc n" by (cases "capacity c") auto
  have dk: "distinct (map slot_key ord)" using d by (simp add: o(3))
  have keys: "map slot_key (remove1 ?s ord) = remove1 k (map slot_key ord)"
    using mem dk i(2)
  proof (induction ord)
    case (Cons x xs)
    then show ?case by (cases "x = ?s") (auto simp: image_iff)
  qed simp
  have "mset (?s' # remove1 ?s ord) = mset (slots c')"
    using i(1) o(1) by (simp add: c' mset_update)
  moreover have "sorted_wrt (\<lambda>a b. slot_used a > slot_used b) (?s' # remove1 ?s ord)"
    using o(2,4) set_remove1_subset [of ?s ord]
    by (auto simp: less_Suc_eq_le sorted_wrt_remove1)
  moreover have "map slot_key (?s' # remove1 ?s ord) = take (capacity c') (touch k st)"
    using k by (simp add: c' n touch_def keys o(3) i(2) take_remove1_in)
  moreover have "\<forall>s \<in> set (?s' # remove1 ?s ord). slot_used s \<le> clock c' \<and> slot_value s = load (slot_key s)"
    using o(4) mem set_remove1_subset [of ?s ord] by (auto simp: c' le_SucI)
  ultimately have "holds_top load c' (touch k st)"
    unfolding holds_top_def using distinct_touch [OF d] by blast
  then show ?thesis using o(4) mem i(2) k by auto
qed

lemma holds_top_insert:
  assumes h: "holds_top load c st" and f: "find_slot k (slots c) = None"
    and t: "clock c \<le> t"
  shows "holds_top load (cache_insert (c\<lparr>clock := t\<rparr>) k (load k)) (touch k st)"
proof -
  obtain ord where o: "mset ord = mset (slots c)" "sorted_wrt (\<lambda>a b. slot_used a > slot_used b) ord"
      "map slot_key ord = take (capacity c) st"
      "\<forall>s \<in> set ord. slot_used s \<le> clock c \<and> slot_value s = load (slot_key s)" and d: "distinct st"
    using h by (auto simp: holds_top_def)
  have k: "k \<notin> set (take (capacity c) st)"
    using f o(1,3) by (metis find_slot_None list.set_map set_mset_mset)
  let ?s = "\<lparr>slot_key = k, slot_used = t + 1, slot_value = load k\<rparr>"
  have len: "length (slots c) = length (take (capacity c) st)"
    using o(1,3) by (metis length_map mset_eq_length)
  show ?thesis
  proof (cases "capacity c")
    case 0
    then show ?thesis using h d t
      by (auto simp: cache_insert_def holds_top_def distinct_touch intro!: exI [of _ "[]"])
  next
    case (Suc n)
    show ?thesis
    proof (cases "length (slots c) < capacity c")
      case True
      then have full: "take (capacity c) st = st" "length st \<le> n" using len Suc by auto
      then have "mset (?s # ord) = mset (slots (cache_insert (c\<lparr>clock := t\<rparr>) k (load k)))"
        "sorted_wrt (\<lambda>a b. slot_used a > slot_used b) (?s # ord)"
        "map slot_key (?s # ord) = take (capacity c) (touch k st)"
        using True Suc o k t by (auto simp: cache_insert_def Let_def touch_def remove1_idem less_Suc_eq_le)
      then show ?thesis using True Suc o(4) d t unfolding holds_top_def
        by (intro conjI exI [of _ "?s # ord"])
           (auto simp: cache_insert_def Let_def distinct_touch less_imp_le intro: le_SucI order_trans)
    next
      case False
      then have "length (slots c) = Suc n" using len Suc by simp
      then obtain i where i: "oldest_slot (slots c) = Some i" "i < length (slots c)"
          "\<forall>s \<in> set (slots c). slot_used (slots c ! i) \<le> slot_used s"
        using oldest_slot_Some [of "slots c"] by (metis Zero_not_Suc list.size(3))
      have lo: "length ord = Suc n" using o(3) len \<open>length (slots c) = Suc n\<close> by (metis length_map)
      then have ne: "ord \<noteq> []" by auto
      let ?m = "last ord"
      have split: "ord = butlast ord @ [?m]" using ne by simp
      have "slots c ! i = ?m"
      proof (rule ccontr)
        assume ne': "slots c ! i \<noteq> ?m"
        have "slots c ! i \<in> set ord" using i(2) o(1) by (metis nth_mem set_mset_mset)
        then have "slots c ! i \<in> set (butlast ord)" using ne' split by (metis UnE empty_iff empty_set set_ConsD set_append)
        then have "slot_used ?m < slot_used (slots c ! i)"
          using o(2) split by (metis sorted_wrt_append list.set_intros(1))
        moreover have "?m \<in> set (slots c)" using ne o(1) by (metis last_in_set set_mset_mset)
        ultimately show False using i(3) by fastforce
      qed
      moreover have "mset ord = add_mset ?m (mset (butlast ord))" using arg_cong [OF split, of mset] by simp
      ultimately have ms: "mset (?s # butlast ord) = mset ((slots c)[i := ?s])"
        using i(2) by (simp add: mset_update flip: o(1))
      have "Suc n \<le> length st" using arg_cong [OF o(3), of length] lo Suc by simp
      then have "map slot_key (butlast ord) = take n st"
        using o(3) Suc butlast_take [of "Suc n" st] by (simp add: map_butlast)
      then have keys: "map slot_key (?s # butlast ord) = take (capacity c) (touch k st)"
        using k Suc by (simp add: touch_def take_remove1_beyond)
      have "sorted_wrt (\<lambda>a b. slot_used a > slot_used b) (butlast ord @ [?m])" using o(2) ne by simp
      then have sorted: "sorted_wrt (\<lambda>a b. slot_used a > slot_used b) (?s # butlast ord)"
        using o(4) t by (auto simp: less_Suc_eq_le sorted_wrt_append dest!: in_set_butlastD)
      show ?thesis using False Suc o(4) d t i(1) ms keys sorted unfolding holds_top_def
        by (intro conjI exI [of _ "?s # butlast ord"])
           (auto simp: cache_insert_def Let_def distinct_touch less_imp_le dest!: in_set_butlastD intro: le_SucI order_trans)
    qed
  qed
qed

lemma capacity_insert [simp]: "capacity (cache_insert c k v) = capacity c"
  by (simp add: cache_insert_def Let_def split: option.split)

lemma holds_top_size: "holds_top load c st \<Longrightarrow> length (slots c) \<le> capacity c"
  by (auto simp: holds_top_def) (metis length_map length_take min.cobounded2 mset_eq_length)

lemma cached_read_step:
  assumes "holds_top load c st"
  shows "\<exists>c'. cached_read load c k = ((load k, k \<in> set (take (capacity c) st)), c')
    \<and> holds_top load c' (touch k st) \<and> capacity c' = capacity c"
proof (cases "find_slot k (slots c)")
  case None
  then have "k \<notin> set (take (capacity c) st)"
    using assms by (auto simp: holds_top_def find_slot_None) (metis image_set set_mset_mset)
  then show ?thesis
    using None holds_top_insert [OF assms None, of "clock c + 1"]
    by (simp add: cached_read_def cache_get_def Let_def)
next
  case (Some i)
  then show ?thesis
    using holds_top_hit [OF assms Some refl]
    by (simp add: cached_read_def cache_get_def Let_def find_slot_Some)
qed

lemma read_trace_stack:
  "holds_top load c st \<Longrightarrow> \<exists>c' st'. read_trace load c ks
     = (zip (map load ks) (stack_hits (capacity c) st ks), c') \<and> holds_top load c' st' \<and> capacity c' = capacity c"
proof (induction ks arbitrary: c st)
  case (Cons k ks)
  obtain c1 where c1: "cached_read load c k = ((load k, k \<in> set (take (capacity c) st)), c1)"
      "holds_top load c1 (touch k st)" "capacity c1 = capacity c"
    using cached_read_step [OF Cons.prems] by blast
  then show ?case using Cons.IH [OF c1(2)] by auto
qed auto

lemma holds_top_new: "holds_top load (new_cache cap) []"
  by (simp add: holds_top_def new_cache_def)

lemma length_stack_hits [simp]: "length (stack_hits cap st ks) = length ks"
  by (induction ks arbitrary: st) auto

lemma stack_hits_mono: "cap \<le> cap' \<Longrightarrow> list_all2 (\<longrightarrow>) (stack_hits cap st ks) (stack_hits cap' st ks)"
proof (induction ks arbitrary: st)
  case (Cons k ks)
  then show ?case using set_take_subset_set_take [of cap cap' st] by auto
qed simp

text \<open>
  C27: Through a cache of any capacity every read returns exactly what the source holds, whatever the
  sequence of reads, and it hits exactly when the key is among the \<open>cap\<close> most recently read
  distinct ones: the slots with their stamps refine the recency stack. The cache never holds
  more than its capacity, and no key twice.
\<close>

theorem cache_refines_recency_stack:
  "\<exists>c'. read_trace load (new_cache cap) ks = (zip (map load ks) (stack_hits cap [] ks), c')
    \<and> length (slots c') \<le> cap \<and> distinct (map slot_key (slots c'))"
proof -
  obtain c' st' where c': "read_trace load (new_cache cap) ks = (zip (map load ks) (stack_hits cap [] ks), c')"
      "holds_top load c' st'" "capacity c' = cap"
    using read_trace_stack [OF holds_top_new, of load cap ks] by (auto simp: new_cache_def)
  have "distinct (map slot_key (slots c'))"
    using c'(2) by (auto simp: holds_top_def) (metis distinct_take mset_eq_imp_distinct_iff mset_map)
  then show ?thesis using c' holds_top_size by blast
qed

text \<open>
  A larger cache never misses where a smaller one hits: over the same reads, every access that
  hits in a cache of capacity \<open>cap\<close> hits in any cache at least as large.
\<close>

theorem larger_cache_hits_wherever_smaller_does:
  assumes "cap \<le> cap'"
  shows "list_all2 (\<lambda>small large. snd small \<longrightarrow> snd large)
    (fst (read_trace load (new_cache cap) ks)) (fst (read_trace load (new_cache cap') ks))"
proof -
  have hits: "map snd (fst (read_trace load (new_cache n) ks)) = stack_hits n [] ks" for n
    using read_trace_stack [OF holds_top_new, of load n ks] by (auto simp: new_cache_def)
  have "list_all2 (\<longrightarrow>) (map snd (fst (read_trace load (new_cache cap) ks)))
      (map snd (fst (read_trace load (new_cache cap') ks)))"
    unfolding hits using assms by (rule stack_hits_mono)
  then show ?thesis by (simp add: list.rel_map)
qed

theorem larger_cache_hits_wherever_smaller_does_witness:
  "list_all2 (\<lambda>small large. snd small \<longrightarrow> snd large)
     (fst (read_trace (\<lambda>k. k * 10) (new_cache 2) [1, 2, 1, 3, 2]))
     (fst (read_trace (\<lambda>k. k * 10) (new_cache 4) [1, 2, 1, 3, 2]))
   \<and> map snd (fst (read_trace (\<lambda>k. k * 10) (new_cache 2) [1, 2, 1, 3, 2])) = [False, False, True, False, False]"
  using larger_cache_hits_wherever_smaller_does [of 2 4 "\<lambda>k. k * 10" "[1, 2, 1, 3, 2]"]
  by (simp add: new_cache_def cached_read_def cache_get_def cache_insert_def)

end
