(* ===== verification/Time.thy ===== *)
theory Time
  imports Prelude
begin

text \<open>
  The calendar and the DOS timestamp of \<^verbatim>\<open>crates/ferrosys/src/time.rs\<close>, and the exFAT packing of
  \<^verbatim>\<open>crates/ferrosys/src/exfat/ondisk/time.rs\<close>. An \<^verbatim>\<open>i64\<close> is an integer: \<open>at_secs\<close> stays in range on
  every instant, and \<open>to_secs\<close>, which need not, is written with the checked operations, so that
  leaving the range is the panic of the checked profile. The fields of a date that are \<^verbatim>\<open>u32\<close> in
  the code are naturals.

  The reference is the Gregorian rule itself, one day after another: \<open>next_day\<close> with the leap
  rule and the month lengths spelled out, which the closed-form arithmetic must reproduce.
\<close>

section \<open>The code\<close>

definition SECS_PER_DAY :: int where "SECS_PER_DAY = 86400"

definition DAYS_PER_ERA :: int where "DAYS_PER_ERA = 146097"

definition DAYS_EPOCH_TO_SHIFTED :: int where "DAYS_EPOCH_TO_SHIFTED = 719468"

record Timestamp =
  ts_secs :: int
  ts_nanos :: nat

record Civil =
  year :: int
  month :: nat
  day :: nat
  hour :: nat
  minute :: nat
  second :: nat

definition year_of_era :: "int \<Rightarrow> int" where
  "year_of_era doe = (doe - doe div 1460 + doe div 36524 - doe div 146096) div 365"

definition at_secs :: "int \<Rightarrow> Civil" where
  "at_secs secs =
     (let days = secs div SECS_PER_DAY;
          rem = secs mod SECS_PER_DAY;
          shifted = days + DAYS_EPOCH_TO_SHIFTED;
          era = shifted div DAYS_PER_ERA;
          day_of_era = shifted mod DAYS_PER_ERA;
          yoe = year_of_era day_of_era;
          day_of_year = day_of_era - (365 * yoe + yoe div 4 - yoe div 100);
          shifted_month = (5 * day_of_year + 2) div 153;
          d = nat (day_of_year - (153 * shifted_month + 2) div 5 + 1);
          m = nat (if shifted_month < 10 then shifted_month + 3 else shifted_month - 9)
      in \<lparr>year = yoe + era * 400 + of_bool (m \<le> 2), month = m, day = d,
          hour = nat (rem div 3600), minute = nat (rem div 60 mod 60), second = nat (rem mod 60)\<rparr>)"

definition i64_range :: "int \<Rightarrow> bool" where
  "i64_range x \<longleftrightarrow> - (2 ^ 63) \<le> x \<and> x < 2 ^ 63"

definition i64 :: "int \<Rightarrow> int may_panic" where
  "i64 x = (if i64_range x then Ok x else Panic)"

text \<open>
  The products of the small fields and the sums below them are far inside the range, so the
  checks that can fire are on the year, the days and the two final sums.
\<close>

definition to_secs :: "Civil \<Rightarrow> int may_panic" where
  "to_secs c =
     andThen (i64 (year c - of_bool (month c \<le> 2))) (\<lambda>y.
     let era = y div 400;
         yoe = y mod 400;
         shifted_month = (if month c > 2 then month c - 3 else month c + 9);
         day_of_year = (153 * int shifted_month + 2) div 5 + int (day c) - 1;
         day_of_era = 365 * yoe + yoe div 4 - yoe div 100 + day_of_year
     in
     andThen (i64 (era * DAYS_PER_ERA)) (\<lambda>base.
     andThen (i64 (base + day_of_era)) (\<lambda>base.
     andThen (i64 (base - DAYS_EPOCH_TO_SHIFTED)) (\<lambda>days.
     andThen (i64 (days * SECS_PER_DAY)) (\<lambda>s.
     andThen (i64 (s + int (hour c) * 3600)) (\<lambda>s.
     andThen (i64 (s + int (minute c) * 60)) (\<lambda>s.
     i64 (s + int (second c)))))))))"

section \<open>The calendar itself\<close>

definition leap :: "int \<Rightarrow> bool" where
  "leap y \<longleftrightarrow> y mod 4 = 0 \<and> (y mod 100 \<noteq> 0 \<or> y mod 400 = 0)"

definition month_length :: "int \<Rightarrow> nat \<Rightarrow> nat" where
  "month_length y m =
     (if m = 2 then if leap y then 29 else 28 else if m \<in> {4, 6, 9, 11} then 30 else 31)"

definition next_day :: "int \<times> nat \<times> nat \<Rightarrow> int \<times> nat \<times> nat" where
  "next_day date = (case date of (y, m, d) \<Rightarrow>
     if d < month_length y m then (y, m, d + 1)
     else if m < 12 then (y, m + 1, 1) else (y + 1, 1, 1))"

definition civil_date :: "Civil \<Rightarrow> int \<times> nat \<times> nat" where
  "civil_date c = (year c, month c, day c)"

section \<open>The year of an era\<close>

text \<open>The first day of a March-based year within its era; the era ends after 146097 days.\<close>

definition year_start :: "int \<Rightarrow> int" where
  "year_start y = (if y = 400 then 146097 else 365 * y + y div 4 - y div 100)"

definition corrected :: "int \<Rightarrow> int" where
  "corrected doe = doe - doe div 1460 + doe div 36524 - doe div 146096"

lemma corrected_mono: "x \<le> y \<Longrightarrow> corrected x \<le> corrected y"
proof -
  have step: "corrected x \<le> corrected (x + 1)" for x
  proof -
    have "(x + 1) div 1460 \<le> x div 1460 + 1" by simp
    moreover have "x div 146096 = x div 36524 div 4" for x :: int
      using zdiv_zmult2_eq [of 4 x 36524] by simp
    moreover have "x div 36524 \<le> (x + 1) div 36524" by (simp add: zdiv_mono1)
    moreover have "b - b div 4 \<le> c - c div 4" if "b \<le> c" for b c :: int
      using that by presburger
    ultimately show ?thesis unfolding corrected_def by smt
  qed
  assume "x \<le> y"
  then show ?thesis
    by (induction y rule: int_ge_induct) (use step in \<open>auto intro: order_trans\<close>)
qed

definition year_bounds_hold :: "int \<Rightarrow> bool" where
  "year_bounds_hold y \<longleftrightarrow> 365 * y \<le> corrected (year_start y)
     \<and> corrected (year_start (y + 1) - 1) < 365 * (y + 1)
     \<and> year_start (y + 1) - year_start y = (if leap (y + 1) then 366 else 365)"

lemma year_bounds_table: "list_all year_bounds_hold [0..399]"
  by code_simp

lemma year_bounds: "0 \<le> y \<Longrightarrow> y < 400 \<Longrightarrow> year_bounds_hold y"
  using year_bounds_table by (simp add: list_all_iff)

lemma div_365_bounds: "365 * (c div 365) \<le> c" "c < 365 * (c div 365 + 1)" for c :: int
proof -
  have "0 \<le> c mod 365" "c mod 365 < 365" by simp_all
  then show "365 * (c div 365) \<le> c" "c < 365 * (c div 365 + 1)"
    using mult_div_mod_eq [of 365 c] by (smt (verit))+
qed

lemma div_365_unique: "365 * y \<le> c \<Longrightarrow> c < 365 * (y + 1) \<Longrightarrow> c div 365 = y" for c :: int
  by (rule int_div_pos_eq [where r = "c - 365 * y"]) auto

lemma year_of_era_corrected: "year_of_era doe = corrected doe div 365"
  by (simp add: year_of_era_def corrected_def)

lemma year_of_era_spec:
  assumes "0 \<le> doe" "doe < 146097"
  defines "y \<equiv> year_of_era doe"
  shows "0 \<le> y" "y < 400" "year_start y \<le> doe" "doe < year_start (y + 1)"
proof -
  have y: "365 * y \<le> corrected doe" "corrected doe < 365 * (y + 1)"
    unfolding y_def year_of_era_corrected by (rule div_365_bounds)+
  have zero: "corrected 0 = 0" "corrected 146096 = 145999" by (simp_all add: corrected_def)
  have "corrected 0 \<le> corrected doe" "corrected doe \<le> corrected 146096"
    using assms by (intro corrected_mono; simp)+
  then show range: "0 \<le> y" "y < 400" using y zero by (smt (verit))+
  show "year_start y \<le> doe"
  proof (rule ccontr)
    assume "\<not> year_start y \<le> doe"
    then have "corrected doe \<le> corrected (year_start y - 1)" by (intro corrected_mono) simp
    moreover have "y \<noteq> 0" using \<open>\<not> year_start y \<le> doe\<close> assms(1) by (auto simp: year_start_def)
    ultimately show False
      using year_bounds [of "y - 1"] range y by (simp add: year_bounds_hold_def)
  qed
  show "doe < year_start (y + 1)"
  proof (rule ccontr)
    assume n: "\<not> doe < year_start (y + 1)"
    then have "y + 1 \<noteq> 400" using assms(2) by (auto simp: year_start_def)
    moreover have "corrected (year_start (y + 1)) \<le> corrected doe" using n by (intro corrected_mono) simp
    ultimately show False
      using year_bounds [of "y + 1"] range y by (simp add: year_bounds_hold_def)
  qed
qed

section \<open>The day of a year\<close>

definition shifted_month_of :: "int \<Rightarrow> int" where
  "shifted_month_of doy = (5 * doy + 2) div 153"

definition day_of :: "int \<Rightarrow> nat" where
  "day_of doy = nat (doy - (153 * shifted_month_of doy + 2) div 5 + 1)"

definition month_of :: "int \<Rightarrow> nat" where
  "month_of doy = nat (if shifted_month_of doy < 10 then shifted_month_of doy + 3 else shifted_month_of doy - 9)"

definition month_length_in :: "bool \<Rightarrow> nat \<Rightarrow> nat" where
  "month_length_in lp m = (if m = 2 then if lp then 29 else 28 else if m \<in> {4, 6, 9, 11} then 30 else 31)"

lemma month_length_leap: "month_length y m = month_length_in (leap y) m"
  by (simp add: month_length_def month_length_in_def)

definition day_ok :: "int \<Rightarrow> bool" where
  "day_ok doy \<longleftrightarrow> 1 \<le> month_of doy \<and> month_of doy \<le> 12 \<and> 1 \<le> day_of doy
     \<and> (month_of doy \<noteq> 2 \<or> day_of doy \<le> 28 + of_bool (doy = 365))
     \<and> day_of doy \<le> month_length_in True (month_of doy)
     \<and> (let sm = (if month_of doy > 2 then month_of doy - 3 else month_of doy + 9) in
        (153 * int sm + 2) div 5 + int (day_of doy) - 1 = doy)"

text \<open>The day after, within the year and whatever its length.\<close>

definition day_steps :: "bool \<Rightarrow> int \<Rightarrow> bool" where
  "day_steps lp doy \<longleftrightarrow>
     (if day_of doy < month_length_in lp (month_of doy)
      then month_of (doy + 1) = month_of doy \<and> day_of (doy + 1) = day_of doy + 1
      else day_of (doy + 1) = 1 \<and> month_of (doy + 1) = (if month_of doy < 12 then month_of doy + 1 else 1)
        \<and> month_of doy \<noteq> 2)"

lemma day_ok_table: "list_all day_ok [0..365]"
  by code_simp

lemma day_steps_table:
  "list_all (day_steps False) [0..363]" "list_all (day_steps True) [0..364]"
  by code_simp+

lemma month_of_0: "month_of 0 = 3" "day_of 0 = 1"
  by code_simp+

lemma last_days: "month_of 364 = 2" "day_of 364 = 28" "month_of 365 = 2" "day_of 365 = 29"
  by code_simp+

lemma day_ok: "0 \<le> doy \<Longrightarrow> doy \<le> 365 \<Longrightarrow> day_ok doy"
  using day_ok_table by (simp add: list_all_iff)

definition date_in_year :: "int \<Rightarrow> int \<Rightarrow> int \<times> nat \<times> nat" where
  "date_in_year y doy = (y + of_bool (month_of doy \<le> 2), month_of doy, day_of doy)"

definition year_days :: "int \<Rightarrow> int" where
  "year_days y = (if leap (y + 1) then 366 else 365)"

text \<open>
  In January and February the year shown is the next one, whose leap rule is the one that sets
  the length of the March-based year; in the other months the rule does not matter.
\<close>

lemma month_length_in_other: "m \<noteq> 2 \<Longrightarrow> month_length_in lp m = month_length_in lp' m"
  by (simp add: month_length_in_def)

lemma next_day_in_year:
  assumes "0 \<le> doy" "doy + 1 < year_days y"
  shows "next_day (date_in_year y doy) = date_in_year y (doy + 1)"
proof -
  let ?l = "leap (y + 1)"
  have le: "doy \<le> 364" "?l \<or> doy \<le> 363" using assms(2) by (auto simp: year_days_def split: if_splits)
  have steps: "day_steps ?l doy"
    using day_steps_table le assms(1) by (cases ?l) (auto simp: list_all_iff)
  have ok: "day_ok doy" using le assms(1) by (intro day_ok) auto
  have ml: "month_length (y + of_bool (month_of doy \<le> 2)) (month_of doy) = month_length_in ?l (month_of doy)"
    using month_length_in_other [of "month_of doy" "leap y" ?l] by (auto simp: month_length_leap)
  show ?thesis using steps ok ml
    by (auto simp: next_day_def date_in_year_def day_steps_def day_ok_def split: if_splits)
qed

lemma next_day_new_year:
  assumes "doy + 1 = year_days y"
  shows "next_day (date_in_year y doy) = date_in_year (y + 1) 0"
proof (cases "leap (y + 1)")
  case True
  then have "doy = 365" using assms by (simp add: year_days_def)
  then show ?thesis using True by (simp add: next_day_def date_in_year_def last_days month_of_0 month_length_def)
next
  case False
  then have "doy = 364" using assms by (simp add: year_days_def)
  then show ?thesis using False by (simp add: next_day_def date_in_year_def last_days month_of_0 month_length_def)
qed

section \<open>Days on the timeline\<close>

definition era_of :: "int \<Rightarrow> int" where
  "era_of days = (days + DAYS_EPOCH_TO_SHIFTED) div DAYS_PER_ERA"

definition doe_of :: "int \<Rightarrow> int" where
  "doe_of days = (days + DAYS_EPOCH_TO_SHIFTED) mod DAYS_PER_ERA"

definition doy_of :: "int \<Rightarrow> int" where
  "doy_of days = doe_of days - year_start (year_of_era (doe_of days))"

definition date_of :: "int \<Rightarrow> int \<times> nat \<times> nat" where
  "date_of days = date_in_year (era_of days * 400 + year_of_era (doe_of days)) (doy_of days)"

lemma doe_range: "0 \<le> doe_of days" "doe_of days < 146097"
  by (simp_all add: doe_of_def DAYS_PER_ERA_def)

lemmas year_of_day = year_of_era_spec [OF doe_range]

lemma leap_era: "leap (k * 400 + y) = leap y"
proof -
  have "(k * 400 + y) mod 4 = y mod 4" "(k * 400 + y) mod 100 = y mod 100" "(k * 400 + y) mod 400 = y mod 400"
    using mod_mult_self1 [of y "k * 100" 4] mod_mult_self1 [of y "k * 4" 100] mod_mult_self1 [of y k 400]
    by (simp_all add: add.commute [of y] mult.commute [of 400])
  then show ?thesis by (simp add: leap_def)
qed

lemma year_days_era: "year_days (k * 400 + y) = year_days y"
  using leap_era [of k "y + 1"] by (simp add: year_days_def add.assoc)

lemma year_length: "0 \<le> y \<Longrightarrow> y < 400 \<Longrightarrow> year_start (y + 1) - year_start y = year_days y"
  using year_bounds [of y] by (simp add: year_bounds_hold_def year_days_def)

lemma doy_range: "0 \<le> doy_of days" "doy_of days < year_days (year_of_era (doe_of days))"
  "doy_of days \<le> 365"
proof -
  show "0 \<le> doy_of days" "doy_of days < year_days (year_of_era (doe_of days))"
    using year_of_day [of days] year_length [of "year_of_era (doe_of days)"] by (auto simp: doy_of_def)
  then show "doy_of days \<le> 365" by (simp add: year_days_def split: if_splits)
qed

text \<open>A day of an era determines its year and its day of that year.\<close>

lemma year_of_era_unique:
  assumes "0 \<le> y" "y < 400" "year_start y \<le> doe" "doe < year_start (y + 1)"
  shows "year_of_era doe = y"
proof -
  have "corrected (year_start y) \<le> corrected doe" "corrected doe \<le> corrected (year_start (y + 1) - 1)"
    using assms by (intro corrected_mono; simp)+
  then have "365 * y \<le> corrected doe" "corrected doe < 365 * (y + 1)"
    using year_bounds [OF assms(1,2)] by (auto simp: year_bounds_hold_def)
  then show ?thesis unfolding year_of_era_corrected by (rule div_365_unique)
qed

lemma era_doe: "days + 719468 = 146097 * era_of days + doe_of days"
  using mult_div_mod_eq [of 146097 "days + 719468"]
  by (simp add: era_of_def doe_of_def DAYS_PER_ERA_def DAYS_EPOCH_TO_SHIFTED_def)

lemma era_step:
  assumes "doe_of days + 1 < 146097"
  shows "doe_of (days + 1) = doe_of days + 1" "era_of (days + 1) = era_of days"
proof -
  have x: "days + 1 + 719468 = 146097 * era_of days + (doe_of days + 1)" using era_doe [of days] by simp
  show "doe_of (days + 1) = doe_of days + 1" "era_of (days + 1) = era_of days"
    using int_mod_pos_eq [OF x] int_div_pos_eq [OF x] assms doe_range(1) [of days]
    by (simp_all add: doe_of_def era_of_def DAYS_PER_ERA_def DAYS_EPOCH_TO_SHIFTED_def)
qed

lemma era_rollover:
  assumes "doe_of days + 1 = 146097"
  shows "doe_of (days + 1) = 0" "era_of (days + 1) = era_of days + 1"
proof -
  have x: "days + 1 + 719468 = 146097 * (era_of days + 1) + 0" using era_doe [of days] assms by simp
  show "doe_of (days + 1) = 0" "era_of (days + 1) = era_of days + 1"
    using int_mod_pos_eq [OF x] int_div_pos_eq [OF x]
    by (simp_all add: doe_of_def era_of_def DAYS_PER_ERA_def DAYS_EPOCH_TO_SHIFTED_def)
qed

lemma year_start_le:
  assumes "0 \<le> y" "y \<le> 400"
  shows "year_start y \<le> 146097"
proof -
  have "y div 4 \<le> 100" "0 \<le> y div 100" using assms by auto
  then show ?thesis using assms by (auto simp: year_start_def)
qed

lemma next_day_date_of: "date_of (days + 1) = next_day (date_of days)"
proof -
  let ?y = "year_of_era (doe_of days)" and ?E = "era_of days * 400"
  have y: "0 \<le> ?y" "?y < 400" "year_start ?y \<le> doe_of days" "doe_of days < year_start (?y + 1)"
    by (rule year_of_day)+
  have len: "year_start (?y + 1) = year_start ?y + year_days ?y" using year_length [OF y(1,2)] by simp
  show ?thesis
  proof (cases "doy_of days + 1 < year_days ?y")
    case True
    then have lt: "doe_of days + 1 < year_start (?y + 1)" using len by (simp add: doy_of_def)
    then have step: "doe_of (days + 1) = doe_of days + 1" "era_of (days + 1) = era_of days"
      using era_step [of days] year_start_le [of "?y + 1"] y(1,2) by auto
    then have "year_of_era (doe_of (days + 1)) = ?y"
      using lt y by (intro year_of_era_unique) auto
    then show ?thesis
      using next_day_in_year [of "doy_of days" "?E + ?y"] doy_range(1) [of days] True step
      by (simp add: date_of_def doy_of_def year_days_era diff_add_eq)
  next
    case False
    then have eq: "doy_of days + 1 = year_days ?y" using doy_range(2) [of days] by simp
    then have end_: "doe_of days + 1 = year_start (?y + 1)" using len by (simp add: doy_of_def)
    have "next_day (date_of days) = date_in_year (?E + ?y + 1) 0"
      using next_day_new_year [of "doy_of days" "?E + ?y"] eq by (simp add: date_of_def year_days_era)
    also have "\<dots> = date_of (days + 1)"
    proof (cases "?y + 1 = 400")
      case True
      then have "doe_of (days + 1) = 0" "era_of (days + 1) = era_of days + 1"
        using end_ era_rollover [of days] by (auto simp: year_start_def)
      then show ?thesis using True by (simp add: date_of_def doy_of_def year_of_era_def year_start_def add.commute)
    next
      case False
      then have lt: "year_start (?y + 1) < year_start (?y + 2)" "year_start (?y + 2) \<le> 146097"
        using year_length [of "?y + 1"] year_start_le [of "?y + 2"] y(1,2)
        by (auto simp: year_days_def add.assoc split: if_splits)
      then have step: "doe_of (days + 1) = doe_of days + 1" "era_of (days + 1) = era_of days"
        using era_step [of days] end_ by auto
      then have "year_of_era (doe_of (days + 1)) = ?y + 1"
        using lt end_ y False by (intro year_of_era_unique) (auto simp: add.assoc)
      then show ?thesis using step end_ by (simp add: date_of_def doy_of_def add.assoc)
    qed
    finally show ?thesis by simp
  qed
qed

lemma at_secs_date: "civil_date (at_secs secs) = date_of (secs div 86400)"
proof -
  let ?d = "secs div 86400"
  have y: "0 \<le> year_of_era (doe_of ?d)" "year_of_era (doe_of ?d) < 400" by (rule year_of_day)+
  then have "doy_of ?d = doe_of ?d - (365 * year_of_era (doe_of ?d) + year_of_era (doe_of ?d) div 4
      - year_of_era (doe_of ?d) div 100)"
    by (simp add: doy_of_def year_start_def)
  then show ?thesis
    by (simp only: at_secs_def civil_date_def date_of_def date_in_year_def era_of_def
        doe_of_def SECS_PER_DAY_def month_of_def day_of_def shifted_month_of_def Let_def
        Civil.select_convs add.commute)
qed

definition valid_civil :: "Civil \<Rightarrow> bool" where
  "valid_civil c \<longleftrightarrow> 1 \<le> month c \<and> month c \<le> 12 \<and> 1 \<le> day c \<and> day c \<le> month_length (year c) (month c)
     \<and> hour c < 24 \<and> minute c < 60 \<and> second c < 60"

lemma at_secs_year_month_day:
  "year (at_secs secs) = era_of (secs div 86400) * 400 + year_of_era (doe_of (secs div 86400))
     + of_bool (month_of (doy_of (secs div 86400)) \<le> 2)"
  "month (at_secs secs) = month_of (doy_of (secs div 86400))"
  "day (at_secs secs) = day_of (doy_of (secs div 86400))"
  using at_secs_date [of secs] unfolding civil_date_def date_of_def date_in_year_def
  by (simp_all only: prod.inject)

lemma at_secs_time:
  "hour (at_secs secs) = nat (secs mod 86400 div 3600)"
  "minute (at_secs secs) = nat (secs mod 86400 div 60 mod 60)"
  "second (at_secs secs) = nat (secs mod 86400 mod 60)"
  by (simp_all only: at_secs_def Let_def SECS_PER_DAY_def Civil.select_convs)

lemma time_of_day:
  fixes r :: int
  assumes "0 \<le> r" "r < 86400"
  shows "r div 3600 < 24" "r div 3600 * 3600 + r div 60 mod 60 * 60 + r mod 60 = r"
proof -
  show "r div 3600 < 24" using zdiv_mono1 [of r 86399 3600] assms(2) by simp
  have "r div 3600 = r div 60 div 60" using zdiv_zmult2_eq [of 60 r 60] by simp
  moreover have "r = r div 60 * 60 + r mod 60" "r div 60 = r div 60 div 60 * 60 + r div 60 mod 60"
    by simp_all
  ultimately show "r div 3600 * 3600 + r div 60 mod 60 * 60 + r mod 60 = r" by linarith
qed

lemma day_in_month:
  assumes "day_ok d" "d = 365 \<Longrightarrow> month_of d = 2 \<Longrightarrow> lp"
  shows "day_of d \<le> month_length_in lp (month_of d)"
proof (cases "month_of d = 2")
  case True
  then have le: "day_of d \<le> 28 + of_bool (d = 365)" using assms(1) by (simp add: day_ok_def)
  then show ?thesis
  proof (cases "d = 365")
    case d: True
    then have lp using assms(2) True by blast
    then show ?thesis using le d True by (simp add: month_length_in_def)
  next
    case False
    then show ?thesis using le True by (simp add: month_length_in_def)
  qed
next
  case False
  then show ?thesis using assms(1) month_length_in_other [OF False, of True lp] by (simp add: day_ok_def)
qed

lemma valid_at_secs: "valid_civil (at_secs secs)"
proof -
  let ?D = "secs div 86400" and ?r = "secs mod 86400"
  have ok: "day_ok (doy_of ?D)" using doy_range by (intro day_ok)
  have "leap (year (at_secs secs))" if "doy_of ?D = 365" "month_of (doy_of ?D) = 2"
    using doy_range(2) [of ?D] that leap_era [of "era_of ?D" "year_of_era (doe_of ?D) + 1"]
    by (simp add: at_secs_year_month_day year_days_def add.assoc split: if_splits)
  then have "day_of (doy_of ?D) \<le> month_length (year (at_secs secs)) (month_of (doy_of ?D))"
    unfolding month_length_leap by (rule day_in_month [OF ok])
  moreover have "hour (at_secs secs) < 24" "minute (at_secs secs) < 60" "second (at_secs secs) < 60"
  proof -
    define r where "r = secs mod 86400"
    have "r div 3600 < 24" by (rule time_of_day) (simp_all add: r_def)
    then show "hour (at_secs secs) < 24" "minute (at_secs secs) < 60" "second (at_secs secs) < 60"
      unfolding at_secs_time r_def [symmetric] by (simp_all add: nat_less_iff)
  qed
  ultimately show ?thesis
    using ok unfolding valid_civil_def at_secs_year_month_day(2,3) day_ok_def by blast
qed

lemma epoch_date: "civil_date (at_secs 0) = (1970, 1, 1)"
  by code_simp

lemma time_of_day_parts:
  "0 \<le> secs mod 86400 div 3600" "0 \<le> secs mod 86400 div 60 mod 60" "0 \<le> secs mod 86400 mod 60" for secs :: int
  by (simp_all add: pos_imp_zdiv_nonneg_iff)

lemma at_secs_time_sum:
  "int (hour (at_secs secs)) * 3600 + int (minute (at_secs secs)) * 60 + int (second (at_secs secs))
     = secs mod 86400"
  unfolding at_secs_time using time_of_day_parts [of secs] time_of_day(2) [of "secs mod 86400"] by simp

text \<open>
  C28: The closed-form calendar is the Gregorian one: the epoch reads as the first of January 1970,
  the date a day later is always the next date of the calendar, leap years included, and every
  reading is a date the calendar has, with the time of day that divides the day.
\<close>

theorem at_secs_is_gregorian:
  "civil_date (at_secs 0) = (1970, 1, 1)
   \<and> civil_date (at_secs (secs + 86400)) = next_day (civil_date (at_secs secs))
   \<and> valid_civil (at_secs secs)
   \<and> int (hour (at_secs secs)) * 3600 + int (minute (at_secs secs)) * 60 + int (second (at_secs secs))
       = secs mod 86400"
proof -
  have "civil_date (at_secs 0) = (1970, 1, 1)" by (rule epoch_date)
  moreover have "(secs + 86400) div 86400 = secs div 86400 + 1" by simp
  ultimately show ?thesis
    using next_day_date_of valid_at_secs at_secs_time_sum [of secs] by (simp only: at_secs_date)
qed

lemma date_inverse:
  fixes days :: int
  defines "y \<equiv> era_of days * 400 + year_of_era (doe_of days)"
    and "m \<equiv> month_of (doy_of days)"
  shows "y div 400 = era_of days" "y mod 400 = year_of_era (doe_of days)"
    "(153 * int (if m > 2 then m - 3 else m + 9) + 2) div 5 + int (day_of (doy_of days)) - 1 = doy_of days"
    "365 * (y mod 400) + y mod 400 div 4 - y mod 400 div 100 + doy_of days = doe_of days"
proof -
  have r: "0 \<le> year_of_era (doe_of days)" "year_of_era (doe_of days) < 400" by (rule year_of_day)+
  show "y div 400 = era_of days" "y mod 400 = year_of_era (doe_of days)" using r by (simp_all add: y_def)
  then show "365 * (y mod 400) + y mod 400 div 4 - y mod 400 div 100 + doy_of days = doe_of days"
    using r by (simp add: doy_of_def year_start_def)
  show "(153 * int (if m > 2 then m - 3 else m + 9) + 2) div 5 + int (day_of (doy_of days)) - 1 = doy_of days"
    using day_ok [OF doy_range(1,3), of days] unfolding day_ok_def Let_def m_def by blast
qed

lemma i64_Ok [simp]: "i64_range x \<Longrightarrow> i64 x = Ok x"
  by (simp add: i64_def)

lemma to_secs_steps:
  assumes year: "year c - of_bool (month c \<le> 2) = y" "y div 400 = E"
    and doy: "(153 * int (if month c > 2 then month c - 3 else month c + 9) + 2) div 5 + int (day c) - 1 = doy"
    and doe: "365 * (y mod 400) + y mod 400 div 4 - y mod 400 div 100 + doy = doe"
    and days: "D + 719468 = 146097 * E + doe" "0 \<le> doe" "doe < 146097"
    and time: "int (hour c) * 3600 + int (minute c) * 60 + int (second c) = r" "r < 86400"
    and secs: "secs = D * 86400 + r" "i64_range secs" "i64_range y"
  shows "to_secs c = (if D * 86400 < - (2 ^ 63) then Panic else Ok secs)"
proof -
  have D: "- 106751991167301 \<le> D" "D \<le> 106751991167301"
    using secs(1,2) time(2) zero_le_imp_eq_int by (simp_all add: i64_range_def) (use time in linarith)+
  then have ok: "i64_range (E * 146097)" "i64_range (E * 146097 + doe)" "i64_range (E * 146097 + doe - 719468)"
    using days by (simp_all add: i64_range_def)
  have D': "E * 146097 + doe - 719468 = D" using days(1) by simp
  show ?thesis
  proof (cases "D * 86400 < - (2 ^ 63)")
    case True
    then have "\<not> i64_range (D * 86400)" by (simp add: i64_range_def)
    then have "i64 (D * 86400) = Panic" by (simp add: i64_def)
    then show ?thesis using True ok
      by (simp only: to_secs_def Let_def year doy doe i64_Ok secs(3) andThen.simps DAYS_PER_ERA_def
          DAYS_EPOCH_TO_SHIFTED_def SECS_PER_DAY_def D' if_True)
  next
    case False
    have ok2: "i64_range (D * 86400)" "i64_range (D * 86400 + int (hour c) * 3600)"
      "i64_range (D * 86400 + int (hour c) * 3600 + int (minute c) * 60)"
      using False secs(1,2) time by (simp_all add: i64_range_def)
    have e: "D * 86400 + int (hour c) * 3600 + int (minute c) * 60 + int (second c) = secs"
      using secs(1) time(1) by simp
    show ?thesis using False ok ok2 secs(2)
      by (simp only: to_secs_def Let_def year doy doe i64_Ok secs(3) andThen.simps DAYS_PER_ERA_def
          DAYS_EPOCH_TO_SHIFTED_def SECS_PER_DAY_def D' e if_False)
  qed
qed

lemma year_in_range:
  assumes "i64_range secs" "secs = D * 86400 + r" "0 \<le> r" "r < 86400"
    and "D + 719468 = 146097 * E + doe" "0 \<le> doe" "doe < 146097" "0 \<le> yoe" "yoe < 400"
  shows "i64_range (E * 400 + yoe)"
proof -
  have "- 106751991167301 \<le> D" "D \<le> 106751991167301"
    using assms(1-4) by (simp_all add: i64_range_def)
  then have "- 1000000000 \<le> E" "E \<le> 1000000000" using assms(5-7) by simp_all
  then show ?thesis using assms(8,9) by (simp add: i64_range_def)
qed

lemma to_secs_at_secs:
  assumes "i64_range secs"
  shows "to_secs (at_secs secs) = (if secs div 86400 * 86400 < - (2 ^ 63) then Panic else Ok secs)"
proof (rule to_secs_steps [where r = "secs mod 86400"])
  let ?D = "secs div 86400"
  let ?y = "era_of ?D * 400 + year_of_era (doe_of ?D)"
  show "year (at_secs secs) - of_bool (month (at_secs secs) \<le> 2) = ?y"
    unfolding at_secs_year_month_day by simp
  show "?y div 400 = era_of ?D" by (rule date_inverse)
  show "(153 * int (if month (at_secs secs) > 2 then month (at_secs secs) - 3 else month (at_secs secs) + 9) + 2) div 5
      + int (day (at_secs secs)) - 1 = doy_of ?D"
    unfolding at_secs_year_month_day by (rule date_inverse)
  show "365 * (?y mod 400) + ?y mod 400 div 4 - ?y mod 400 div 100 + doy_of ?D = doe_of ?D"
    by (rule date_inverse)
  show "?D + 719468 = 146097 * era_of ?D + doe_of ?D" by (rule era_doe)
  show "0 \<le> doe_of ?D" "doe_of ?D < 146097" by (rule doe_range)+
  show "int (hour (at_secs secs)) * 3600 + int (minute (at_secs secs)) * 60 + int (second (at_secs secs)) = secs mod 86400"
    by (rule at_secs_time_sum)
  show "secs mod 86400 < 86400" "secs = ?D * 86400 + secs mod 86400" by simp_all
  show "i64_range secs" by (rule assms)
  show "i64_range ?y"
    by (rule year_in_range [OF assms div_mult_mod_eq [symmetric] _ _ era_doe doe_range year_of_day(1,2)])
      simp_all
qed

text \<open>
  C38: \<open>to_secs\<close> undoes \<open>at_secs\<close> on every instant but those of the first day an \<^verbatim>\<open>i64\<close> reaches,
  where the product of days and seconds leaves the range and the checked profile panics.
\<close>

theorem to_secs_inverts_at_secs:
  assumes "- (2 ^ 63) \<le> secs" "secs < 2 ^ 63"
  shows "to_secs (at_secs secs) = (if secs < - 9223372036854720000 then Panic else Ok secs)"
proof -
  have "secs div 86400 * 86400 < - (2 ^ 63) \<longleftrightarrow> secs < - 9223372036854720000"
  proof -
    define d where "d = secs div 86400"
    have "86400 * d \<le> secs" "secs < 86400 * d + 86400" by (simp_all add: d_def)
    moreover have "d * 86400 < - (2 ^ 63) \<longleftrightarrow> d < - 106751991167300"
    proof
      assume "d * 86400 < - (2 ^ 63)"
      then have "675 * d < - 72057594037927936" by simp
      then show "d < - 106751991167300" by linarith
    qed simp
    ultimately show ?thesis unfolding d_def [symmetric] by auto
  qed
  then show ?thesis using to_secs_at_secs [of secs] assms by (simp add: i64_range_def)
qed

theorem to_secs_inverts_at_secs_witness:
  "to_secs (at_secs 1700000000) = Ok 1700000000 \<and> to_secs (at_secs (- (2 ^ 63))) = Panic"
  using to_secs_inverts_at_secs [of 1700000000] to_secs_inverts_at_secs [of "- (2 ^ 63)"] by simp

end
