(* ===== verification/DosTime.thy ===== *)
theory DosTime
  imports Time
begin

text \<open>
  The DOS date and time words FAT and exFAT share (\<open>DosTimestamp\<close> of \<^verbatim>\<open>crates/ferrosys/src/time.rs\<close>)
  and what exFAT stores around them (\<^verbatim>\<open>crates/ferrosys/src/exfat/ondisk/time.rs\<close>): the packing into
  words, the judgement of a stamp read off an image, and the zone offset byte.
\<close>

section \<open>The code\<close>

record DosTimestamp =
  dt_date :: u16
  dt_time :: u16
  dt_tenth :: u8

definition SECONDS_PER_UNIT :: nat where "SECONDS_PER_UNIT = 2"

definition SECS_MIN :: int where "SECS_MIN = 315532800"

definition SECS_MAX :: int where "SECS_MAX = 4354819198"

definition MAX_TENTH :: u8 where "MAX_TENTH = 199"

definition represents :: "Timestamp \<Rightarrow> bool" where
  "represents t \<longleftrightarrow> ts_secs t \<ge> SECS_MIN \<and> ts_secs t \<le> SECS_MAX"

definition dos_encode :: "Timestamp \<Rightarrow> DosTimestamp option" where
  "dos_encode t =
     (if \<not> represents t then None
      else
        let c = at_secs (ts_secs t);
            y = of_int (year c - 1980) :: u16;
            date = push_bit 9 y OR push_bit 5 (of_nat (month c)) OR of_nat (day c);
            time_word = push_bit 11 (of_nat (hour c)) OR push_bit 5 (of_nat (minute c))
              OR of_nat (second c div 2);
            hundredths = (second c mod 2) * 100 + min (ts_nanos t div 10000000) 99
        in Some \<lparr>dt_date = date, dt_time = time_word,
                 dt_tenth = of_nat (min hundredths (unat MAX_TENTH))\<rparr>)"

definition dos_civil :: "DosTimestamp \<Rightarrow> Civil" where
  "dos_civil d =
     \<lparr>year = 1980 + int (unat (drop_bit 9 (dt_date d))),
      month = unat (drop_bit 5 (dt_date d) AND 0xF),
      day = unat (dt_date d AND 0x1F),
      hour = unat (drop_bit 11 (dt_time d)),
      minute = unat (drop_bit 5 (dt_time d) AND 0x3F),
      second = unat (dt_time d AND 0x1F) * SECONDS_PER_UNIT\<rparr>"

definition dos_decode :: "DosTimestamp \<Rightarrow> Timestamp may_panic" where
  "dos_decode d =
     andThen (to_secs (dos_civil d)) (\<lambda>s.
     andThen (i64 (s + int (unat (dt_tenth d) div 100))) (\<lambda>s.
     Ok \<lparr>ts_secs = s, ts_nanos = (unat (dt_tenth d) mod 100) * 10000000\<rparr>))"

definition is_well_formed :: "DosTimestamp \<Rightarrow> bool may_panic" where
  "is_well_formed d =
     (if dt_tenth d > MAX_TENTH then Ok False
      else
        let stated = dos_civil d in
        andThen (to_secs stated) (\<lambda>s.
        let reached = at_secs s in
        Ok (year stated = year reached \<and> month stated = month reached \<and> day stated = day reached
            \<and> hour stated = hour reached \<and> minute stated = minute reached
            \<and> second stated = second reached)))"

text \<open>exFAT's own part.\<close>

definition UTC_OFFSET_VALID :: u8 where "UTC_OFFSET_VALID = 0x80"

definition UTC_OFFSET :: u8 where "UTC_OFFSET = UTC_OFFSET_VALID"

definition MINUTES_PER_UNIT :: int where "MINUTES_PER_UNIT = 15"

definition OFFSET_UNITS :: u8 where "OFFSET_UNITS = 0x7F"

definition pack_timestamp :: "DosTimestamp \<Rightarrow> u32" where
  "pack_timestamp d = push_bit 16 (ucast (dt_date d)) OR ucast (dt_time d)"

definition unpack_timestamp :: "u32 \<Rightarrow> u8 \<Rightarrow> DosTimestamp" where
  "unpack_timestamp field tenth =
     \<lparr>dt_date = ucast (drop_bit 16 field), dt_time = ucast field, dt_tenth = tenth\<rparr>"

definition utc_offset_minutes :: "u8 \<Rightarrow> int option" where
  "utc_offset_minutes b =
     (if b AND UTC_OFFSET_VALID = 0 then None
      else
        let units = signed_drop_bit 1 (push_bit 1 (b AND OFFSET_UNITS))
        in Some (sint units * MINUTES_PER_UNIT))"

section \<open>Dates the calendar has\<close>

definition month_day_ok :: "nat \<Rightarrow> nat \<Rightarrow> bool" where
  "month_day_ok m d \<longleftrightarrow>
     (let sm = (if m > 2 then m - 3 else m + 9);
          doy = (153 * int sm + 2) div 5 + int d - 1
      in 0 \<le> doy \<and> doy \<le> 365 \<and> month_of doy = m \<and> day_of doy = d \<and> (doy = 365 \<longrightarrow> m = 2 \<and> d = 29))"

lemma month_day_table:
  "list_all (\<lambda>m. list_all (month_day_ok m) [1..<Suc (month_length_in True m)]) [1..<13]"
  by code_simp

lemma month_day: "1 \<le> m \<Longrightarrow> m \<le> 12 \<Longrightarrow> 1 \<le> d \<Longrightarrow> d \<le> month_length_in True m \<Longrightarrow> month_day_ok m d"
  using month_day_table by (simp add: list_all_iff less_Suc_eq_le del: upt_Suc)

lemma year_start_nonneg:
  assumes "0 \<le> y" "y < 400"
  shows "0 \<le> year_start y"
proof -
  have "100 * (y div 100) + y mod 100 = y" "0 \<le> y mod 100" "0 \<le> y div 100" "0 \<le> y div 4"
    using assms by simp_all
  then show ?thesis using assms by (simp add: year_start_def)
qed

text \<open>Every date of the calendar is the date of a day, the one the inverse computes.\<close>

lemma month_length_in_le: "month_length_in lp m \<le> month_length_in True m"
  by (simp add: month_length_in_def)

lemma date_has_day:
  fixes y :: int and m d :: nat
  defines "Y \<equiv> y - of_bool (m \<le> 2)"
    and "doy \<equiv> (153 * int (if m > 2 then m - 3 else m + 9) + 2) div 5 + int d - 1"
  defines "doe \<equiv> 365 * (Y mod 400) + Y mod 400 div 4 - Y mod 400 div 100 + doy"
  defines "D \<equiv> Y div 400 * 146097 + doe - 719468"
  assumes "1 \<le> m" "m \<le> 12" "1 \<le> d" "d \<le> month_length y m"
  shows "date_of D = (y, m, d)" "doe_of D = doe" "era_of D = Y div 400" "0 \<le> doe" "doe < 146097"
proof -
  have "d \<le> month_length_in True m"
    using assms(8) month_length_in_le [of "leap y" m] by (simp add: month_length_leap)
  then have md: "0 \<le> doy" "doy \<le> 365" "month_of doy = m" "day_of doy = d" "doy = 365 \<Longrightarrow> m = 2 \<and> d = 29"
    using month_day [OF assms(5,6,7)] by (auto simp: month_day_ok_def Let_def doy_def)
  have yoe: "0 \<le> Y mod 400" "Y mod 400 < 400" by simp_all
  have "doy < year_days Y"
  proof (cases "doy = 365")
    case True
    then have "leap (Y + 1)" using md(5) assms(8) by (auto simp: Y_def month_length_def split: if_splits)
    then show ?thesis using True by (simp add: year_days_def)
  next
    case False
    then show ?thesis using md(2) by (simp add: year_days_def)
  qed
  then have "doy < year_days (Y mod 400)"
    using year_days_era [of "Y div 400" "Y mod 400"] by (simp add: div_mult_mod_eq)
  then have "doe < year_start (Y mod 400 + 1)" "year_start (Y mod 400) \<le> doe"
    using year_length [OF yoe] yoe md(1) by (auto simp: doe_def year_start_def)
  then have yo: "year_of_era doe = Y mod 400" using yoe by (intro year_of_era_unique)
  show "0 \<le> doe"
    using \<open>year_start (Y mod 400) \<le> doe\<close> year_start_nonneg [OF yoe] by simp
  show "doe < 146097"
    using \<open>doe < year_start (Y mod 400 + 1)\<close> year_start_le [of "Y mod 400 + 1"] yoe by simp
  have x: "D + 719468 = 146097 * (Y div 400) + doe" by (simp add: D_def)
  show e: "doe_of D = doe" "era_of D = Y div 400"
    using int_mod_pos_eq [OF x] int_div_pos_eq [OF x] \<open>0 \<le> doe\<close> \<open>doe < 146097\<close>
    by (simp_all add: doe_of_def era_of_def DAYS_PER_ERA_def DAYS_EPOCH_TO_SHIFTED_def)
  have "doe = year_start (Y mod 400) + doy" using yoe by (simp add: doe_def year_start_def)
  then have "doy_of D = doy" unfolding doy_of_def e(1) yo by simp
  moreover have "Y div 400 * 400 + Y mod 400 = Y" by (rule div_mult_mod_eq)
  ultimately show "date_of D = (y, m, d)"
    by (simp only: date_of_def e yo date_in_year_def md) (simp add: Y_def)
qed

section \<open>The stamps an image may hold\<close>

text \<open>The fields of any two words: wide of the calendar, and far inside the range of an instant.\<close>

definition dos_fields :: "Civil \<Rightarrow> bool" where
  "dos_fields c \<longleftrightarrow> 1980 \<le> year c \<and> year c \<le> 2107 \<and> month c < 16 \<and> day c < 32 \<and> hour c < 32
     \<and> minute c < 64 \<and> second c < 64"

lemma to_secs_dos_fields:
  assumes "dos_fields c"
  shows "\<exists>s. to_secs c = Ok s \<and> - 100000000000 \<le> s \<and> s \<le> 100000000000"
proof -
  define y where "y = year c - of_bool (month c \<le> 2)"
  define sm where "sm = (if month c > 2 then month c - 3 else month c + 9)"
  define doe where "doe = 365 * (y mod 400) + y mod 400 div 4 - y mod 400 div 100
    + ((153 * int sm + 2) div 5 + int (day c) - 1)"
  have y: "1979 \<le> y" "y \<le> 2107" using assms by (auto simp: y_def dos_fields_def)
  then have e: "4 \<le> y div 400" "y div 400 \<le> 5" by linarith+
  have m: "0 \<le> y mod 400" "y mod 400 < 400" "0 \<le> y mod 400 div 4" "0 \<le> y mod 400 div 100"
    "4 * (y mod 400 div 4) \<le> y mod 400" "100 * (y mod 400 div 100) \<le> y mod 400" by simp_all
  have "sm < 13" using assms by (auto simp: sm_def dos_fields_def)
  then have "0 \<le> (153 * int sm + 2) div 5" "5 * ((153 * int sm + 2) div 5) \<le> 2000" by linarith+
  then have doe: "- 10 \<le> doe" "doe \<le> 150000" using m assms unfolding doe_def dos_fields_def by linarith+
  define days where "days = y div 400 * 146097 + doe - 719468"
  have days: "0 \<le> days + 719468" "days \<le> 200000" using e doe by (simp_all add: days_def)
  have "146097 * 4 \<le> y div 400 * 146097" using e by simp
  have small: "i64_range x" if "- 100000000000 \<le> x" "x \<le> 100000000000" for x
    using that by (simp add: i64_range_def)
  have folds: "year c - of_bool (month c \<le> 2) = y" "(if month c > 2 then month c - 3 else month c + 9) = sm"
    "365 * (y mod 400) + y mod 400 div 4 - y mod 400 div 100 + ((153 * int sm + 2) div 5 + int (day c) - 1) = doe"
    by (simp_all add: y_def sm_def doe_def)
  define secs where "secs = days * 86400 + int (hour c) * 3600 + int (minute c) * 60 + int (second c)"
  have h: "0 \<le> int (hour c)" "int (hour c) < 32" "0 \<le> int (minute c)" "int (minute c) < 64"
    "0 \<le> int (second c)" "int (second c) < 64"
    using assms by (simp_all add: dos_fields_def)
  have r: "i64_range y" "i64_range (y div 400 * 146097)" "i64_range (y div 400 * 146097 + doe)" "i64_range days"
    "i64_range (days * 86400)" "i64_range (days * 86400 + int (hour c) * 3600)"
    "i64_range (days * 86400 + int (hour c) * 3600 + int (minute c) * 60)" "i64_range secs"
    unfolding secs_def using y e doe days h by (intro small; linarith)+
  have "to_secs c = Ok secs"
    by (simp only: to_secs_def Let_def folds DAYS_PER_ERA_def DAYS_EPOCH_TO_SHIFTED_def SECS_PER_DAY_def
        i64_Ok r andThen.simps days_def [symmetric] secs_def [symmetric])
  moreover have "- 100000000000 \<le> secs" "secs \<le> 100000000000"
    unfolding secs_def using days h by linarith+
  ultimately show ?thesis by blast
qed

lemma dos_fields_civil: "dos_fields (dos_civil d)"
proof -
  have "unat (drop_bit 9 (dt_date d)) < 128" "unat (drop_bit 11 (dt_time d)) < 32"
    using unat_u16_less [of "dt_date d"] unat_u16_less [of "dt_time d"]
    by (simp_all only: unat_drop_bit_eq) (simp_all add: drop_bit_eq_div less_mult_imp_div_less)
  moreover have "drop_bit 5 (dt_date d) AND 0xF \<le> 0xF" "dt_date d AND 0x1F \<le> 0x1F"
    "drop_bit 5 (dt_time d) AND 0x3F \<le> 0x3F" "dt_time d AND 0x1F \<le> 0x1F"
    by (rule word_and_le1)+
  then have "unat (drop_bit 5 (dt_date d) AND 0xF) \<le> 15" "unat (dt_date d AND 0x1F) \<le> 31"
    "unat (drop_bit 5 (dt_time d) AND 0x3F) \<le> 63" "unat (dt_time d AND 0x1F) \<le> 31"
    by (simp_all only: word_le_nat_alt) simp_all
  ultimately show ?thesis
    unfolding dos_fields_def dos_civil_def Civil.select_convs SECONDS_PER_UNIT_def
    by (intro conjI; linarith)
qed

lemma civil_eqI:
  "civil_date c = civil_date c' \<Longrightarrow> hour c = hour c' \<Longrightarrow> minute c = minute c' \<Longrightarrow> second c = second c'
    \<Longrightarrow> c = (c' :: Civil)"
  by (simp add: civil_date_def)

lemma hms_unique:
  fixes h m s h' m' s' :: nat
  assumes "h * 3600 + m * 60 + s = h' * 3600 + m' * 60 + s'" "m < 60" "m' < 60" "s < 60" "s' < 60"
  shows "h = h' \<and> m = m' \<and> s = s'"
proof -
  have unique: "a = b \<and> x = y" if "a * 60 + x = b * 60 + y" "x < 60" "y < 60" for a b x y :: nat
  proof -
    have "a = b" using that arg_cong [OF that(1), of "\<lambda>z. z div 60"] by simp
    then show ?thesis using that(1) by simp
  qed
  have "(h * 60 + m) * 60 + s = (h' * 60 + m') * 60 + s'" using assms(1) by simp
  then have "h * 60 + m = h' * 60 + m' \<and> s = s'" using unique assms(4,5) by blast
  then show ?thesis using unique [of h m h' m'] assms(2,3) by blast
qed

text \<open>The inverse, on a date the calendar has.\<close>

lemma at_secs_to_secs:
  assumes "valid_civil c" "dos_fields c" "to_secs c = Ok secs"
  shows "at_secs secs = c"
proof -
  let ?y = "year c" and ?m = "month c" and ?d = "day c"
  define Y where "Y = ?y - of_bool (?m \<le> 2)"
  define doy where "doy = (153 * int (if ?m > 2 then ?m - 3 else ?m + 9) + 2) div 5 + int ?d - 1"
  define doe where "doe = 365 * (Y mod 400) + Y mod 400 div 4 - Y mod 400 div 100 + doy"
  define D where "D = Y div 400 * 146097 + doe - 719468"
  define r where "r = int (hour c) * 3600 + int (minute c) * 60 + int (second c)"
  have v: "1 \<le> ?m" "?m \<le> 12" "1 \<le> ?d" "?d \<le> month_length ?y ?m" "hour c < 24" "minute c < 60" "second c < 60"
    using assms(1) by (simp_all add: valid_civil_def)
  note day = date_has_day [OF v(1-4), folded Y_def doy_def, folded doe_def, folded D_def]
  have r: "0 \<le> r" "r < 86400" using v(5-7) by (simp_all add: r_def)
  have Yr: "1979 \<le> Y" "Y \<le> 2107" using assms(2) by (auto simp: Y_def dos_fields_def)
  then have E: "4 \<le> Y div 400" "Y div 400 \<le> 5" by linarith+
  then have Dr: "- 1000000 \<le> D" "D \<le> 1000000" using day(4,5) by (simp_all add: D_def)
  have "to_secs c = (if D * 86400 < - (2 ^ 63) then Panic else Ok (D * 86400 + r))"
  proof (rule to_secs_steps)
    show "?y - of_bool (?m \<le> 2) = Y" "Y div 400 = Y div 400" by (simp_all add: Y_def)
    show "(153 * int (if ?m > 2 then ?m - 3 else ?m + 9) + 2) div 5 + int ?d - 1 = doy" by (simp only: doy_def)
    show "365 * (Y mod 400) + Y mod 400 div 4 - Y mod 400 div 100 + doy = doe" by (simp only: doe_def)
    show "D + 719468 = 146097 * (Y div 400) + doe" by (simp add: D_def)
    show "0 \<le> doe" "doe < 146097" by (rule day)+
    show "int (hour c) * 3600 + int (minute c) * 60 + int (second c) = r" by (simp only: r_def)
    show "r < 86400" by (rule r)
    show "i64_range (D * 86400 + r)" using Dr r by (simp add: i64_range_def)
    show "i64_range Y" using Yr by (simp add: i64_range_def)
  qed simp
  then have secs: "secs = D * 86400 + r" using assms(3) Dr by (simp split: if_splits)
  then have d: "secs div 86400 = D" "secs mod 86400 = r"
    using r int_div_pos_eq [of secs 86400 D r] int_mod_pos_eq [of secs 86400 D r] by simp_all
  have date: "civil_date (at_secs secs) = civil_date c"
    unfolding at_secs_date d day(1) by (simp only: civil_date_def)
  have t: "valid_civil (at_secs secs)" by (rule valid_at_secs)
  have "int (hour (at_secs secs) * 3600 + minute (at_secs secs) * 60 + second (at_secs secs))
      = int (hour c * 3600 + minute c * 60 + second c)"
    using at_secs_time_sum [of secs] by (simp add: d r_def)
  then have "hour (at_secs secs) = hour c \<and> minute (at_secs secs) = minute c \<and> second (at_secs secs) = second c"
    using t v by (intro hms_unique) (simp_all only: of_nat_eq_iff valid_civil_def)
  then show ?thesis using civil_eqI [OF date] by blast
qed

lemma well_formed_iff:
  "is_well_formed d = Ok (dt_tenth d \<le> MAX_TENTH \<and> valid_civil (dos_civil d))"
proof -
  obtain s where s: "to_secs (dos_civil d) = Ok s" using to_secs_dos_fields [OF dos_fields_civil] by blast
  let ?c = "dos_civil d"
  have "at_secs s = ?c \<longleftrightarrow> valid_civil ?c"
    using at_secs_to_secs [OF _ dos_fields_civil s] valid_at_secs [of s] by auto
  moreover have "at_secs s = ?c \<longleftrightarrow> year ?c = year (at_secs s) \<and> month ?c = month (at_secs s)
      \<and> day ?c = day (at_secs s) \<and> hour ?c = hour (at_secs s) \<and> minute ?c = minute (at_secs s)
      \<and> second ?c = second (at_secs s)" by auto
  ultimately show ?thesis using s by (auto simp: is_well_formed_def Let_def)
qed

section \<open>The instants the words reach\<close>

lemma month_split_table: "list_all (\<lambda>doy. month_of doy \<le> 2 \<longleftrightarrow> 306 \<le> doy) [0..365]"
  by code_simp

lemma month_split: "month_of (doy_of D) \<le> 2 \<longleftrightarrow> 306 \<le> doy_of D"
  using month_split_table doy_range(1,3) [of D] by (simp add: list_all_iff)

lemma year_start_bounds:
  assumes "0 \<le> y" "y < 400"
  shows "365 * y \<le> year_start y" "year_start y \<le> 365 * y + y div 4"
proof -
  have "y div 100 = y div 4 div 25" using zdiv_zmult2_eq [of 25 y 4] by simp
  moreover have "0 \<le> y div 4" using assms by simp
  moreover from this have "y div 4 div 25 \<le> y div 4" by linarith
  ultimately show "365 * y \<le> year_start y" "year_start y \<le> 365 * y + y div 4"
    using assms by (simp_all add: year_start_def)
qed

lemma dos_year_range:
  assumes "3652 \<le> D" "D \<le> 50402"
  defines "y \<equiv> era_of D * 400 + year_of_era (doe_of D) + of_bool (month_of (doy_of D) \<le> 2)"
  shows "1980 \<le> y" "y \<le> 2107"
proof -
  let ?y = "year_of_era (doe_of D)"
  have r: "0 \<le> ?y" "?y < 400" "year_start ?y \<le> doe_of D" "doe_of D < year_start (?y + 1)"
    by (rule year_of_day)+
  have E: "D + 719468 = 146097 * era_of D + doe_of D" by (rule era_doe)
  then have era: "era_of D = 4 \<or> era_of D = 5" using doe_range [of D] assms(1,2) by linarith
  have doy: "doy_of D = doe_of D - year_start ?y" by (simp add: doy_of_def)
  have "1980 \<le> y \<and> y \<le> 2107"
  proof (cases "era_of D = 4")
    case True
    have "379 \<le> ?y"
    proof (rule ccontr)
      assume "\<not> 379 \<le> ?y"
      then have "year_start (?y + 1) \<le> 365 * (?y + 1) + (?y + 1) div 4" "(?y + 1) div 4 \<le> 94"
        using year_start_bounds(2) [of "?y + 1"] r(1) by simp_all
      then show False using r(4) E True assms(1) \<open>\<not> 379 \<le> ?y\<close> by simp
    qed
    moreover have "306 \<le> doy_of D" if "?y = 379"
      using that E True assms(1) by (simp add: doy year_start_def)
    ultimately show ?thesis using True r(2) month_split [of D] by (cases "?y = 379") (auto simp: y_def)
  next
    case False
    then have era5: "era_of D = 5" using era by simp
    have "?y \<le> 107"
    proof (rule ccontr)
      assume "\<not> ?y \<le> 107"
      then show False using year_start_bounds(1) [OF r(1,2)] r(3) E era5 assms(2) by simp
    qed
    moreover have "\<not> 306 \<le> doy_of D" if "?y = 107"
      using that E era5 assms(2) by (simp add: doy year_start_def)
    ultimately show ?thesis using era5 r(1) month_split [of D] by (cases "?y = 107") (auto simp: y_def)
  qed
  then show "1980 \<le> y" "y \<le> 2107" by auto
qed

lemma dos_fields_at_secs:
  assumes "SECS_MIN \<le> secs" "secs \<le> SECS_MAX + 1"
  shows "1980 \<le> year (at_secs secs)" "year (at_secs secs) \<le> 2107"
proof -
  have "3652 \<le> secs div 86400" "secs div 86400 \<le> 50402"
    using zdiv_mono1 [of SECS_MIN secs 86400] zdiv_mono1 [of secs "SECS_MAX + 1" 86400] assms
    by (simp_all add: SECS_MIN_def SECS_MAX_def)
  then show "1980 \<le> year (at_secs secs)" "year (at_secs secs) \<le> 2107"
    unfolding at_secs_year_month_day by (rule dos_year_range)+
qed

section \<open>Packing\<close>

lemma bit_of_small_nat:
  assumes "n < 2 ^ k"
  shows "bit (of_nat n :: 'a::len word) i \<Longrightarrow> i < k"
proof -
  assume "bit (of_nat n :: 'a word) i"
  then have "bit n i" by (simp add: bit_of_nat_iff)
  then have "odd (n div 2 ^ i)" by (simp add: bit_iff_odd)
  then have "n div 2 ^ i \<noteq> 0" by (metis even_zero)
  then have "2 ^ i \<le> n" by (simp add: div_eq_0_iff)
  then have "(2::nat) ^ i < 2 ^ k" using assms by linarith
  then show "i < k" by simp
qed

lemma masks_u16: "0xF = (mask 4 :: u16)" "0x1F = (mask 5 :: u16)" "0x3F = (mask 6 :: u16)"
  by (simp_all add: mask_eq_exp_minus_1)

lemma pack_fields:
  fixes a b c :: nat
  assumes "a < 2 ^ (16 - k)" "b < 2 ^ (k - 5)" "c < 32" "5 \<le> k" "k < 16"
  defines "w \<equiv> push_bit k (of_nat a) OR push_bit 5 (of_nat b) OR of_nat c :: u16"
  shows "drop_bit k w = of_nat a" "drop_bit 5 w AND mask (k - 5) = of_nat b" "w AND mask 5 = of_nat c"
proof -
  have ba: "bit (of_nat a :: u16) i \<Longrightarrow> i < 16 - k" and bb: "bit (of_nat b :: u16) i \<Longrightarrow> i < k - 5"
    and bc: "bit (of_nat c :: u16) i \<Longrightarrow> i < 5" for i
    using bit_of_small_nat [OF assms(1)] bit_of_small_nat [OF assms(2)] bit_of_small_nat [of c 5] assms(3)
    by auto
  have w: "bit w i \<longleftrightarrow> i < 16 \<and> (k \<le> i \<and> bit (of_nat a :: u16) (i - k) \<or> 5 \<le> i \<and> bit (of_nat b :: u16) (i - 5)
      \<or> bit (of_nat c :: u16) i)" for i
    unfolding w_def by (auto simp only: bit_or_iff bit_push_bit_iff possible_bit_word) (auto dest: bit_imp_le_length)
  show "drop_bit k w = of_nat a"
    by (rule bit_word_eqI) (use assms(4) ba bb bc in \<open>fastforce simp: bit_drop_bit_eq w\<close>)
  show "drop_bit 5 w AND mask (k - 5) = of_nat b"
    by (rule bit_word_eqI) (use assms(4,5) ba bb bc in \<open>fastforce simp: bit_drop_bit_eq w bit_and_iff bit_mask_iff\<close>)
  show "w AND mask 5 = of_nat c"
    by (rule bit_word_eqI) (use assms(4,5) ba bb bc in \<open>fastforce simp: w bit_and_iff bit_mask_iff\<close>)
qed

lemma unpack_fields:
  fixes w :: u16
  assumes "5 \<le> k" "k < 16"
  shows "push_bit k (drop_bit k w) OR push_bit 5 (drop_bit 5 w AND mask (k - 5)) OR (w AND mask 5) = w"
proof (rule bit_word_eqI)
  fix i assume "i < LENGTH(16)"
  have "k + (i - k) = i" if "\<not> i < k" using that by simp
  then show "bit (push_bit k (drop_bit k w) OR push_bit 5 (drop_bit 5 w AND mask (k - 5)) OR (w AND mask 5)) i
      \<longleftrightarrow> bit w i"
    using assms \<open>i < LENGTH(16)\<close> by (cases "i < k"; cases "i < 5") (auto simp: bit_simps)
qed

lemma at_secs_even:
  "at_secs (secs - secs mod 2) = (at_secs secs)\<lparr>second := second (at_secs secs) div 2 * 2\<rparr>"
proof -
  define D where "D = secs div 86400"
  define r where "r = secs mod 86400"
  define q where "q = r div 60"
  define s where "s = r mod 60"
  define b where "b = secs mod 2"
  have secs: "secs = 86400 * D + r" and r: "0 \<le> r" "r < 86400" by (simp_all add: D_def r_def)
  have rs: "r = 60 * q + s" and s: "0 \<le> s" "s < 60" by (simp_all add: q_def s_def)
  have q: "0 \<le> q" using r(1) by (simp add: q_def pos_imp_zdiv_nonneg_iff)
  have "secs = s + 2 * (43200 * D + 30 * q)" using secs rs by simp
  then have "b = s mod 2" unfolding b_def by (simp only: mod_mult_self2)
  then have b: "0 \<le> b" "b \<le> s" "s - b = 2 * (s div 2)"
    using s minus_mod_eq_mult_div [of s 2] by (simp_all add: zmod_le_nonneg_dividend)
  have x: "secs - b = 86400 * D + (r - b)" using secs by simp
  have rb: "0 \<le> r - b" "r - b < 86400" using r(2) b(1,2) rs q by linarith+
  have day: "(secs - b) div 86400 = D" "(secs - b) mod 86400 = r - b"
    using int_div_pos_eq [OF x rb] int_mod_pos_eq [OF x rb] by auto
  have y: "r - b = 60 * q + (s - b)" using rs by simp
  have hm: "(r - b) div 60 = q" "(r - b) mod 60 = s - b"
    using int_div_pos_eq [OF y] int_mod_pos_eq [OF y] b s by auto
  have h: "(r - b) div 3600 = r div 3600" 
    using zdiv_zmult2_eq [of 60 "r - b" 60] zdiv_zmult2_eq [of 60 r 60] hm by (simp add: q_def)
  have sec: "nat (s - b) = nat s div 2 * 2" unfolding b(3) using s(1) by (simp add: nat_mult_distrib nat_div_distrib)
  show ?thesis
  proof (rule civil_eqI)
    show "civil_date (at_secs (secs - secs mod 2))
        = civil_date ((at_secs secs)\<lparr>second := second (at_secs secs) div 2 * 2\<rparr>)"
      using at_secs_date [of "secs - b"] at_secs_date [of secs] by (simp add: day(1) D_def [symmetric] b_def [symmetric] civil_date_def)
  qed (simp_all add: at_secs_time b_def [symmetric] day(2) r_def [symmetric] h hm sec q_def [symmetric] s_def [symmetric])
qed

lemma encode_civil:
  assumes "represents t" "dos_encode t = Some d"
  shows "dos_civil d = at_secs (ts_secs t - ts_secs t mod 2)"
proof -
  let ?c = "at_secs (ts_secs t)"
  have v: "valid_civil ?c" by (rule valid_at_secs)
  then have fields: "month ?c < 16" "day ?c < 32" "hour ?c < 32" "minute ?c < 64" "second ?c div 2 < 32"
    by (auto simp: valid_civil_def month_length_def split: if_splits)
  have y: "1980 \<le> year ?c" "year ?c \<le> 2107"
    using dos_fields_at_secs [of "ts_secs t"] assms(1) by (simp_all add: represents_def)
  then obtain n where n: "year ?c - 1980 = int n" "n < 128" using zero_le_imp_eq_int [of "year ?c - 1980"] by auto
  define dw where "dw = (push_bit 9 (of_nat n) OR push_bit 5 (of_nat (month ?c)) OR of_nat (day ?c) :: u16)"
  define tw where "tw = (push_bit 11 (of_nat (hour ?c)) OR push_bit 5 (of_nat (minute ?c))
    OR of_nat (second ?c div 2) :: u16)"
  have "of_int (year ?c - 1980) = (of_nat n :: u16)" by (simp only: n(1) of_int_of_nat_eq)
  then have d: "dt_date d = dw" "dt_time d = tw"
    using assms by (auto simp only: dos_encode_def Let_def dw_def tw_def not_True_eq_False if_False option.inject DosTimestamp.select_convs)
  have date: "drop_bit 9 dw = of_nat n" "drop_bit 5 dw AND 0xF = of_nat (month ?c)" "dw AND 0x1F = of_nat (day ?c)"
    unfolding dw_def masks_u16 using pack_fields [of n 9 "month ?c" "day ?c"] n(2) fields by simp_all
  have time: "drop_bit 11 tw = of_nat (hour ?c)" "drop_bit 5 tw AND 0x3F = of_nat (minute ?c)"
    "tw AND 0x1F = of_nat (second ?c div 2)"
    unfolding tw_def masks_u16 using pack_fields [of "hour ?c" 11 "minute ?c" "second ?c div 2"] fields by simp_all
  have small: "unat (of_nat x :: u16) = x" if "x < 128" for x
    using that by (simp add: unat_of_nat_small)
  have "dos_civil d = ?c\<lparr>second := second ?c div 2 * 2\<rparr>"
    unfolding dos_civil_def d date time SECONDS_PER_UNIT_def using fields n by (simp add: small)
  then show ?thesis by (simp add: at_secs_even)
qed

lemma second_parity: "int (second (at_secs secs) mod 2) = secs mod 2"
proof -
  have "(secs mod 86400 mod 60) mod 2 = secs mod 2"
    by (simp add: mod_mod_cancel)
  then show ?thesis unfolding at_secs_time by (simp add: zmod_int)
qed

lemma encode_tenth:
  assumes "represents t" "dos_encode t = Some d"
  shows "unat (dt_tenth d) = nat (ts_secs t mod 2) * 100 + min (ts_nanos t div 10000000) 99"
proof -
  let ?h = "second (at_secs (ts_secs t)) mod 2 * 100 + min (ts_nanos t div 10000000) 99"
  have le: "?h \<le> 199" by simp
  have "dt_tenth d = of_nat (min ?h 199)"
    using assms by (auto simp: dos_encode_def Let_def MAX_TENTH_def)
  then have "dt_tenth d = of_nat ?h" using le by (simp only: min_absorb1)
  moreover have "unat (of_nat ?h :: u8) = ?h" by (rule unat_of_nat_small) (use le in simp)
  moreover have "nat (ts_secs t mod 2) = second (at_secs (ts_secs t)) mod 2"
    by (simp only: nat_int flip: second_parity)
  ultimately show ?thesis by simp
qed

lemma represents_secs: "represents t \<Longrightarrow> i64_range (ts_secs t) \<and> - 9223372036854720000 \<le> ts_secs t - ts_secs t mod 2"
  by (simp add: represents_def SECS_MIN_def SECS_MAX_def i64_range_def) linarith

lemma to_secs_even:
  assumes "represents t"
  shows "to_secs (at_secs (ts_secs t - ts_secs t mod 2)) = Ok (ts_secs t - ts_secs t mod 2)"
proof -
  let ?s = "ts_secs t - ts_secs t mod 2"
  have m: "0 \<le> ts_secs t mod 2" "ts_secs t mod 2 < 2" by simp_all
  have s: "0 \<le> ?s" "?s < 10000000000" using assms m
    unfolding represents_def SECS_MIN_def SECS_MAX_def by linarith+
  then have r: "i64_range ?s" by (simp add: i64_range_def)
  have "0 \<le> ?s div 86400 * 86400" using s by (simp add: pos_imp_zdiv_nonneg_iff)
  then show ?thesis using to_secs_at_secs [OF r] by simp
qed

text \<open>
  C29: Encoding an instant succeeds exactly in the range 1980 to 2107 the words reach. What it writes
  is a stamp every field of which the encoding defines, and decoding it returns the instant, to
  the second exactly and to a hundredth of a second in the fraction.
\<close>

theorem dos_encode_decode:
  "if represents t
   then \<exists>d. dos_encode t = Some d \<and> is_well_formed d = Ok True
     \<and> dos_decode d = Ok \<lparr>ts_secs = ts_secs t, ts_nanos = min (ts_nanos t div 10000000) 99 * 10000000\<rparr>
   else dos_encode t = None"
proof (cases "represents t")
  case True
  then obtain d where d: "dos_encode t = Some d" by (auto simp: dos_encode_def Let_def)
  let ?b = "ts_secs t mod 2" and ?f = "min (ts_nanos t div 10000000) 99"
  note civil = encode_civil [OF True d] and tenth = encode_tenth [OF True d]
  have b: "?b = 0 \<or> ?b = 1" by linarith
  have le: "?f \<le> 99" by simp
  have t: "unat (dt_tenth d) div 100 = nat ?b" "unat (dt_tenth d) mod 100 = ?f" "unat (dt_tenth d) \<le> 199"
    using tenth b le by (auto simp: nat_eq_iff)
  have "is_well_formed d = Ok True"
    using t(3) valid_at_secs by (simp add: well_formed_iff civil MAX_TENTH_def word_le_nat_alt)
  moreover have "i64_range (ts_secs t)" using represents_secs [OF True] by simp
  then have "dos_decode d = Ok \<lparr>ts_secs = ts_secs t, ts_nanos = ?f * 10000000\<rparr>"
    using b by (auto simp: dos_decode_def civil to_secs_even [OF True] t)
  ultimately show ?thesis using True d by simp
qed (simp add: dos_encode_def)

theorem dos_encode_decode_witness:
  "\<exists>d. dos_encode \<lparr>ts_secs = 1426325213, ts_nanos = 250000000\<rparr> = Some d
     \<and> dos_decode d = Ok \<lparr>ts_secs = 1426325213, ts_nanos = 250000000\<rparr>"
  using dos_encode_decode [of "\<lparr>ts_secs = 1426325213, ts_nanos = 250000000\<rparr>"]
  by (auto simp: represents_def SECS_MIN_def SECS_MAX_def)

text \<open>
  C30: No bytes of an entry make the decoder or the judgement panic, and the judgement, which only
  compares a stamp with its round trip through the calendar, says exactly whether the
  hundredths are at most 199 and the six fields are a date and time of day the Gregorian
  calendar has.
\<close>

theorem is_well_formed_iff_on_calendar:
  "is_well_formed d = Ok (dt_tenth d \<le> 199 \<and> valid_civil (dos_civil d)) \<and> dos_decode d \<noteq> Panic"
proof -
  obtain s where s: "to_secs (dos_civil d) = Ok s" "- 100000000000 \<le> s" "s \<le> 100000000000"
    using to_secs_dos_fields [OF dos_fields_civil] by blast
  have "unat (dt_tenth d) div 100 \<le> 2" using unat_u8_less [of "dt_tenth d"] by linarith
  then have "i64_range (s + int (unat (dt_tenth d) div 100))" using s(2,3) by (simp add: i64_range_def)
  then have "dos_decode d \<noteq> Panic" using s(1) by (auto simp: dos_decode_def)
  then show ?thesis using well_formed_iff [of d] by (simp add: MAX_TENTH_def)
qed

lemma eval_diffs: "(9::nat) - 5 = 4" "(11::nat) - 5 = 6" "(5::nat) \<le> 9" "(5::nat) \<le> 11" "(9::nat) < 16" "(11::nat) < 16"
  by simp_all

lemma civil_determines_words:
  assumes "dos_civil d = dos_civil e"
  shows "dt_date d = dt_date e" "dt_time d = dt_time e"
proof -
  have y: "unat (drop_bit 9 (dt_date d)) = unat (drop_bit 9 (dt_date e))"
    using arg_cong [OF assms, of year]
    by (simp only: dos_civil_def Civil.select_convs add_left_cancel of_nat_eq_iff)
  have m: "unat (drop_bit 5 (dt_date d) AND 0xF) = unat (drop_bit 5 (dt_date e) AND 0xF)"
    using arg_cong [OF assms, of month] by (simp only: dos_civil_def Civil.select_convs)
  have a: "unat (dt_date d AND 0x1F) = unat (dt_date e AND 0x1F)"
    using arg_cong [OF assms, of day] by (simp only: dos_civil_def Civil.select_convs)
  have h: "unat (drop_bit 11 (dt_time d)) = unat (drop_bit 11 (dt_time e))"
    using arg_cong [OF assms, of hour] by (simp only: dos_civil_def Civil.select_convs)
  have mi: "unat (drop_bit 5 (dt_time d) AND 0x3F) = unat (drop_bit 5 (dt_time e) AND 0x3F)"
    using arg_cong [OF assms, of minute] by (simp only: dos_civil_def Civil.select_convs)
  have s: "unat (dt_time d AND 0x1F) = unat (dt_time e AND 0x1F)"
    using arg_cong [OF assms, of second] by (simp add: dos_civil_def SECONDS_PER_UNIT_def)
  have words: "x = y" if "unat x = unat y" for x y :: u16 using that by (simp add: word_unat_eq_iff)
  have "push_bit 9 (drop_bit 9 (dt_date d)) OR push_bit 5 (drop_bit 5 (dt_date d) AND mask 4) OR (dt_date d AND mask 5)
      = push_bit 9 (drop_bit 9 (dt_date e)) OR push_bit 5 (drop_bit 5 (dt_date e) AND mask 4) OR (dt_date e AND mask 5)"
    by (simp only: words [OF y] words [OF m, unfolded masks_u16] words [OF a, unfolded masks_u16])
  then show "dt_date d = dt_date e"
    using unpack_fields [of 9 "dt_date d"] unpack_fields [of 9 "dt_date e"] by (simp only: eval_diffs)
  have "push_bit 11 (drop_bit 11 (dt_time d)) OR push_bit 5 (drop_bit 5 (dt_time d) AND mask 6) OR (dt_time d AND mask 5)
      = push_bit 11 (drop_bit 11 (dt_time e)) OR push_bit 5 (drop_bit 5 (dt_time e) AND mask 6) OR (dt_time e AND mask 5)"
    by (simp only: words [OF h] words [OF mi, unfolded masks_u16] words [OF s, unfolded masks_u16])
  then show "dt_time d = dt_time e"
    using unpack_fields [of 11 "dt_time d"] unpack_fields [of 11 "dt_time e"] by (simp only: eval_diffs)
qed

lemma decode_then_encode:
  assumes "is_well_formed d = Ok True" "dos_decode d = Ok t" "represents t"
  shows "dos_encode t = Some d"
proof -
  obtain s where s: "to_secs (dos_civil d) = Ok s" using to_secs_dos_fields [OF dos_fields_civil] by blast
  have wf: "unat (dt_tenth d) \<le> 199" "valid_civil (dos_civil d)"
    using assms(1) by (simp_all add: well_formed_iff MAX_TENTH_def word_le_nat_alt)
  have civil_s: "at_secs s = dos_civil d" by (rule at_secs_to_secs [OF wf(2) dos_fields_civil s])
  have even: "s mod 2 = 0"
    unfolding second_parity [symmetric] civil_s by (simp add: dos_civil_def SECONDS_PER_UNIT_def)
  have t: "ts_secs t = s + int (unat (dt_tenth d) div 100)" "ts_nanos t = unat (dt_tenth d) mod 100 * 10000000"
    using assms(2) s by (auto simp: dos_decode_def i64_def split: if_splits)
  have b: "unat (dt_tenth d) div 100 = 0 \<or> unat (dt_tenth d) div 100 = 1" using wf(1) by linarith
  then have m: "ts_secs t mod 2 = int (unat (dt_tenth d) div 100)"
    using t(1) even by auto
  obtain e where e: "dos_encode t = Some e" using assms(3) by (auto simp: dos_encode_def Let_def)
  have "dos_civil e = dos_civil d" using encode_civil [OF assms(3) e] t(1) m civil_s by simp
  then have words: "dt_date e = dt_date d" "dt_time e = dt_time d" by (rule civil_determines_words)+
  have "unat (dt_tenth e) = unat (dt_tenth d) div 100 * 100 + min (unat (dt_tenth d) mod 100) 99"
    using encode_tenth [OF assms(3) e] t(2) m by simp
  then have "unat (dt_tenth e) = unat (dt_tenth d)" by (simp add: min_absorb1)
  then have "dt_tenth e = dt_tenth d" by (simp add: word_unat_eq_iff)
  then show ?thesis using e words by simp
qed

definition last_stamp :: DosTimestamp where
  "last_stamp = \<lparr>dt_date = 0xFF9F, dt_time = 0xBF7D, dt_tenth = 100\<rparr>"

lemmas stamp_eval = dos_decode_def last_stamp_def to_secs_def Let_def i64_range_def DAYS_PER_ERA_def
  DAYS_EPOCH_TO_SHIFTED_def SECS_PER_DAY_def MAX_TENTH_def SECS_MAX_def valid_civil_def month_length_def

text \<open>
  A stamp the judgement accepts is the one its own instant encodes to, whenever that instant is
  in range. The range stops short of it once: the final odd second of 2107 has an accepted stamp,
  with the odd second in its hundredths, and yet is refused as an instant to encode.
\<close>

theorem well_formed_stamp_is_canonical:
  "(is_well_formed d = Ok True \<and> dos_decode d = Ok t \<and> represents t \<longrightarrow> dos_encode t = Some d)
   \<and> is_well_formed last_stamp = Ok True
   \<and> dos_decode last_stamp = Ok \<lparr>ts_secs = SECS_MAX + 1, ts_nanos = 0\<rparr>
   \<and> dos_encode \<lparr>ts_secs = SECS_MAX + 1, ts_nanos = 0\<rparr> = None"
proof -
  have "dos_civil last_stamp = \<lparr>year = 2107, month = 12, day = 31, hour = 23, minute = 59, second = 58\<rparr>"
    by (simp add: dos_civil_def last_stamp_def SECONDS_PER_UNIT_def)
  then have "is_well_formed last_stamp = Ok True"
    "dos_decode last_stamp = Ok \<lparr>ts_secs = SECS_MAX + 1, ts_nanos = 0\<rparr>"
    by (simp_all add: well_formed_iff stamp_eval)
  moreover have "dos_encode \<lparr>ts_secs = SECS_MAX + 1, ts_nanos = 0\<rparr> = None"
    by (simp add: dos_encode_def represents_def)
  ultimately show ?thesis using decode_then_encode by blast
qed

theorem well_formed_stamp_is_canonical_witness:
  "dos_encode \<lparr>ts_secs = 1426325212, ts_nanos = 0\<rparr> = Some \<lparr>dt_date = 0x466E, dt_time = 0x4B5A, dt_tenth = 0\<rparr>"
proof -
  let ?d = "\<lparr>dt_date = 0x466E, dt_time = 0x4B5A, dt_tenth = 0\<rparr>"
  have "dos_civil ?d = \<lparr>year = 2015, month = 3, day = 14, hour = 9, minute = 26, second = 52\<rparr>"
    by (simp add: dos_civil_def SECONDS_PER_UNIT_def)
  then have "is_well_formed ?d = Ok True" "dos_decode ?d = Ok \<lparr>ts_secs = 1426325212, ts_nanos = 0\<rparr>"
    by (simp_all add: well_formed_iff stamp_eval)
  moreover have "represents \<lparr>ts_secs = 1426325212, ts_nanos = 0\<rparr>" by (simp add: represents_def SECS_MIN_def SECS_MAX_def)
  ultimately show ?thesis using well_formed_stamp_is_canonical [of ?d "\<lparr>ts_secs = 1426325212, ts_nanos = 0\<rparr>"] by blast
qed

section \<open>exFAT's fields\<close>

lemma unpack_pack: "unpack_timestamp (pack_timestamp d) (dt_tenth d) = d"
proof -
  have "ucast (drop_bit 16 (push_bit 16 (ucast (dt_date d)) OR ucast (dt_time d) :: u32)) = dt_date d"
    by (rule bit_word_eqI) (auto simp: bit_simps dest: bit_imp_le_length)
  moreover have "ucast (push_bit 16 (ucast (dt_date d)) OR ucast (dt_time d) :: u32) = dt_time d"
    by (rule bit_word_eqI) (auto simp: bit_simps)
  ultimately show ?thesis by (simp add: unpack_timestamp_def pack_timestamp_def)
qed

lemma pack_unpack: "pack_timestamp (unpack_timestamp field tenth) = field"
  unfolding unpack_timestamp_def pack_timestamp_def
  by (rule bit_word_eqI) (auto simp: bit_simps not_less)

definition offset_reference :: "nat \<Rightarrow> int option" where
  "offset_reference b =
     (if b < 128 then None else Some ((int (b - 128) - (if b < 192 then 0 else 128)) * 15))"

lemma offset_table: "list_all (\<lambda>b. utc_offset_minutes (of_nat b) = offset_reference b) [0..<256]"
  by code_simp

text \<open>
  exFAT's packed field and the two words determine each other, and its offset byte reads as the
  seven-bit two's-complement count of quarter hours below the valid bit: no offset without the bit,
  and otherwise from 16:00 west to 15:45 east.
\<close>

theorem exfat_time_fields:
  "unpack_timestamp (pack_timestamp d) (dt_tenth d) = d
   \<and> pack_timestamp (unpack_timestamp field tenth) = field
   \<and> utc_offset_minutes b = offset_reference (unat b)"
proof -
  have "unat b \<in> set [0..<256]" by (simp del: upt_Suc)
  then have "utc_offset_minutes (of_nat (unat b)) = offset_reference (unat b)"
    using offset_table unfolding list_all_iff by (rule bspec [rotated])
  then show ?thesis by (simp add: unpack_pack pack_unpack)
qed

end
