(* ===== verification/Journal.thy ===== *)
theory Journal
  imports OnDisk Crc32c
begin

text \<open>
  The jbd2 journal superblock of \<^verbatim>\<open>crates/ferrosys/src/journal.rs\<close>: how large a journal the
  formatter gives a filesystem, the superblock it writes, and the superblock a reader parses. The
  record is big-endian; it is never held as a value in full, so its fields are named by their
  byte offsets, as in the code's module \<^verbatim>\<open>offset\<close>.
\<close>

section \<open>The constants of the format\<close>

definition JBD2_MAGIC :: u32 where "JBD2_MAGIC = 0xc03b3998"
definition JBD2_SUPERBLOCK_V1 :: u32 where "JBD2_SUPERBLOCK_V1 = 3"
definition JBD2_SUPERBLOCK_V2 :: u32 where "JBD2_SUPERBLOCK_V2 = 4"
definition MIN_JOURNAL_BLOCKS :: nat where "MIN_JOURNAL_BLOCKS = 1024"
definition SUPERBLOCK_SIZE :: nat where "SUPERBLOCK_SIZE = 1024"

definition offset_BLOCK_SIZE :: nat where "offset_BLOCK_SIZE = 0x0c"
definition offset_MAX_LEN :: nat where "offset_MAX_LEN = 0x10"
definition offset_FIRST :: nat where "offset_FIRST = 0x14"
definition offset_SEQUENCE :: nat where "offset_SEQUENCE = 0x18"
definition offset_START :: nat where "offset_START = 0x1c"
definition offset_FEATURE_COMPAT :: nat where "offset_FEATURE_COMPAT = 0x24"
definition offset_FEATURE_INCOMPAT :: nat where "offset_FEATURE_INCOMPAT = 0x28"
definition offset_FEATURE_RO_COMPAT :: nat where "offset_FEATURE_RO_COMPAT = 0x2c"
definition offset_UUID :: nat where "offset_UUID = 0x30"
definition offset_CHECKSUM_TYPE :: nat where "offset_CHECKSUM_TYPE = 0x50"
definition offset_CHECKSUM :: nat where "offset_CHECKSUM = 0xfc"

lemmas journal_offsets =
  offset_BLOCK_SIZE_def offset_MAX_LEN_def offset_FIRST_def offset_SEQUENCE_def offset_START_def
  offset_FEATURE_COMPAT_def offset_FEATURE_INCOMPAT_def offset_FEATURE_RO_COMPAT_def
  offset_UUID_def offset_CHECKSUM_TYPE_def offset_CHECKSUM_def

definition INCOMPAT_CSUM_V2 :: u32 where "INCOMPAT_CSUM_V2 = 0x8"
definition INCOMPAT_CSUM_V3 :: u32 where "INCOMPAT_CSUM_V3 = 0x10"
definition CRC32C_CHKSUM :: u8 where "CRC32C_CHKSUM = 4"
definition BLOCKTYPE_DESCRIPTOR :: u32 where "BLOCKTYPE_DESCRIPTOR = 1"
definition BLOCKTYPE_COMMIT :: u32 where "BLOCKTYPE_COMMIT = 2"
definition BLOCKTYPE_REVOKE :: u32 where "BLOCKTYPE_REVOKE = 5"
definition COMPAT_CHECKSUM :: u32 where "COMPAT_CHECKSUM = 0x1"
definition INCOMPAT_REVOKE :: u32 where "INCOMPAT_REVOKE = 0x1"
definition INCOMPAT_64BIT :: u32 where "INCOMPAT_64BIT = 0x2"
definition INCOMPAT_ASYNC_COMMIT :: u32 where "INCOMPAT_ASYNC_COMMIT = 0x4"
definition INCOMPAT_FAST_COMMIT :: u32 where "INCOMPAT_FAST_COMMIT = 0x20"
definition TAG_ESCAPED :: u32 where "TAG_ESCAPED = 0x1"
definition TAG_SAME_UUID :: u32 where "TAG_SAME_UUID = 0x2"
definition TAG_DELETED :: u32 where "TAG_DELETED = 0x4"
definition TAG_LAST :: u32 where "TAG_LAST = 0x8"

lemmas block_types = BLOCKTYPE_DESCRIPTOR_def BLOCKTYPE_COMMIT_def BLOCKTYPE_REVOKE_def
  JBD2_MAGIC_def JBD2_SUPERBLOCK_V1_def JBD2_SUPERBLOCK_V2_def

lemmas journal_features = INCOMPAT_CSUM_V2_def INCOMPAT_CSUM_V3_def COMPAT_CHECKSUM_def
  INCOMPAT_REVOKE_def INCOMPAT_64BIT_def INCOMPAT_ASYNC_COMMIT_def INCOMPAT_FAST_COMMIT_def

lemmas tag_flags = TAG_ESCAPED_def TAG_SAME_UUID_def TAG_DELETED_def TAG_LAST_def

section \<open>Sizing and building\<close>

definition default_journal_blocks :: "nat \<Rightarrow> nat option" where
  "default_journal_blocks num_blocks =
     (if num_blocks < 2048 then None
      else if num_blocks < 32768 then Some 1024
      else if num_blocks < 262144 then Some 4096
      else if num_blocks < 524288 then Some 8192
      else Some (min (max (num_blocks div 128) 16384) 262144))"

record JournalParams =
  jp_block_size :: u32
  jp_journal_blocks :: u32
  jp_uuid :: bytes

text \<open>The uuid of a \<^verbatim>\<open>JournalParams\<close> is an array of sixteen bytes.\<close>

definition build_superblock :: "JournalParams \<Rightarrow> bytes may_panic" where
  "build_superblock p =
     (let b = replicate (unat (jp_block_size p)) 0 in
      andThen (put_u32_be b 0x00 JBD2_MAGIC) (\<lambda>b.
      andThen (put_u32_be b 0x04 JBD2_SUPERBLOCK_V2) (\<lambda>b.
      andThen (put_u32_be b 0x0c (jp_block_size p)) (\<lambda>b.
      andThen (put_u32_be b 0x10 (jp_journal_blocks p)) (\<lambda>b.
      andThen (put_u32_be b 0x14 1) (\<lambda>b.
      andThen (put_u32_be b 0x18 1) (\<lambda>b.
      andThen (put_arr b 0x30 (jp_uuid p)) (\<lambda>b.
      put_u32_be b 0x40 1))))))))"

definition superblock_is_checksummed :: "bytes \<Rightarrow> bool may_panic" where
  "superblock_is_checksummed record =
     (if SUPERBLOCK_SIZE \<le> length record
      then andThen (get_u32_be record offset_FEATURE_INCOMPAT) (\<lambda>incompat.
        Ok (incompat AND (INCOMPAT_CSUM_V2 OR INCOMPAT_CSUM_V3) \<noteq> 0))
      else Panic)"

definition superblock_checksum :: "bytes \<Rightarrow> ('e, u32) outcome" where
  "superblock_checksum record =
     (if SUPERBLOCK_SIZE \<le> length record
      then andThen (slice record 0 offset_CHECKSUM) (\<lambda>front.
        let c = crc32c (NOT 0) front;
            c = crc32c c (replicate 4 0)
        in andThen (slice record (offset_CHECKSUM + 4) SUPERBLOCK_SIZE) (\<lambda>rest.
           Ok (crc32c c rest)))
      else Panic)"

section \<open>Reading\<close>

record JournalSuperblock =
  js_block_size :: u32
  js_max_len :: u32
  js_first :: u32
  js_sequence :: u32
  js_start :: u32
  js_nr_users :: u32
  js_uuid :: bytes

definition journal_read_from :: "bytes \<Rightarrow> (ParseError, JournalSuperblock) outcome" where
  "journal_read_from buf =
     (if length buf < 0x44 then Err (TooShort ''JournalSuperblock'' 0x44 (length buf))
      else
        andThen (get_u32_be buf 0x00) (\<lambda>magic.
        if magic \<noteq> JBD2_MAGIC
        then Err (BadMagic ''JournalSuperblock'' (unat magic) (unat JBD2_MAGIC))
        else
        andThen (get_u32_be buf 0x04) (\<lambda>blocktype.
        if blocktype \<noteq> JBD2_SUPERBLOCK_V2
        then Err (BadMagic ''JournalSuperblock blocktype'' (unat blocktype) (unat JBD2_SUPERBLOCK_V2))
        else
        andThen (get_arr 16 buf 0x30) (\<lambda>uuid.
        andThen (get_u32_be buf 0x0c) (\<lambda>block_size.
        andThen (get_u32_be buf 0x10) (\<lambda>max_len.
        andThen (get_u32_be buf 0x14) (\<lambda>first.
        andThen (get_u32_be buf 0x18) (\<lambda>sequence.
        andThen (get_u32_be buf 0x1c) (\<lambda>start.
        andThen (get_u32_be buf 0x40) (\<lambda>nr_users.
        Ok \<lparr>js_block_size = block_size, js_max_len = max_len, js_first = first,
            js_sequence = sequence, js_start = start, js_nr_users = nr_users,
            js_uuid = uuid\<rparr>))))))))))"

section \<open>What they promise\<close>

lemmas splice_reads = f32be.get_splice_same f32be.get_splice_other
  f32.get_splice_same f32.get_splice_other

lemma get_arr_splice_same: "off + length bs \<le> length b \<Longrightarrow> n = length bs \<Longrightarrow>
    get_arr n (splice b off bs) off = Ok bs"
  by (simp add: get_arr_def take_drop_splice_same)

lemma get_arr_splice_other:
  "off' + length bs \<le> length b \<Longrightarrow> off + n \<le> off' \<or> off' + length bs \<le> off \<Longrightarrow>
    get_arr n (splice b off' bs) off = get_arr n b off"
  by (auto simp: get_arr_def slice_def take_drop_splice_other)

lemma get_u32_be_zeros: "off + 4 \<le> n \<Longrightarrow> get_u32_be (replicate n 0) off = Ok 0"
  by (simp add: f32be.get_law min_def) (simp add: eval_nat_numeral from_be_def)

lemma build_superblock_reads:
  assumes "length (jp_uuid p) = 16" "0x44 \<le> unat (jp_block_size p)"
  shows "\<exists>b. build_superblock p = Ok b \<and> length b = unat (jp_block_size p)
    \<and> journal_read_from b = Ok \<lparr>js_block_size = jp_block_size p, js_max_len = jp_journal_blocks p,
        js_first = 1, js_sequence = 1, js_start = 0, js_nr_users = 1, js_uuid = jp_uuid p\<rparr>
    \<and> get_u32_be b offset_FEATURE_INCOMPAT = Ok 0"
  using assms
  by (simp add: build_superblock_def journal_read_from_def Let_def f32be.put_law put_arr_def
      splice_reads get_arr_splice_same get_arr_splice_other get_u32_be_zeros journal_offsets)

lemma build_superblock_short:
  "unat (jp_block_size p) < 0x44 \<Longrightarrow> build_superblock p = Panic"
  by (auto simp: build_superblock_def Let_def f32be.put_law put_arr_def split: if_splits)

lemma journal_read_from_total: "journal_read_from buf \<noteq> Panic"
  by (auto simp: journal_read_from_def f32be.get_law get_arr_def)

lemma build_superblock_no_Err: "build_superblock p \<noteq> Err e"
  by (auto simp: build_superblock_def Let_def f32be.put_law put_arr_def)

text \<open>
  C8: The journal superblock the formatter builds parses back to the parameters it was built
  from, as an empty log (its start is zero, its first transaction is one) that carries no
  checksum. Building it panics exactly for a block size with no room for the record's fields;
  reading never panics, whatever the bytes.
\<close>

theorem build_superblock_reads_back:
  assumes "length (jp_uuid p) = 16"
  shows "(build_superblock p = Panic \<longleftrightarrow> unat (jp_block_size p) < 0x44)
    \<and> (\<forall>b. build_superblock p = Ok b \<longrightarrow> length b = unat (jp_block_size p)
        \<and> journal_read_from b = Ok \<lparr>js_block_size = jp_block_size p,
            js_max_len = jp_journal_blocks p, js_first = 1, js_sequence = 1, js_start = 0,
            js_nr_users = 1, js_uuid = jp_uuid p\<rparr>
        \<and> (SUPERBLOCK_SIZE \<le> length b \<longrightarrow> superblock_is_checksummed b = Ok False))
    \<and> journal_read_from buf \<noteq> Panic"
proof (cases "unat (jp_block_size p) < 0x44")
  case True
  then show ?thesis using build_superblock_short journal_read_from_total by simp
next
  case False
  then show ?thesis using build_superblock_reads [OF assms]
    by (auto simp: superblock_is_checksummed_def journal_read_from_total)
qed

theorem build_superblock_reads_back_witness:
  "build_superblock \<lparr>jp_block_size = 67, jp_journal_blocks = 1024, jp_uuid = replicate 16 7\<rparr> = Panic
   \<and> (\<exists>b. build_superblock \<lparr>jp_block_size = 1024, jp_journal_blocks = 4096, jp_uuid = replicate 16 7\<rparr> = Ok b
      \<and> length b = 1024 \<and> superblock_is_checksummed b = Ok False)"
proof
  show "build_superblock \<lparr>jp_block_size = 67, jp_journal_blocks = 1024, jp_uuid = replicate 16 7\<rparr> = Panic"
    using build_superblock_reads_back [of "\<lparr>jp_block_size = 67, jp_journal_blocks = 1024,
      jp_uuid = replicate 16 7\<rparr>"] by simp
  let ?p = "\<lparr>jp_block_size = 1024, jp_journal_blocks = 4096, jp_uuid = replicate 16 7\<rparr> :: JournalParams"
  have "build_superblock ?p \<noteq> Panic" using build_superblock_reads_back [of ?p] by simp
  then obtain b where "build_superblock ?p = Ok b"
    using build_superblock_no_Err by (cases "build_superblock ?p") auto
  then show "\<exists>b. build_superblock ?p = Ok b \<and> length b = 1024 \<and> superblock_is_checksummed b = Ok False"
    using build_superblock_reads_back [of ?p] by (auto simp: SUPERBLOCK_SIZE_def)
qed

text \<open>
  The journal size the formatter picks is one jbd2 accepts, never takes more than half of the
  filesystem nor more than 262144 blocks, and never shrinks as the filesystem grows; only a
  filesystem below 2048 blocks gets none.
\<close>

theorem default_journal_fits:
  "(default_journal_blocks n = None \<longleftrightarrow> n < 2048)
   \<and> (\<forall>j. default_journal_blocks n = Some j \<longrightarrow>
        MIN_JOURNAL_BLOCKS \<le> j \<and> 2 * j \<le> n \<and> j \<le> 262144
        \<and> (\<forall>m k. n \<le> m \<longrightarrow> default_journal_blocks m = Some k \<longrightarrow> j \<le> k))"
proof -
  have "262144 \<le> m \<Longrightarrow> 2048 \<le> m div 128" for m :: nat
    using div_le_mono [of 262144 m 128] by simp
  moreover have "m div 128 \<le> m div 2" for m :: nat
    by (rule div_le_mono2) auto
  moreover have "n \<le> m \<Longrightarrow> n div 128 \<le> m div 128" for m by (rule div_le_mono)
  ultimately show ?thesis
    by (auto simp: default_journal_blocks_def MIN_JOURNAL_BLOCKS_def min_def max_def)
qed

theorem default_journal_fits_witness:
  "default_journal_blocks 1048576 = Some 16384 \<and> 2 * (16384::nat) \<le> 1048576"
  using default_journal_fits [of 1048576] by (simp add: default_journal_blocks_def)

end
