(* ===== verification/ReadErr.thy ===== *)
theory ReadErr
  imports OnDisk
begin

text \<open>
  The errors of the ext reader, \<^verbatim>\<open>ReadError\<close> of \<^verbatim>\<open>crates/ferrosys/src/read.rs\<close>, that the modelled parts
  raise themselves. \<open>OtherFault\<close> carries every other variant, out of the source the reader reads
  its blocks from.
\<close>

datatype 'e ReadError =
    JournalUnsupported string                  \<comment> \<open>feature\<close>
  | JournalMalformed nat string                \<comment> \<open>log block, detail\<close>
  | ChecksumMismatch string nat u32 u32        \<comment> \<open>object, index, stored, computed\<close>
  | ParseFault ParseError
  | BadDirectory
  | HostileName u32                            \<comment> \<open>inode\<close>
  | DirEntryNoSuchInode u32                    \<comment> \<open>inode\<close>
  | BadOrphanFile
  | OtherFault 'e

end
