(* ===== verification/Replay.thy ===== *)
theory Replay
  imports Journal ReadErr
begin

text \<open>
  Journal recovery, \<^verbatim>\<open>crates/ferrosys/src/replay.rs\<close>: which home blocks recovering a jbd2 log
  would rewrite, and with which copy. The planner reads the log through the two operations of
  the trait \<^verbatim>\<open>Log\<close>, here a record of functions: the image does not change under a reader, so
  an operation is a function of the block number, and the memo the reader's \<^verbatim>\<open>JournalLog\<close>
  keeps of its block map is modelled below and proved invisible.

  A log position and a block count are naturals, with the checks and the saturation of the
  code's \<^verbatim>\<open>u32\<close> written out; a home block, a sequence number and a checksum are words.
\<close>

section \<open>Types\<close>

definition MAX_JOURNAL_BLOCKS :: nat where "MAX_JOURNAL_BLOCKS = 10240000"
definition HEADER :: nat where "HEADER = 12"
definition TAIL :: nat where "TAIL = 4"
definition COMMIT_CHECKSUM :: nat where "COMMIT_CHECKSUM = 0x10"
definition REVOKE_COUNT :: nat where "REVOKE_COUNT = 0x0c"
definition REVOKE_RECORDS :: nat where "REVOKE_RECORDS = 0x10"
definition TAG_UUID :: nat where "TAG_UUID = 16"

lemmas block_offsets = HEADER_def TAIL_def COMMIT_CHECKSUM_def REVOKE_COUNT_def
  REVOKE_RECORDS_def TAG_UUID_def

record 'e Log =
  log_locate :: "nat \<Rightarrow> ('e ReadError, nat) outcome"
  log_read :: "nat \<Rightarrow> ('e ReadError, bytes) outcome"

record LogCopy =
  copy_at :: nat
  copy_escaped :: bool

record Skipped =
  sk_home :: u64
  sk_sequence :: u32
  sk_stored :: u32
  sk_computed :: u32

record Replay =
  copies :: "u64 \<rightharpoonup> LogCopy"
  transactions :: nat
  skipped :: "Skipped list"

datatype Checksums = NoSums | V2 | V3

record LogLayout =
  max_len :: nat
  first_block :: nat
  checksums :: Checksums
  wide :: bool
  seed :: u32

record Tag =
  tag_home :: u64
  tag_at :: nat
  tag_escaped :: bool
  tag_stored :: u32

record Transaction =
  tr_sequence :: u32
  tr_tags :: "Tag list"
  tr_revokes :: "u64 list"

definition tag_size :: "LogLayout \<Rightarrow> nat" where
  "tag_size l = (case checksums l of
       V3 \<Rightarrow> 16
     | V2 \<Rightarrow> 10 + (if wide l then 4 else 0)
     | NoSums \<Rightarrow> 8 + (if wide l then 4 else 0))"

definition body_end :: "LogLayout \<Rightarrow> nat \<Rightarrow> nat" where
  "body_end l len = (case checksums l of NoSums \<Rightarrow> len | _ \<Rightarrow> len - TAIL)"

definition next_block :: "LogLayout \<Rightarrow> nat \<Rightarrow> nat" where
  "next_block l n = (if max_len l \<le> min (n + 1) 0xFFFFFFFF then first_block l else n + 1)"

section \<open>The checksums of a block\<close>

definition check_tail :: "LogLayout \<Rightarrow> bytes \<Rightarrow> string \<Rightarrow> nat \<Rightarrow> ('e ReadError, unit) outcome" where
  "check_tail l block object at =
     (if checksums l = NoSums then Ok ()
      else
        andThen (sub64 (length block) TAIL) (\<lambda>tail.
        andThen (get_u32_be block tail) (\<lambda>stored.
        andThen (slice block 0 tail) (\<lambda>body.
        let computed = crc32c (crc32c (seed l) body) (replicate TAIL 0)
        in if stored \<noteq> computed then Err (ChecksumMismatch object at stored computed)
           else Ok ()))))"

definition commit_holds :: "LogLayout \<Rightarrow> bytes \<Rightarrow> ('e, bool) outcome" where
  "commit_holds l block =
     (if checksums l = NoSums then Ok True
      else
        andThen (get_u32_be block COMMIT_CHECKSUM) (\<lambda>stored.
        andThen (slice block 0 COMMIT_CHECKSUM) (\<lambda>front.
        let c = crc32c (seed l) front;
            c = crc32c c (replicate 4 0)
        in andThen (slice block (COMMIT_CHECKSUM + 4) (length block)) (\<lambda>rest.
           Ok (crc32c c rest = stored)))))"

definition tag_checksum :: "LogLayout \<Rightarrow> u32 \<Rightarrow> bytes \<Rightarrow> u32" where
  "tag_checksum l sequence bytes =
     (let c = crc32c (crc32c (seed l) (to_be 4 sequence)) bytes
      in case checksums l of V2 \<Rightarrow> c AND 0xffff | _ \<Rightarrow> c)"

section \<open>The records of a block\<close>

text \<open>One turn of the loop of \<^verbatim>\<open>tags\<close>: the flags, the upper half of the home, the checksum.\<close>

definition tag_words :: "LogLayout \<Rightarrow> bytes \<Rightarrow> nat \<Rightarrow> ('e, u32 \<times> u32 \<times> u32) outcome" where
  "tag_words l block pos = (case checksums l of
       V3 \<Rightarrow>
         andThen (get_u32_be block (pos + 4)) (\<lambda>flags.
         andThen (get_u32_be block (pos + 8)) (\<lambda>high.
         andThen (get_u32_be block (pos + 12)) (\<lambda>stored.
         Ok (flags, high, stored))))
     | _ \<Rightarrow>
         andThen (get_u32_be block (pos + 4)) (\<lambda>word.
         andThen (if wide l then get_u32_be block (pos + 8) else Ok 0) (\<lambda>high.
         Ok (word AND 0xffff, high, drop_bit 16 word))))"

function tags_loop ::
  "LogLayout \<Rightarrow> bytes \<Rightarrow> nat \<Rightarrow> nat \<Rightarrow> (u64 \<times> bool \<times> u32) list \<Rightarrow>
    ('e ReadError, (u64 \<times> bool \<times> u32) list) outcome" where
  "tags_loop l block at pos out =
     (if pos + tag_size l \<le> body_end l (length block) then
        andThen (get_u32_be block pos) (\<lambda>low.
        andThen (tag_words l block pos) (\<lambda>(flags, high, stored).
        if flags AND TAG_DELETED \<noteq> 0
        then Err (JournalUnsupported ''a tag marking a deleted block'')
        else
          let high = (if wide l then ucast high else 0 :: u64);
              out = out @ [(push_bit 32 high OR ucast low, flags AND TAG_ESCAPED \<noteq> 0, stored)];
              pos = pos + tag_size l;
              pos = (if flags AND TAG_SAME_UUID = 0 then pos + TAG_UUID else pos)
          in if flags AND TAG_LAST \<noteq> 0 then Ok out
             else tags_loop l block at pos out))
      else if out = [] then Err (JournalMalformed at ''a descriptor block with no tag'')
      else Ok out)"
  by pat_completeness auto
termination
  by (relation "measure (\<lambda>(l, block, at, pos, out). body_end l (length block) - pos)")
    (auto simp: tag_size_def split: Checksums.splits if_splits)

declare tags_loop.simps [simp del]

definition tags :: "LogLayout \<Rightarrow> bytes \<Rightarrow> nat \<Rightarrow> ('e ReadError, (u64 \<times> bool \<times> u32) list) outcome" where
  "tags l block at = tags_loop l block at HEADER []"

text \<open>\<^verbatim>\<open>(REVOKE_RECORDS..count).step_by(record)\<close>.\<close>

definition step_by :: "nat \<Rightarrow> nat \<Rightarrow> nat \<Rightarrow> nat list" where
  "step_by a b n = map (\<lambda>i. a + i * n) [0..<div_ceil (b - a) n]"

definition revokes :: "LogLayout \<Rightarrow> bytes \<Rightarrow> nat \<Rightarrow> ('e ReadError, u64 list) outcome" where
  "revokes l block at =
     (let record = (if wide l then 8 else 4) in
      andThen (get_u32_be block REVOKE_COUNT) (\<lambda>c.
      let count = unat c in
      if count < REVOKE_RECORDS \<or> body_end l (length block) < count
         \<or> (count - REVOKE_RECORDS) mod record \<noteq> 0
      then Err (JournalMalformed at ''a revoke block whose count runs past its records'')
      else mapOutcome (\<lambda>pos. if wide l then get_u64_be block pos
             else mapOk ucast (get_u32_be block pos)) (step_by REVOKE_RECORDS count record)))"

section \<open>The journal superblock\<close>

definition log_layout :: "bytes \<Rightarrow> nat \<Rightarrow> nat \<Rightarrow> ('e ReadError, LogLayout) outcome" where
  "log_layout superblock block_size journal_blocks =
     (if length superblock < SUPERBLOCK_SIZE
      then Err (JournalMalformed 0 ''a journal superblock without the jbd2 magic'')
      else
      andThen (get_u32_be superblock 0) (\<lambda>magic.
      if magic \<noteq> JBD2_MAGIC
      then Err (JournalMalformed 0 ''a journal superblock without the jbd2 magic'')
      else
      andThen (get_u32_be superblock 4) (\<lambda>version.
      if version \<noteq> JBD2_SUPERBLOCK_V2
      then Err (if version = JBD2_SUPERBLOCK_V1
                then JournalUnsupported ''a version 1 journal superblock''
                else JournalMalformed 0 ''a journal superblock of an unknown version'')
      else
      andThen (get_u32_be superblock offset_FEATURE_COMPAT) (\<lambda>compat.
      andThen (get_u32_be superblock offset_FEATURE_INCOMPAT) (\<lambda>incompat.
      andThen (get_u32_be superblock offset_FEATURE_RO_COMPAT) (\<lambda>ro_compat.
      if compat AND COMPAT_CHECKSUM \<noteq> 0
      then Err (JournalUnsupported ''the version 1 commit checksum'')
      else if incompat AND INCOMPAT_ASYNC_COMMIT \<noteq> 0
      then Err (JournalUnsupported ''asynchronous commits'')
      else if incompat AND INCOMPAT_FAST_COMMIT \<noteq> 0
      then Err (JournalUnsupported ''fast commits'')
      else if incompat AND NOT (INCOMPAT_REVOKE OR INCOMPAT_64BIT OR INCOMPAT_CSUM_V2 OR INCOMPAT_CSUM_V3) \<noteq> 0
      then Err (JournalUnsupported ''an incompatible journal feature it does not know'')
      else if ro_compat \<noteq> 0
      then Err (JournalUnsupported ''a read-only-compatible journal feature it does not know'')
      else
      andThen (case (incompat AND INCOMPAT_CSUM_V2 \<noteq> 0, incompat AND INCOMPAT_CSUM_V3 \<noteq> 0) of
          (False, False) \<Rightarrow> Ok NoSums
        | (True, False) \<Rightarrow> Ok V2
        | (False, True) \<Rightarrow> Ok V3
        | (True, True) \<Rightarrow> Err (JournalUnsupported ''both journal checksum versions at once'')) (\<lambda>sums.
      andThen (if sums = NoSums then Ok ()
        else
          andThen (get_u8 superblock offset_CHECKSUM_TYPE) (\<lambda>kind.
          if kind \<noteq> CRC32C_CHKSUM
          then Err (JournalUnsupported ''a journal checksum other than crc32c'')
          else
          andThen (get_u32_be superblock offset_CHECKSUM) (\<lambda>stored.
          andThen (superblock_checksum superblock) (\<lambda>computed.
          if stored \<noteq> computed
          then Err (ChecksumMismatch ''journal superblock'' 0 stored computed)
          else Ok ())))) (\<lambda>_.
      andThen (get_u32_be superblock offset_BLOCK_SIZE) (\<lambda>bsize.
      if unat bsize \<noteq> block_size
      then Err (JournalMalformed 0 ''a journal block size other than the filesystem's'')
      else
      andThen (get_u32_be superblock offset_MAX_LEN) (\<lambda>mlen.
      andThen (get_u32_be superblock offset_FIRST) (\<lambda>frst.
      if unat mlen > MAX_JOURNAL_BLOCKS \<or> unat mlen > journal_blocks
      then Err (JournalMalformed 0 ''a journal longer than the file holding it'')
      else if frst = 0 \<or> mlen \<le> frst
      then Err (JournalMalformed 0 ''a first log block outside the journal'')
      else
      andThen (slice superblock offset_UUID (offset_UUID + 16)) (\<lambda>uuid.
      Ok \<lparr>max_len = unat mlen, first_block = unat frst, checksums = sums,
          wide = (incompat AND INCOMPAT_64BIT \<noteq> 0), seed = crc32c (NOT 0) uuid\<rparr>))))))))))))"

section \<open>Walking the log\<close>

text \<open>The closure \<^verbatim>\<open>visit\<close>: it counts a block, on a \<^verbatim>\<open>u32\<close>, and refuses one past the span.\<close>

definition visit :: "nat \<Rightarrow> nat \<Rightarrow> nat \<Rightarrow> ('e ReadError, nat) outcome" where
  "visit span visited at =
     (if visited + 1 > 0xFFFFFFFF then Panic
      else if visited + 1 > span then Err (JournalMalformed at ''a log longer than its journal'')
      else Ok (visited + 1))"

text \<open>The loop over a descriptor's tags: the data blocks follow the descriptor in the log.\<close>

fun take_tags ::
  "LogLayout \<Rightarrow> nat \<Rightarrow> (u64 \<times> bool \<times> u32) list \<Rightarrow> nat \<Rightarrow> nat \<Rightarrow> Tag list \<Rightarrow>
    ('e ReadError, nat \<times> nat \<times> Tag list) outcome" where
  "take_tags l span [] at visited acc = Ok (at, visited, acc)"
| "take_tags l span ((home, escaped, stored) # ts) at visited acc =
     (let at = next_block l at in
      andThen (visit span visited at) (\<lambda>visited.
      take_tags l span ts at visited
        (acc @ [\<lparr>tag_home = home, tag_at = at, tag_escaped = escaped, tag_stored = stored\<rparr>])))"

lemma take_tags_visited: "take_tags l span ts at v acc = Ok (at', v', acc') \<Longrightarrow> v \<le> v'"
  by (induction l span ts at v acc rule: take_tags.induct)
     (force simp: visit_def Let_def split: if_splits)+

lemma take_tags_within:
  "take_tags l span ts at v acc = Ok (at', v', acc') \<Longrightarrow> v \<le> span \<Longrightarrow> v' \<le> span"
  by (induction l span ts at v acc rule: take_tags.induct)
     (force simp: visit_def Let_def split: if_splits)+

text \<open>
  What the loop of \<^verbatim>\<open>scan\<close> threads: the blocks visited, the block it is at, the transaction it
  is collecting and those a commit has closed. A turn of the loop either breaks out of it, which
  leaves the open transaction behind, or goes on.
\<close>

record Scan =
  sc_visited :: nat
  sc_at :: nat
  sc_current :: Transaction
  sc_committed :: "Transaction list"

datatype turn = Break | Continue Scan

definition open_transaction :: "u32 \<Rightarrow> Transaction" where
  "open_transaction seq = \<lparr>tr_sequence = seq, tr_tags = [], tr_revokes = []\<rparr>"

definition scan_turn :: "LogLayout \<Rightarrow> 'e Log \<Rightarrow> nat \<Rightarrow> nat \<Rightarrow> Scan \<Rightarrow> ('e ReadError, turn) outcome" where
  "scan_turn l log block_size span st =
     (let at = sc_at st; current = sc_current st in
      andThen (visit span (sc_visited st) at) (\<lambda>visited.
      andThen (log_read log at) (\<lambda>block.
      if length block \<noteq> block_size then Ok Break
      else
      andThen (get_u32_be block 0) (\<lambda>magic.
      if magic \<noteq> JBD2_MAGIC then Ok Break
      else
      andThen (get_u32_be block 8) (\<lambda>seq.
      if seq \<noteq> tr_sequence current then Ok Break
      else
      andThen (get_u32_be block 4) (\<lambda>kind.
      if kind = BLOCKTYPE_DESCRIPTOR then
        andThen (check_tail l block ''journal descriptor'' at) (\<lambda>_.
        andThen (tags l block at) (\<lambda>ts.
        andThen (take_tags l span ts at visited (tr_tags current)) (\<lambda>(at, visited, ts).
        Ok (Continue (st\<lparr>sc_visited := visited, sc_at := next_block l at,
            sc_current := current\<lparr>tr_tags := ts\<rparr>\<rparr>)))))
      else if kind = BLOCKTYPE_REVOKE then
        andThen (check_tail l block ''journal revoke block'' at) (\<lambda>_.
        andThen (revokes l block at) (\<lambda>rs.
        Ok (Continue (st\<lparr>sc_visited := visited, sc_at := next_block l at,
            sc_current := current\<lparr>tr_revokes := tr_revokes current @ rs\<rparr>\<rparr>))))
      else if kind = BLOCKTYPE_COMMIT then
        andThen (commit_holds l block) (\<lambda>holds.
        if \<not> holds then Ok Break
        else Ok (Continue \<lparr>sc_visited = visited, sc_at = next_block l at,
            sc_current = open_transaction (tr_sequence current + 1),
            sc_committed = sc_committed st @ [current]\<rparr>))
      else Ok Break))))))"

lemma visit_Ok [simp]:
  "visit span v at = Ok v' \<longleftrightarrow> v' = v + 1 \<and> v + 1 \<le> span \<and> v + 1 \<le> 0xFFFFFFFF"
  by (auto simp: visit_def)

lemma scan_turn_visited:
  "scan_turn l log bs span st = Ok (Continue st') \<Longrightarrow>
    sc_visited st < sc_visited st' \<and> sc_visited st < span"
  by (auto simp: scan_turn_def Let_def dest!: take_tags_visited split: if_splits)

text \<open>The loop ends: every turn visits a block and \<open>visit\<close> lets no more than \<open>span\<close> of them pass.\<close>

function scan_loop :: "LogLayout \<Rightarrow> 'e Log \<Rightarrow> nat \<Rightarrow> nat \<Rightarrow> Scan \<Rightarrow> ('e ReadError, Transaction list) outcome" where
  "scan_loop l log block_size span st =
     andThen (scan_turn l log block_size span st) (\<lambda>t.
     case t of
       Break \<Rightarrow> Ok (sc_committed st)
     | Continue st' \<Rightarrow> scan_loop l log block_size span st')"
  by pat_completeness auto
termination
  by (relation "measure (\<lambda>(l, log, bs, span, st). span - sc_visited st)")
    (auto dest!: scan_turn_visited)

declare scan_loop.simps [simp del]

definition scan ::
  "LogLayout \<Rightarrow> nat \<Rightarrow> u32 \<Rightarrow> nat \<Rightarrow> 'e Log \<Rightarrow> ('e ReadError, Transaction list) outcome" where
  "scan l start seq block_size log =
     andThen (sub64 (max_len l) (first_block l)) (\<lambda>span.
     scan_loop l log block_size span
       \<lparr>sc_visited = 0, sc_at = start, sc_current = open_transaction seq, sc_committed = []\<rparr>)"

section \<open>Choosing the copies\<close>

text \<open>The map \<^verbatim>\<open>revoked\<close>: the last transaction that revokes each block.\<close>

definition note_revokes :: "(u64 \<rightharpoonup> nat) \<Rightarrow> nat \<times> Transaction \<Rightarrow> (u64 \<rightharpoonup> nat)" where
  "note_revokes revoked = (\<lambda>(index, t). foldl (\<lambda>m home. m(home \<mapsto> index)) revoked (tr_revokes t))"

definition last_revokes :: "Transaction list \<Rightarrow> (u64 \<rightharpoonup> nat)" where
  "last_revokes committed = foldl note_revokes Map.empty (enumerate 0 committed)"

text \<open>The body of the inner loop of \<^verbatim>\<open>apply\<close>.\<close>

definition apply_tag ::
  "LogLayout \<Rightarrow> (u64 \<rightharpoonup> nat) \<Rightarrow> nat \<Rightarrow> 'e Log \<Rightarrow> Replay \<Rightarrow> nat \<times> u32 \<times> Tag \<Rightarrow>
    ('e ReadError, Replay) outcome" where
  "apply_tag l revoked fs_blocks log r = (\<lambda>(index, seq, tag).
     if (case revoked (tag_home tag) of Some by \<Rightarrow> index \<le> by | None \<Rightarrow> False) then Ok r
     else if fs_blocks \<le> unat (tag_home tag)
     then Err (JournalMalformed (tag_at tag) ''a copy of a block past the filesystem'')
     else
       andThen (if checksums l \<noteq> NoSums
         then andThen (log_read log (tag_at tag)) (\<lambda>bytes. Ok (Some (tag_checksum l seq bytes)))
         else Ok None) (\<lambda>computed.
       if (case computed of Some c \<Rightarrow> c \<noteq> tag_stored tag | None \<Rightarrow> False)
       then Ok (r\<lparr>skipped := skipped r @ [\<lparr>sk_home = tag_home tag, sk_sequence = seq,
              sk_stored = tag_stored tag, sk_computed = the computed\<rparr>]\<rparr>)
       else
         andThen (log_locate log (tag_at tag)) (\<lambda>at.
         Ok (r\<lparr>copies := (copies r)(tag_home tag \<mapsto> \<lparr>copy_at = at, copy_escaped = tag_escaped tag\<rparr>)\<rparr>))))"

text \<open>The two nested loops, over every tag of every transaction in log order.\<close>

definition log_order :: "Transaction list \<Rightarrow> (nat \<times> u32 \<times> Tag) list" where
  "log_order committed =
     concat (map (\<lambda>(index, t). map (\<lambda>tag. (index, tr_sequence t, tag)) (tr_tags t)) (enumerate 0 committed))"

definition apply_log ::
  "LogLayout \<Rightarrow> Transaction list \<Rightarrow> nat \<Rightarrow> 'e Log \<Rightarrow> ('e ReadError, Replay) outcome" where
  "apply_log l committed fs_blocks log =
     (let revoked = last_revokes committed;
          replay = \<lparr>copies = Map.empty, transactions = min (length committed) 0xFFFFFFFF, skipped = []\<rparr>
      in foldOutcome (apply_tag l revoked fs_blocks log) replay (log_order committed))"

definition plan :: "bytes \<Rightarrow> nat \<Rightarrow> nat \<Rightarrow> nat \<Rightarrow> 'e Log \<Rightarrow> ('e ReadError, Replay) outcome" where
  "plan superblock block_size fs_blocks journal_blocks log =
     andThen (log_layout superblock block_size journal_blocks) (\<lambda>l.
     andThen (get_u32_be superblock offset_START) (\<lambda>start.
     if start = 0 then Ok \<lparr>copies = Map.empty, transactions = 0, skipped = []\<rparr>
     else if unat start < first_block l \<or> max_len l \<le> unat start
     then Err (JournalMalformed 0 ''a log start outside the journal'')
     else
       andThen (get_u32_be superblock offset_SEQUENCE) (\<lambda>seq.
       andThen (scan l (unat start) seq block_size log) (\<lambda>committed.
       apply_log l committed fs_blocks log))))"

section \<open>Revocation\<close>

text \<open>A copy logged in transaction \<open>i\<close> is cancelled by a revoke of its block in that or a later one.\<close>

definition cancelled :: "Transaction list \<Rightarrow> nat \<Rightarrow> u64 \<Rightarrow> bool" where
  "cancelled committed i home = list_ex (\<lambda>t. home \<in> set (tr_revokes t)) (drop i committed)"

lemma foldl_map_upd:
  "foldl (\<lambda>m h. m(h \<mapsto> v)) m hs k = (if k \<in> set hs then Some v else m k)"
  by (induction hs arbitrary: m) auto

lemma last_revokes_snoc:
  "last_revokes (ts @ [t]) h = (if h \<in> set (tr_revokes t) then Some (length ts) else last_revokes ts h)"
  by (simp add: last_revokes_def enumerate_append_eq note_revokes_def foldl_map_upd)

lemma last_revokes_bound: "last_revokes ts h = Some j \<Longrightarrow> j < length ts"
  by (induction ts rule: rev_induct)
    (auto simp: last_revokes_snoc last_revokes_def [of "[]"] split: if_splits)

lemma last_revokes_cancelled:
  "i < length ts \<Longrightarrow> (case last_revokes ts h of Some by \<Rightarrow> i \<le> by | None \<Rightarrow> False) = cancelled ts i h"
proof (induction ts rule: rev_induct)
  case (snoc t ts)
  then show ?case
    by (cases "i < length ts")
      (auto simp: last_revokes_snoc cancelled_def less_Suc_eq last_revokes_bound not_less split: option.splits
        dest: last_revokes_bound)
qed simp

section \<open>The copies recovery puts in place\<close>

definition copy_sound :: "LogLayout \<Rightarrow> 'e Log \<Rightarrow> nat \<times> u32 \<times> Tag \<Rightarrow> bool" where
  "copy_sound l log = (\<lambda>(i, seq, tag). checksums l = NoSums \<or>
     (case log_read log (tag_at tag) of Ok bytes \<Rightarrow> tag_checksum l seq bytes = tag_stored tag | _ \<Rightarrow> False))"

text \<open>The tags no revoke cancels, in log order, and of them the sound copies of one home block.\<close>

definition live_tags :: "Transaction list \<Rightarrow> (nat \<times> u32 \<times> Tag) list" where
  "live_tags committed =
     filter (\<lambda>(i, seq, tag). \<not> cancelled committed i (tag_home tag)) (log_order committed)"

definition copies_of :: "LogLayout \<Rightarrow> 'e Log \<Rightarrow> Transaction list \<Rightarrow> u64 \<Rightarrow> (nat \<times> u32 \<times> Tag) list" where
  "copies_of l log committed home =
     filter (\<lambda>e. copy_sound l log e \<and> tag_home (snd (snd e)) = home) (live_tags committed)"

definition copy_in_log :: "'e Log \<Rightarrow> nat \<times> u32 \<times> Tag \<Rightarrow> LogCopy" where
  "copy_in_log log = (\<lambda>(i, seq, tag).
     \<lparr>copy_at = (case log_locate log (tag_at tag) of Ok a \<Rightarrow> a | _ \<Rightarrow> 0), copy_escaped = tag_escaped tag\<rparr>)"

definition skip_of :: "LogLayout \<Rightarrow> 'e Log \<Rightarrow> nat \<times> u32 \<times> Tag \<Rightarrow> Skipped" where
  "skip_of l log = (\<lambda>(i, seq, tag).
     \<lparr>sk_home = tag_home tag, sk_sequence = seq, sk_stored = tag_stored tag,
      sk_computed = (case log_read log (tag_at tag) of Ok bytes \<Rightarrow> tag_checksum l seq bytes | _ \<Rightarrow> 0)\<rparr>)"

lemma apply_tag_Ok:
  assumes "apply_tag l revoked fs log r e = Ok r'"
    and "(case revoked (tag_home (snd (snd e))) of Some by \<Rightarrow> fst e \<le> by | None \<Rightarrow> False) = dead"
  shows "transactions r' = transactions r
    \<and> skipped r' = skipped r @ (if \<not> dead \<and> \<not> copy_sound l log e then [skip_of l log e] else [])
    \<and> copies r' = (if \<not> dead \<and> copy_sound l log e
         then (copies r)(tag_home (snd (snd e)) \<mapsto> copy_in_log log e) else copies r)
    \<and> (dead \<or> unat (tag_home (snd (snd e))) < fs)"
  using assms
  by (cases e)
    (auto simp: apply_tag_def copy_sound_def skip_of_def copy_in_log_def split: if_splits option.splits)

lemma apply_fold:
  assumes "foldOutcome (apply_tag l revoked fs log) \<lparr>copies = Map.empty, transactions = n, skipped = []\<rparr> es = Ok r"
    and "\<And>e. e \<in> set es \<Longrightarrow>
      (case revoked (tag_home (snd (snd e))) of Some by \<Rightarrow> fst e \<le> by | None \<Rightarrow> False) = dead e"
  shows "transactions r = n
    \<and> skipped r = map (skip_of l log) (filter (\<lambda>e. \<not> dead e \<and> \<not> copy_sound l log e) es)
    \<and> (\<forall>e \<in> set es. dead e \<or> unat (tag_home (snd (snd e))) < fs)
    \<and> copies r h = (let sel = filter (\<lambda>e. \<not> dead e \<and> copy_sound l log e \<and> tag_home (snd (snd e)) = h) es
        in if sel = [] then None else Some (copy_in_log log (last sel)))"
  using assms
proof (induction es arbitrary: r rule: rev_induct)
  case Nil
  then show ?case by auto
next
  case (snoc e es)
  then obtain r1 where r1: "foldOutcome (apply_tag l revoked fs log)
      \<lparr>copies = Map.empty, transactions = n, skipped = []\<rparr> es = Ok r1"
    and step: "apply_tag l revoked fs log r1 e = Ok r"
    by (auto simp: foldOutcome_append)
  have dead: "(case revoked (tag_home (snd (snd e))) of Some by \<Rightarrow> fst e \<le> by | None \<Rightarrow> False) = dead e"
    by (rule snoc.prems(2)) simp
  show ?case using snoc.IH [OF r1] snoc.prems(2) apply_tag_Ok [OF step dead] by (auto simp: Let_def)
qed

lemma log_order_index: "e \<in> set (log_order ts) \<Longrightarrow> fst e < length ts"
  by (auto simp: log_order_def in_set_enumerate_eq)

text \<open>
  C3: What recovery applies. A home block takes the last sound copy of it that no revoke of the
  same or a later committed transaction cancels, or keeps its contents if there is none; every
  other uncancelled copy with a bad checksum is reported, in log order; no block past the end of
  the filesystem is ever written.
\<close>

theorem recovery_applies_last_sound_copy:
  assumes "apply_log l committed fs_blocks log = Ok r"
  shows "(\<forall>home. copies r home =
        (if copies_of l log committed home = [] then None
         else Some (copy_in_log log (last (copies_of l log committed home)))))
    \<and> skipped r = map (skip_of l log) (filter (\<lambda>e. \<not> copy_sound l log e) (live_tags committed))
    \<and> (\<forall>home \<in> dom (copies r). unat home < fs_blocks)
    \<and> transactions r = min (length committed) 0xFFFFFFFF"
proof -
  let ?dead = "\<lambda>e. cancelled committed (fst e) (tag_home (snd (snd e)))"
  have live: "live_tags committed = filter (\<lambda>e. \<not> ?dead e) (log_order committed)"
    by (simp add: live_tags_def case_prod_unfold)
  have spec: "transactions r = min (length committed) 0xFFFFFFFF
    \<and> skipped r = map (skip_of l log) (filter (\<lambda>e. \<not> ?dead e \<and> \<not> copy_sound l log e) (log_order committed))
    \<and> (\<forall>e \<in> set (log_order committed). ?dead e \<or> unat (tag_home (snd (snd e))) < fs_blocks)
    \<and> copies r h = (let sel = filter (\<lambda>e. \<not> ?dead e \<and> copy_sound l log e \<and> tag_home (snd (snd e)) = h) (log_order committed)
        in if sel = [] then None else Some (copy_in_log log (last sel)))" for h
    using assms unfolding apply_log_def Let_def
    by (rule apply_fold [unfolded Let_def]) (simp add: last_revokes_cancelled log_order_index)
  have sel: "copies_of l log committed h =
      filter (\<lambda>e. \<not> ?dead e \<and> copy_sound l log e \<and> tag_home (snd (snd e)) = h) (log_order committed)" for h
    by (simp add: copies_of_def live conj_ac)
  have copies: "copies r h = (if copies_of l log committed h = [] then None
      else Some (copy_in_log log (last (copies_of l log committed h))))" for h
    using spec [of h] by (simp add: sel Let_def)
  have "unat h < fs_blocks" if "h \<in> dom (copies r)" for h
  proof -
    have "copies_of l log committed h \<noteq> []" using that copies by (auto split: if_splits)
    then obtain e where "e \<in> set (copies_of l log committed h)" by (meson last_in_set)
    then show ?thesis using spec [of h] by (auto simp: sel)
  qed
  then show ?thesis using copies spec by (simp add: live conj_ac)
qed

theorem recovery_applies_last_sound_copy_witness:
  "\<exists>r. apply_log \<lparr>max_len = 32, first_block = 1, checksums = NoSums, wide = False, seed = 0\<rparr>
      [\<lparr>tr_sequence = 5, tr_tags = [\<lparr>tag_home = 9, tag_at = 2, tag_escaped = False, tag_stored = 0\<rparr>,
          \<lparr>tag_home = 8, tag_at = 3, tag_escaped = False, tag_stored = 0\<rparr>], tr_revokes = []\<rparr>,
       \<lparr>tr_sequence = 6, tr_tags = [\<lparr>tag_home = 9, tag_at = 6, tag_escaped = True, tag_stored = 0\<rparr>],
          tr_revokes = [8]\<rparr>]
      100 (\<lparr>log_locate = (\<lambda>n. Ok (n + 50)), log_read = (\<lambda>n. Ok [])\<rparr> :: nat Log) = Ok r
    \<and> copies r 9 = Some \<lparr>copy_at = 56, copy_escaped = True\<rparr> \<and> copies r 8 = None"
proof -
  let ?l = "\<lparr>max_len = 32, first_block = 1, checksums = NoSums, wide = False, seed = 0\<rparr> :: LogLayout"
  let ?c = "[\<lparr>tr_sequence = 5, tr_tags = [\<lparr>tag_home = 9, tag_at = 2, tag_escaped = False, tag_stored = 0\<rparr>,
          \<lparr>tag_home = 8, tag_at = 3, tag_escaped = False, tag_stored = 0\<rparr>], tr_revokes = []\<rparr>,
       \<lparr>tr_sequence = 6, tr_tags = [\<lparr>tag_home = 9, tag_at = 6, tag_escaped = True, tag_stored = 0\<rparr>],
          tr_revokes = [8]\<rparr>] :: Transaction list"
  let ?log = "\<lparr>log_locate = (\<lambda>n. Ok (n + 50)), log_read = (\<lambda>n. Ok [])\<rparr> :: nat Log"
  obtain r where r: "apply_log ?l ?c 100 ?log = Ok r"
    by (simp add: apply_log_def last_revokes_def note_revokes_def log_order_def apply_tag_def)
  have "copies_of ?l ?log ?c 9 \<noteq> [] \<and> copy_in_log ?log (last (copies_of ?l ?log ?c 9)) = \<lparr>copy_at = 56, copy_escaped = True\<rparr>"
    "copies_of ?l ?log ?c 8 = []"
    by (simp_all add: copies_of_def live_tags_def cancelled_def log_order_def copy_sound_def copy_in_log_def)
  then have "copies r 9 = Some \<lparr>copy_at = 56, copy_escaped = True\<rparr>" "copies r 8 = None"
    using recovery_applies_last_sound_copy [OF r] by simp_all
  with r show ?thesis by auto
qed

section \<open>The walk stays in the log\<close>

definition in_log :: "LogLayout \<Rightarrow> nat \<Rightarrow> bool" where
  "in_log l n \<longleftrightarrow> first_block l \<le> n \<and> n < max_len l"

definition log_shape :: "LogLayout \<Rightarrow> bool" where
  "log_shape l \<longleftrightarrow> 0 < first_block l \<and> first_block l < max_len l \<and> max_len l \<le> MAX_JOURNAL_BLOCKS"

definition tags_in_log :: "LogLayout \<Rightarrow> Transaction \<Rightarrow> bool" where
  "tags_in_log l t \<longleftrightarrow> (\<forall>tag \<in> set (tr_tags t). in_log l (tag_at tag))"

definition blocks_of :: "Transaction list \<Rightarrow> nat" where
  "blocks_of ts = sum_list (map (\<lambda>t. length (tr_tags t) + 1) ts)"

text \<open>
  What holds at every turn, for a walk begun at sequence number \<open>seq\<close>: the block it is at and
  every tag are in the log; the transactions are numbered consecutively, wrapping; and there are
  no more copies and commits than blocks visited.
\<close>

definition scan_ok :: "LogLayout \<Rightarrow> u32 \<Rightarrow> Scan \<Rightarrow> bool" where
  "scan_ok l seq st \<longleftrightarrow> in_log l (sc_at st)
     \<and> (\<forall>t \<in> set (sc_current st # sc_committed st). tags_in_log l t)
     \<and> (\<forall>i < length (sc_committed st). tr_sequence (sc_committed st ! i) = seq + of_nat i)
     \<and> tr_sequence (sc_current st) = seq + of_nat (length (sc_committed st))
     \<and> blocks_of (sc_committed st) + length (tr_tags (sc_current st)) \<le> sc_visited st"

lemma log_layout_shape:
  "log_layout sb bs jb = Ok l \<Longrightarrow> log_shape l \<and> max_len l \<le> jb \<and> length sb \<ge> SUPERBLOCK_SIZE"
  by (auto simp: log_layout_def log_shape_def word_le_nat_alt unat_gt_0 not_le not_less
      split: if_splits bool.splits)

lemma next_in_log: "log_shape l \<Longrightarrow> in_log l n \<Longrightarrow> in_log l (next_block l n)"
  by (auto simp: in_log_def log_shape_def next_block_def MAX_JOURNAL_BLOCKS_def)

lemma take_tags_in_log:
  assumes "log_shape l"
    and "(take_tags l span ts at v acc :: ('e ReadError, _) outcome) = Ok (at', v', acc')"
    and "in_log l at" "\<forall>tag \<in> set acc. in_log l (tag_at tag)"
  shows "in_log l at' \<and> (\<forall>tag \<in> set acc'. in_log l (tag_at tag))
    \<and> v' = v + length ts \<and> length acc' = length acc + length ts"
  using assms(2-4)
proof (induction ts arbitrary: at v acc)
  case (Cons t ts)
  obtain home escaped stored where t: "t = (home, escaped, stored)" by (cases t)
  let ?tag = "\<lparr>tag_home = home, tag_at = next_block l at, tag_escaped = escaped, tag_stored = stored\<rparr>"
  have "(take_tags l span ts (next_block l at) (v + 1) (acc @ [?tag]) :: ('e ReadError, _) outcome)
      = Ok (at', v', acc')"
    using Cons.prems(1) by (auto simp: t Let_def)
  from Cons.IH [OF this] show ?case
    using Cons.prems next_in_log [OF assms(1)] by auto
qed simp

lemma scan_turn_ok:
  assumes "log_shape l" "scan_turn l log bs span st = Ok (Continue st')" "scan_ok l seq st"
  shows "scan_ok l seq st'"
  using assms(2,3)
  by (auto simp: scan_turn_def scan_ok_def Let_def tags_in_log_def open_transaction_def blocks_of_def
      nth_append less_Suc_eq next_in_log [OF assms(1)]
      dest!: take_tags_in_log [OF assms(1)] split: if_splits)

lemma scan_loop_result:
  assumes "log_shape l" "scan_ok l seq st" "scan_loop l log bs span st = Ok ts"
  shows "(\<forall>t \<in> set ts. tags_in_log l t) \<and> (\<forall>i < length ts. tr_sequence (ts ! i) = seq + of_nat i)
    \<and> blocks_of ts < span"
  using assms
proof (induction l log bs span st rule: scan_loop.induct)
  case (1 l log bs span st)
  obtain t where t: "scan_turn l log bs span st = Ok t"
    using "1.prems"(3) by (subst (asm) scan_loop.simps) auto
  show ?case
  proof (cases t)
    case Break
    then have "ts = sc_committed st"
      using "1.prems"(3) t by (subst (asm) scan_loop.simps) simp
    moreover have "sc_visited st < span" using t by (auto simp: scan_turn_def Let_def)
    ultimately show ?thesis using "1.prems"(2) by (auto simp: scan_ok_def)
  next
    case (Continue st')
    then have "scan_loop l log bs span st' = Ok ts"
      using "1.prems"(3) t by (subst (asm) scan_loop.simps) simp
    then show ?thesis using "1.IH" [OF t Continue "1.prems"(1)] "1.prems" t Continue
      by (simp add: scan_turn_ok)
  qed
qed

lemma scan_result:
  assumes "log_shape l" "in_log l start" "scan l start seq bs log = Ok ts"
  shows "(\<forall>t \<in> set ts. tags_in_log l t) \<and> (\<forall>i < length ts. tr_sequence (ts ! i) = seq + of_nat i)
    \<and> blocks_of ts < max_len l - first_block l"
proof -
  let ?st = "\<lparr>sc_visited = 0, sc_at = start, sc_current = open_transaction seq, sc_committed = []\<rparr>"
  have "scan_ok l seq ?st"
    using assms(2) by (simp add: scan_ok_def tags_in_log_def open_transaction_def blocks_of_def)
  moreover have "scan_loop l log bs (max_len l - first_block l) ?st = Ok ts"
    using assms(3) by (auto simp: scan_def sub64_def split: if_splits)
  ultimately show ?thesis by (rule scan_loop_result [OF assms(1)])
qed

section \<open>The planner does not panic\<close>

lemma check_tail_no_Panic: "TAIL \<le> length block \<Longrightarrow> check_tail l block obj at \<noteq> Panic"
  by (auto simp: check_tail_def Let_def f32be.get_law TAIL_def)

lemma commit_holds_no_Panic: "20 \<le> length block \<Longrightarrow> commit_holds l block \<noteq> Panic"
  by (auto simp: commit_holds_def Let_def f32be.get_law COMMIT_CHECKSUM_def)

lemma commit_holds_no_Err: "commit_holds l block \<noteq> Err e"
  by (auto simp: commit_holds_def Let_def f32be.get_law slice_def split: if_splits)

lemma tags_loop_no_Panic: "tags_loop l block at pos out \<noteq> Panic"
proof (induction "body_end l (length block) - pos" arbitrary: pos out rule: less_induct)
  case less
  show ?case
  proof (cases "pos + tag_size l \<le> body_end l (length block)")
    case True
    then have "pos + tag_size l \<le> length block"
      by (auto simp: body_end_def split: Checksums.splits)
    then have "get_u32_be block pos \<noteq> Panic" "tag_words l block pos \<noteq> Panic"
      by (auto simp: tag_words_def tag_size_def f32be.get_law split: Checksums.splits if_splits)
    moreover have "0 < tag_size l" by (simp add: tag_size_def split: Checksums.split)
    ultimately show ?thesis using True
      by (subst tags_loop.simps) (simp only: if_True, intro andThen_no_Panic, auto simp: Let_def less split: if_splits)
  next
    case False
    then show ?thesis by (subst tags_loop.simps) simp
  qed
qed

lemma step_by_bound:
  assumes "p \<in> set (step_by a b n)" "a \<le> b" "(b - a) mod n = 0" "0 < n"
  shows "a \<le> p \<and> p + n \<le> b"
proof -
  obtain k where k: "b - a = n * k" using assms(3) by (auto elim: dvdE simp: mod_eq_0_iff_dvd)
  have "div_ceil (b - a) n = k"
    unfolding div_ceil_def k using assms(4) by (intro div_nat_eqI) (auto simp: algebra_simps)
  then obtain i where i: "i < k" "p = a + i * n" using assms(1) by (auto simp: step_by_def)
  then have "(i + 1) * n \<le> n * k" by (metis Suc_eq_plus1 Suc_leI mult.commute mult_le_mono1)
  then show ?thesis using i k assms(2) by (simp add: algebra_simps)
qed

lemma revoke_records_no_Panic:
  assumes "rec = (if wide l then 8 else 4)" "REVOKE_RECORDS \<le> count"
    "count \<le> body_end l (length block)" "(count - REVOKE_RECORDS) mod rec = 0"
  shows "mapOutcome (\<lambda>pos. if wide l then get_u64_be block pos else mapOk ucast (get_u32_be block pos))
    (step_by REVOKE_RECORDS count rec) \<noteq> Panic"
proof (rule mapOutcome_no_Panic)
  fix pos assume "pos \<in> set (step_by REVOKE_RECORDS count rec)"
  then have "pos + rec \<le> count" using assms step_by_bound by (cases "rec = 0") (auto split: if_splits)
  then have "pos + rec \<le> length block"
    using assms(3) by (auto simp: body_end_def split: Checksums.splits)
  then show "(if wide l then get_u64_be block pos else mapOk ucast (get_u32_be block pos)) \<noteq> Panic"
    using assms(1) by (auto simp: get_u64_be_def get_arr_def f32be.get_law split: if_splits)
qed

lemma revokes_no_Panic: "REVOKE_RECORDS \<le> length block \<Longrightarrow> revokes l block at \<noteq> Panic"
proof -
  assume "REVOKE_RECORDS \<le> length block"
  then have "get_u32_be block REVOKE_COUNT \<noteq> Panic"
    by (simp add: f32be.get_law REVOKE_RECORDS_def REVOKE_COUNT_def)
  then show ?thesis
    unfolding revokes_def Let_def
    by (intro andThen_no_Panic if_Err_no_Panic revoke_records_no_Panic) auto
qed

lemma take_tags_no_Panic: "span < 0xFFFFFFFF \<Longrightarrow> v \<le> span \<Longrightarrow> take_tags l span ts at v acc \<noteq> Panic"
  by (induction l span ts at v acc rule: take_tags.induct) (auto simp: visit_def Let_def)

lemma scan_turn_no_Panic:
  assumes "span < 0xFFFFFFFF" "sc_visited st \<le> span" "log_read log (sc_at st) \<noteq> Panic" "20 \<le> bs"
  shows "scan_turn l log bs span st \<noteq> Panic"
  using assms
  by (auto simp: scan_turn_def Let_def visit_def f32be.get_law tags_def tags_loop_no_Panic
      take_tags_no_Panic revokes_no_Panic commit_holds_no_Panic check_tail_no_Panic TAIL_def
      REVOKE_RECORDS_def split: if_splits)

lemma scan_loop_unfold:
  "scan_loop l log bs span st = (case scan_turn l log bs span st of
      Ok Break \<Rightarrow> Ok (sc_committed st)
    | Ok (Continue st') \<Rightarrow> scan_loop l log bs span st'
    | Err e \<Rightarrow> Err e
    | Panic \<Rightarrow> Panic)"
  by (subst scan_loop.simps) (simp split: outcome.split)

lemma scan_turn_within: "scan_turn l log bs span st = Ok (Continue st') \<Longrightarrow> sc_visited st' \<le> span"
  by (auto simp: scan_turn_def Let_def split: if_splits dest!: take_tags_within)

lemma scan_loop_no_Panic:
  assumes "log_shape l" "span < 0xFFFFFFFF" "20 \<le> bs"
    and "\<And>n. in_log l n \<Longrightarrow> log_read log n \<noteq> Panic"
    and "scan_ok l seq st" "sc_visited st \<le> span"
  shows "scan_loop l log bs span st \<noteq> Panic"
  using assms(5,6)
proof (induction "span - sc_visited st" arbitrary: st rule: less_induct)
  case less
  have turn: "scan_turn l log bs span st \<noteq> Panic"
    using less.prems assms by (intro scan_turn_no_Panic) (auto simp: scan_ok_def)
  have "scan_loop l log bs span st' \<noteq> Panic" if st': "scan_turn l log bs span st = Ok (Continue st')" for st'
  proof (rule less.hyps)
    show "span - sc_visited st' < span - sc_visited st" using scan_turn_visited [OF st'] by linarith
    show "scan_ok l seq st'" by (rule scan_turn_ok [OF assms(1) st' less.prems(1)])
    show "sc_visited st' \<le> span" by (rule scan_turn_within [OF st'])
  qed
  with turn show ?case by (subst scan_loop_unfold) (auto split: outcome.splits turn.splits)
qed

lemma scan_loop_agree:
  assumes "log_shape l" "\<And>n. in_log l n \<Longrightarrow> log_read log n = log_read log' n" "scan_ok l seq st"
  shows "scan_loop l log bs span st = scan_loop l log' bs span st"
  using assms(3)
proof (induction "span - sc_visited st" arbitrary: st rule: less_induct)
  case less
  have turn: "scan_turn l log bs span st = scan_turn l log' bs span st"
    using less.prems assms(2) by (simp add: scan_turn_def Let_def scan_ok_def)
  have "scan_loop l log bs span st' = scan_loop l log' bs span st'"
    if st': "scan_turn l log bs span st = Ok (Continue st')" for st'
  proof (rule less.hyps)
    show "span - sc_visited st' < span - sc_visited st" using scan_turn_visited [OF st'] by linarith
    show "scan_ok l seq st'" by (rule scan_turn_ok [OF assms(1) st' less.prems])
  qed
  with turn show ?case
    by (subst (1 2) scan_loop_unfold) (auto split: outcome.splits turn.splits)
qed

lemma scan_start_ok:
  "in_log l start \<Longrightarrow> scan_ok l seq
    \<lparr>sc_visited = 0, sc_at = start, sc_current = open_transaction seq, sc_committed = []\<rparr>"
  by (simp add: scan_ok_def tags_in_log_def open_transaction_def blocks_of_def)

lemma log_order_tags: "(i, seq, tag) \<in> set (log_order ts) \<Longrightarrow> \<exists>t \<in> set ts. tag \<in> set (tr_tags t)"
  by (auto simp: log_order_def in_set_enumerate_eq intro: nth_mem)

lemma foldOutcome_cong:
  "(\<And>s x. x \<in> set xs \<Longrightarrow> f s x = g s x) \<Longrightarrow> foldOutcome f s xs = foldOutcome g s xs"
  by (induction xs arbitrary: s) (auto intro: andThen_cong)

lemma foldOutcome_no_Panic:
  "(\<And>s x. x \<in> set xs \<Longrightarrow> f s x \<noteq> Panic) \<Longrightarrow> foldOutcome f s xs \<noteq> Panic"
  by (induction xs arbitrary: s) auto

lemma apply_log_agree:
  assumes "\<forall>t \<in> set ts. tags_in_log l t"
    and "\<And>n. in_log l n \<Longrightarrow> log_read log n = log_read log' n \<and> log_locate log n = log_locate log' n"
  shows "apply_log l ts fs log = apply_log l ts fs log'"
  unfolding apply_log_def Let_def
proof (rule foldOutcome_cong)
  fix r e assume e: "e \<in> set (log_order ts)"
  obtain i seq tag where ist: "e = (i, seq, tag)" by (cases e)
  then have "in_log l (tag_at tag)" using e log_order_tags assms(1) by (fastforce simp: tags_in_log_def)
  then have "log_read log (tag_at tag) = log_read log' (tag_at tag)"
    "log_locate log (tag_at tag) = log_locate log' (tag_at tag)" using assms(2) by auto
  then show "apply_tag l (last_revokes ts) fs log r e = apply_tag l (last_revokes ts) fs log' r e"
    by (simp add: apply_tag_def ist cong: if_cong)
qed

lemma apply_log_no_Panic:
  assumes "\<forall>t \<in> set ts. tags_in_log l t"
    and "\<And>n. in_log l n \<Longrightarrow> log_read log n \<noteq> Panic \<and> log_locate log n \<noteq> Panic"
  shows "apply_log l ts fs log \<noteq> Panic"
  unfolding apply_log_def Let_def
proof (rule foldOutcome_no_Panic)
  fix r e assume e: "e \<in> set (log_order ts)"
  obtain i seq tag where ist: "e = (i, seq, tag)" by (cases e)
  then have "in_log l (tag_at tag)" using e log_order_tags assms(1) by (fastforce simp: tags_in_log_def)
  then show "apply_tag l (last_revokes ts) fs log r e \<noteq> Panic"
    using assms(2) by (auto simp: apply_tag_def ist split: if_splits)
qed

text \<open>
  C4: The walk over the log returns only what the log holds: every copy it names lies between the
  journal's first log block and its end, inside the journal file; the transactions are numbered
  one after the other from the superblock's sequence number, wrapping around; and copies and
  commits together are fewer than the blocks of the log, however its fields are set.
\<close>

theorem scan_stays_in_log:
  assumes "log_layout sb bs journal_blocks = Ok l" "first_block l \<le> start" "start < max_len l"
    and "scan l start seq bs log = Ok ts"
  shows "(\<forall>t \<in> set ts. \<forall>tag \<in> set (tr_tags t).
        first_block l \<le> tag_at tag \<and> tag_at tag < max_len l \<and> tag_at tag < journal_blocks)
    \<and> (\<forall>i < length ts. tr_sequence (ts ! i) = seq + of_nat i)
    \<and> sum_list (map (\<lambda>t. length (tr_tags t) + 1) ts) < max_len l - first_block l"
  using scan_result [of l start seq bs log ts] log_layout_shape [OF assms(1)] assms(2-4)
  by (force simp: in_log_def tags_in_log_def blocks_of_def)

lemma superblock_checksum_no_Panic: "SUPERBLOCK_SIZE \<le> length sb \<Longrightarrow> superblock_checksum sb \<noteq> Panic"
  by (auto simp: superblock_checksum_def Let_def SUPERBLOCK_SIZE_def offset_CHECKSUM_def)

lemma superblock_read_no_Panic:
  assumes "\<not> length sb < SUPERBLOCK_SIZE" "k < 1000"
  shows "get_u32_be sb k \<noteq> Panic" "get_u8 sb k \<noteq> Panic" "slice sb k (k + 16) \<noteq> Panic"
  using assms by (auto simp: f32be.get_law f8.get_law slice_def SUPERBLOCK_SIZE_def)

lemma log_layout_no_Panic: "log_layout sb bs jb \<noteq> Panic"
proof (cases "length sb < SUPERBLOCK_SIZE")
  case False
  note reads = superblock_read_no_Panic [OF False] superblock_checksum_no_Panic [of sb]
  show ?thesis
    unfolding log_layout_def
    by (intro if_Err_no_Panic andThen_no_Panic reads)
      (use False in \<open>auto simp: journal_offsets reads split: bool.splits\<close>)
qed (simp add: log_layout_def)

text \<open>
  The plan of a log that is not empty, from its layout on.
\<close>

lemma plan_cases:
  obtains (fails) e where "\<And>log :: 'e Log. plan sb bs fs jb log = Err e"
  | (empty) "\<And>log :: 'e Log. plan sb bs fs jb log =
      Ok \<lparr>copies = Map.empty, transactions = 0, skipped = []\<rparr>"
  | (walk) l start seq where "log_shape l" "in_log l start" "max_len l \<le> jb"
      "\<And>log :: 'e Log. plan sb bs fs jb log =
         andThen (scan l start seq bs log) (\<lambda>ts. apply_log l ts fs log)"
proof (cases "log_layout sb bs jb :: ('e ReadError, LogLayout) outcome")
  case (Err e)
  then show ?thesis using fails [of e] by (simp add: plan_def)
next
  case Panic
  then show ?thesis using log_layout_no_Panic by blast
next
  case (Ok l)
  have size: "SUPERBLOCK_SIZE \<le> length sb" "log_shape l" "max_len l \<le> jb"
    using log_layout_shape [OF Ok] by auto
  define start where "start = (from_be (take 4 (drop offset_START sb)) :: u32)"
  define seq where "seq = (from_be (take 4 (drop offset_SEQUENCE sb)) :: u32)"
  have "plan sb bs fs jb log = (if start = 0 then Ok \<lparr>copies = Map.empty, transactions = 0, skipped = []\<rparr>
     else if unat start < first_block l \<or> max_len l \<le> unat start
     then Err (JournalMalformed 0 ''a log start outside the journal'')
     else andThen (scan l (unat start) seq bs log) (\<lambda>ts. apply_log l ts fs log))" for log :: "'e Log"
    using size(1) by (simp add: plan_def Ok f32be.get_law start_def seq_def SUPERBLOCK_SIZE_def
      offset_START_def offset_SEQUENCE_def)
  then show ?thesis using empty fails walk [of l "unat start" seq] size
    by (cases "start = 0"; cases "unat start < first_block l \<or> max_len l \<le> unat start")
      (auto simp: in_log_def not_less)
qed

text \<open>
  C5: Planning a recovery is total and reads only the log. It always returns: it never panics on
  a log whose reads do not, for any superblock and any block contents (a block has room for a
  commit record, twenty bytes). And it decides everything from the blocks past the superblock
  and inside the journal file: two images whose logs agree there get the same plan.
\<close>

theorem plan_total_and_local:
  fixes log log' :: "'e Log"
  assumes "20 \<le> block_size"
    and "\<forall>n. 0 < n \<and> n < journal_blocks \<longrightarrow> log_read log n \<noteq> Panic \<and> log_locate log n \<noteq> Panic"
    and "\<forall>n. 0 < n \<and> n < journal_blocks \<longrightarrow>
      log_read log n = log_read log' n \<and> log_locate log n = log_locate log' n"
  shows "plan superblock block_size fs_blocks journal_blocks log \<noteq> Panic
    \<and> plan superblock block_size fs_blocks journal_blocks log =
      plan superblock block_size fs_blocks journal_blocks log'"
proof (rule plan_cases [of superblock block_size fs_blocks journal_blocks])
  fix l start seq
  assume l: "log_shape l" "in_log l start" "max_len l \<le> journal_blocks"
    and plan: "\<And>log :: 'e Log. plan superblock block_size fs_blocks journal_blocks log =
      andThen (scan l start seq block_size log) (\<lambda>ts. apply_log l ts fs_blocks log)"
  have range: "0 < n \<and> n < journal_blocks" if "in_log l n" for n
    using that l(1,3) by (auto simp: in_log_def log_shape_def)
  let ?st = "\<lparr>sc_visited = 0, sc_at = start, sc_current = open_transaction seq, sc_committed = []\<rparr>"
  have span: "first_block l \<le> max_len l" "max_len l - first_block l < 0xFFFFFFFF"
    using l(1) by (auto simp: log_shape_def MAX_JOURNAL_BLOCKS_def)
  have "scan l start seq block_size log \<noteq> Panic"
    using scan_loop_no_Panic [OF l(1) span(2) assms(1) _ scan_start_ok [OF l(2)], of log] assms(2) range span
    by (simp add: scan_def)
  moreover have "scan l start seq block_size log = scan l start seq block_size log'"
    using scan_loop_agree [OF l(1) _ scan_start_ok [OF l(2)], of log log'] assms(3) range span
    by (simp add: scan_def)
  moreover have "apply_log l ts fs_blocks log \<noteq> Panic \<and> apply_log l ts fs_blocks log = apply_log l ts fs_blocks log'"
    if "scan l start seq block_size log = Ok ts" for ts
    using scan_result [OF l(1,2) that] apply_log_no_Panic [of ts l log] apply_log_agree [of ts l log log']
      assms(2,3) range by blast
  ultimately show ?thesis by (cases "scan l start seq block_size log'") (auto simp: plan)
qed simp_all

theorem plan_total_and_local_witness:
  "plan (replicate 1024 7) 1024 100 16 (\<lparr>log_locate = Ok, log_read = (\<lambda>n. Ok [of_nat n])\<rparr> :: nat Log) \<noteq> Panic"
  using plan_total_and_local [of 1024 16 "\<lparr>log_locate = Ok, log_read = (\<lambda>n. Ok [of_nat n])\<rparr> :: nat Log"
      "\<lparr>log_locate = Ok, log_read = (\<lambda>n. Ok [of_nat n])\<rparr>" "replicate 1024 7" 100]
  by simp

section \<open>A freshly formatted journal\<close>

lemma fresh_superblock:
  assumes "length (jp_uuid p) = 16" "SUPERBLOCK_SIZE \<le> unat (jp_block_size p)"
  shows "\<exists>b. build_superblock p = Ok b \<and> length b = unat (jp_block_size p)
    \<and> (\<forall>(k, v) \<in> set [(0, JBD2_MAGIC), (4, JBD2_SUPERBLOCK_V2), (offset_FEATURE_COMPAT, 0),
          (offset_FEATURE_INCOMPAT, 0), (offset_FEATURE_RO_COMPAT, 0),
          (offset_BLOCK_SIZE, jp_block_size p), (offset_MAX_LEN, jp_journal_blocks p),
          (offset_FIRST, 1), (offset_START, 0)]. get_u32_be b k = (Ok v :: ('e, u32) outcome))
    \<and> get_arr 16 b offset_UUID = (Ok (jp_uuid p) :: ('e, bytes) outcome)"
  using assms
  by (simp add: build_superblock_def Let_def f32be.put_law put_arr_def splice_reads get_u32_be_zeros
      get_arr_splice_same get_arr_splice_other journal_offsets SUPERBLOCK_SIZE_def)

lemma fresh_layout:
  assumes "length (jp_uuid p) = 16" "SUPERBLOCK_SIZE \<le> unat (jp_block_size p)" "build_superblock p = Ok b"
    and "1 < jp_journal_blocks p" "unat (jp_journal_blocks p) \<le> MAX_JOURNAL_BLOCKS"
    and "unat (jp_journal_blocks p) \<le> journal_blocks"
  shows "(log_layout b (unat (jp_block_size p)) journal_blocks :: ('e ReadError, _) outcome) =
    Ok \<lparr>max_len = unat (jp_journal_blocks p), first_block = 1, checksums = NoSums, wide = False,
        seed = crc32c (NOT 0) (jp_uuid p)\<rparr>
    \<and> (get_u32_be b offset_START :: ('e ReadError, _) outcome) = Ok 0"
proof -
  have frst: "\<not> jp_journal_blocks p \<le> 1" using assms(4) by simp
  show ?thesis using fresh_superblock [OF assms(1,2), where ?'e = "'e ReadError"] assms(2-6) frst
    by (auto simp: log_layout_def get_arr_def not_le)
qed

text \<open>
  C6: Formatting leaves nothing to recover. The journal superblock built for the size the
  formatter picks is one the planner accepts, and its plan is empty, whatever blocks the rest of
  the journal holds.
\<close>

theorem fresh_journal_replays_nothing:
  fixes log :: "'e Log"
  assumes "default_journal_blocks num_blocks = Some j" "length uuid = 16"
    and "SUPERBLOCK_SIZE \<le> unat bs" "j \<le> journal_blocks"
    and "build_superblock \<lparr>jp_block_size = bs, jp_journal_blocks = of_nat j, jp_uuid = uuid\<rparr> = Ok b"
  shows "plan b (unat bs) fs_blocks journal_blocks log =
    Ok \<lparr>copies = Map.empty, transactions = 0, skipped = []\<rparr>"
proof -
  let ?p = "\<lparr>jp_block_size = bs, jp_journal_blocks = of_nat j, jp_uuid = uuid\<rparr>"
  have j: "1 < j" "j \<le> 262144"
    using assms(1) by (auto simp: default_journal_blocks_def split: if_splits)
  then have unat: "unat (of_nat j :: u32) = j" by (intro unat_of_nat_small) simp
  have "(1 :: u32) < of_nat j" using j unat by (simp add: word_less_nat_alt)
  then show ?thesis
    using fresh_layout [of ?p b journal_blocks, where ?'e = 'e] assms j unat by (simp add: plan_def MAX_JOURNAL_BLOCKS_def)
qed

theorem fresh_journal_replays_nothing_witness:
  "\<exists>b. build_superblock \<lparr>jp_block_size = 4096, jp_journal_blocks = 4096, jp_uuid = replicate 16 3\<rparr> = Ok b
    \<and> plan b 4096 100000 4096 (\<lparr>log_locate = Ok, log_read = (\<lambda>n. Ok [])\<rparr> :: nat Log)
      = Ok \<lparr>copies = Map.empty, transactions = 0, skipped = []\<rparr>"
proof -
  let ?p = "\<lparr>jp_block_size = 4096, jp_journal_blocks = 4096, jp_uuid = replicate 16 3\<rparr> :: JournalParams"
  obtain b where b: "build_superblock ?p = Ok b"
    using fresh_superblock [of ?p] by (auto simp: SUPERBLOCK_SIZE_def)
  then show ?thesis
    using fresh_journal_replays_nothing [of 100000 4096 "replicate 16 3" 4096 4096 b 100000]
    by (simp add: default_journal_blocks_def SUPERBLOCK_SIZE_def)
qed

text \<open>A log of one empty committed transaction, and zeroes after it.\<close>

definition commit_log :: "nat Log" where
  "commit_log = \<lparr>log_locate = Ok, log_read = (\<lambda>n. Ok (if n = 1
     then to_be 4 JBD2_MAGIC @ to_be 4 BLOCKTYPE_COMMIT @ to_be 4 (1 :: u32) @ replicate 1012 0
     else replicate 1024 0))\<rparr>"

theorem scan_stays_in_log_witness:
  "\<exists>b l ts. build_superblock \<lparr>jp_block_size = 1024, jp_journal_blocks = 1024, jp_uuid = replicate 16 3\<rparr> = Ok b
    \<and> log_layout b 1024 1024 = (Ok l :: (nat ReadError, LogLayout) outcome)
    \<and> scan l 1 1 1024 commit_log = Ok ts \<and> length ts = 1 \<and> tr_sequence (ts ! 0) = 1"
proof -
  let ?p = "\<lparr>jp_block_size = 1024, jp_journal_blocks = 1024, jp_uuid = replicate 16 3\<rparr> :: JournalParams"
  obtain b where b: "build_superblock ?p = Ok b"
    using fresh_superblock [of ?p] by (auto simp: SUPERBLOCK_SIZE_def)
  let ?l = "\<lparr>max_len = 1024, first_block = 1, checksums = NoSums, wide = False,
      seed = crc32c (NOT 0) (replicate 16 3)\<rparr> :: LogLayout"
  have l: "log_layout b 1024 1024 = (Ok ?l :: (nat ReadError, LogLayout) outcome)"
    using fresh_layout [of ?p b 1024, where ?'e = nat] b
    by (simp add: SUPERBLOCK_SIZE_def MAX_JOURNAL_BLOCKS_def)
  obtain t where t: "scan ?l 1 1 1024 commit_log = Ok [t]"
    by (simp add: scan_def scan_loop_unfold scan_turn_def commit_log_def f32be.get_law open_transaction_def
      visit_def Let_def block_types commit_holds_def next_block_def from_be_def to_be_def)
  show ?thesis using b l t scan_stays_in_log [OF l _ _ t] by auto
qed

section \<open>The reader's memo of its block map\<close>

text \<open>
  \<^verbatim>\<open>JournalLog\<close> of \<^verbatim>\<open>read.rs\<close> answers \<^verbatim>\<open>locate\<close> from the window of the journal file's map it looked
  up last. \<open>map_window\<close> stands for the reader's own block mapping.
\<close>

definition MAP_WINDOW_BLOCKS :: nat where "MAP_WINDOW_BLOCKS = 4096"

type_synonym window = "(nat \<times> nat list) option"

definition window_block :: "nat list \<Rightarrow> nat \<Rightarrow> nat \<Rightarrow> ('e ReadError, nat) outcome" where
  "window_block blocks n start =
     (let at = (if n - start < length blocks then blocks ! (n - start) else 0)
      in if at = 0 then Err (JournalMalformed n ''a log block the journal file does not map'') else Ok at)"

definition journal_locate ::
  "(nat \<Rightarrow> nat \<Rightarrow> ('e ReadError, nat list) outcome) \<Rightarrow> window \<Rightarrow> nat \<Rightarrow> ('e ReadError, nat) outcome \<times> window" where
  "journal_locate map_window w n =
     (let start = n - n mod MAP_WINDOW_BLOCKS in
      case w of
        Some (first, blocks) \<Rightarrow>
          if first = start then (window_block blocks n start, w)
          else (case map_window start MAP_WINDOW_BLOCKS of
                  Ok blocks \<Rightarrow> (window_block blocks n start, Some (start, blocks))
                | Err e \<Rightarrow> (Err e, w) | Panic \<Rightarrow> (Panic, w))
      | None \<Rightarrow>
          (case map_window start MAP_WINDOW_BLOCKS of
             Ok blocks \<Rightarrow> (window_block blocks n start, Some (start, blocks))
           | Err e \<Rightarrow> (Err e, w) | Panic \<Rightarrow> (Panic, w)))"

text \<open>The same, looked up afresh each time; and a memo that holds what the map says.\<close>

definition locate_afresh ::
  "(nat \<Rightarrow> nat \<Rightarrow> ('e ReadError, nat list) outcome) \<Rightarrow> nat \<Rightarrow> ('e ReadError, nat) outcome" where
  "locate_afresh map_window n =
     (let start = n - n mod MAP_WINDOW_BLOCKS
      in andThen (map_window start MAP_WINDOW_BLOCKS) (\<lambda>blocks. window_block blocks n start))"

definition memo_holds :: "(nat \<Rightarrow> nat \<Rightarrow> ('e ReadError, nat list) outcome) \<Rightarrow> window \<Rightarrow> bool" where
  "memo_holds map_window w = (case w of None \<Rightarrow> True
     | Some (first, blocks) \<Rightarrow> map_window first MAP_WINDOW_BLOCKS = Ok blocks)"

fun locate_all ::
  "(nat \<Rightarrow> nat \<Rightarrow> ('e ReadError, nat list) outcome) \<Rightarrow> window \<Rightarrow> nat list \<Rightarrow> ('e ReadError, nat) outcome list" where
  "locate_all map_window w [] = []"
| "locate_all map_window w (n # ns) =
     (let (at, w') = journal_locate map_window w n in at # locate_all map_window w' ns)"

lemma journal_locate_afresh:
  assumes "memo_holds map_window w"
  shows "fst (journal_locate map_window w n) = locate_afresh map_window n
    \<and> memo_holds map_window (snd (journal_locate map_window w n))"
  using assms
  by (auto simp: journal_locate_def locate_afresh_def memo_holds_def Let_def
      split: option.splits outcome.splits)

text \<open>
  C7: The memo is invisible. Whatever blocks of the log are located, in whatever order, the answers
  are those of looking the map up afresh for each, so the planner may treat the log as a
  function of the block number.
\<close>

theorem locate_memo_invisible:
  "locate_all map_window None ns = map (locate_afresh map_window) ns"
proof -
  have "memo_holds map_window w \<Longrightarrow> locate_all map_window w ns = map (locate_afresh map_window) ns" for w
    by (induction ns arbitrary: w)
      (use journal_locate_afresh in \<open>fastforce simp: case_prod_unfold Let_def\<close>)+
  then show ?thesis by (simp add: memo_holds_def)
qed

end
