(* ===== verification/Dirent.thy ===== *)
theory Dirent
  imports OnDisk
begin

text \<open>
  The directory record of \<^verbatim>\<open>ondisk/dirent.rs\<close>: a variable-length entry, the sixteen-bit encoding
  of its length, and the checksum tail that closes a block by looking like an unused entry.

  A \<^verbatim>\<open>debug_assert!\<close> is compiled in under the profile the code is tested with, so a failing one is a
  panic here too.
\<close>

section \<open>The code\<close>

definition DIR_TAIL_LEN :: nat where "DIR_TAIL_LEN = 12"
definition DIR_TAIL_FT :: u8 where "DIR_TAIL_FT = 0xde"

definition debug_assert :: "bool \<Rightarrow> ('e, 'a) outcome \<Rightarrow> ('e, 'a) outcome" where
  "debug_assert c m = (if c then m else Panic)"

definition next_multiple_of :: "nat \<Rightarrow> nat \<Rightarrow> nat" where
  "next_multiple_of a b = div_ceil a b * b"

definition min_rec_len :: "nat \<Rightarrow> ('e, nat) outcome" where
  "min_rec_len name_len =
     debug_assert (name_len \<le> 255) (Ok (min (next_multiple_of (8 + name_len) 4) 0xFFFF))"

definition rec_len_from_disk :: "u16 \<Rightarrow> nat \<Rightarrow> nat" where
  "rec_len_from_disk disk block_size =
     (if block_size < 65536 then unat disk
      else if disk = 0xFFFF \<or> disk = 0 then block_size
      else unat ((ucast disk AND 0xFFFC) OR push_bit 16 (ucast disk AND 3) :: u64))"

definition rec_len_to_disk :: "nat \<Rightarrow> nat \<Rightarrow> ('e, u16) outcome" where
  "rec_len_to_disk len block_size =
     debug_assert (len \<le> block_size)
       (if block_size < 65536 then Ok (of_nat (min len 0xFFFF))
        else if len < 65536 then Ok (of_nat len)
        else Ok 0xFFFF)"

datatype FileType = Unknown | RegFile | Dir | CharDev | BlockDev | Fifo | Socket | Symlink

fun file_type_to_u8 :: "FileType \<Rightarrow> u8" where
  "file_type_to_u8 Unknown = 0"
| "file_type_to_u8 RegFile = 1"
| "file_type_to_u8 Dir = 2"
| "file_type_to_u8 CharDev = 3"
| "file_type_to_u8 BlockDev = 4"
| "file_type_to_u8 Fifo = 5"
| "file_type_to_u8 Socket = 6"
| "file_type_to_u8 Symlink = 7"

definition file_type_from_u8 :: "u8 \<Rightarrow> FileType" where
  "file_type_from_u8 v =
     (if v = 1 then RegFile else if v = 2 then Dir else if v = 3 then CharDev
      else if v = 4 then BlockDev else if v = 5 then Fifo else if v = 6 then Socket
      else if v = 7 then Symlink else Unknown)"

definition file_type_from_mode :: "u16 \<Rightarrow> FileType" where
  "file_type_from_mode mode =
     (let m = mode AND 0xF000 in
      if m = 0x8000 then RegFile else if m = 0x4000 then Dir else if m = 0x2000 then CharDev
      else if m = 0x6000 then BlockDev else if m = 0x1000 then Fifo else if m = 0xC000 then Socket
      else if m = 0xA000 then Symlink else Unknown)"

record DirEntry =
  de_inode :: u32
  de_type :: FileType
  de_name :: bytes

definition dirent_write_to :: "DirEntry \<Rightarrow> bytes \<Rightarrow> nat \<Rightarrow> nat \<Rightarrow> (ParseError, bytes) outcome" where
  "dirent_write_to e buf rec_len block_size =
     (if 255 < length (de_name e) then Err (InvalidField ''DirEntry'' ''name_len'' (length (de_name e)))
      else
      andThen (min_rec_len (length (de_name e))) (\<lambda>need.
      if rec_len < need \<or> rec_len mod 4 \<noteq> 0 then Err (InvalidField ''DirEntry'' ''rec_len'' rec_len)
      else if length buf < rec_len then Err (TooShort ''DirEntry'' rec_len (length buf))
      else
      andThen (put_u32 buf 0 (de_inode e)) (\<lambda>buf.
      andThen (rec_len_to_disk rec_len block_size) (\<lambda>disk.
      andThen (put_u16 buf 4 disk) (\<lambda>buf.
      andThen (put_u8 buf 6 (of_nat (length (de_name e)))) (\<lambda>buf.
      andThen (put_u8 buf 7 (file_type_to_u8 (de_type e))) (\<lambda>buf.
      put_arr buf 8 (de_name e))))))))"

definition dirent_read_from :: "bytes \<Rightarrow> nat \<Rightarrow> (ParseError, DirEntry \<times> nat) outcome" where
  "dirent_read_from buf block_size =
     (if length buf < 8 then Err (TooShort ''DirEntry'' 8 (length buf))
      else
      andThen (get_u32 buf 0) (\<lambda>inode.
      andThen (get_u16 buf 4) (\<lambda>disk.
      let rec_len = rec_len_from_disk disk block_size in
      andThen (get_u8 buf 6) (\<lambda>nl.
      let name_len = unat nl in
      andThen (get_u8 buf 7) (\<lambda>ft.
      if rec_len mod 4 \<noteq> 0 \<or> rec_len < 8 + name_len
      then Err (InvalidField ''DirEntry'' ''rec_len'' rec_len)
      else if length buf < rec_len then Err (TooShort ''DirEntry'' rec_len (length buf))
      else
      andThen (slice buf 8 (8 + name_len)) (\<lambda>name.
      Ok (\<lparr>de_inode = inode, de_type = file_type_from_u8 ft, de_name = name\<rparr>, rec_len)))))))"

definition write_dir_tail :: "bytes \<Rightarrow> u32 \<Rightarrow> (ParseError, bytes) outcome" where
  "write_dir_tail buf checksum =
     (if length buf < DIR_TAIL_LEN then Err (TooShort ''DirEntryTail'' DIR_TAIL_LEN (length buf))
      else
      andThen (put_u32 buf 0 0) (\<lambda>buf.
      andThen (put_u16 buf 4 (of_nat DIR_TAIL_LEN)) (\<lambda>buf.
      andThen (put_u8 buf 6 0) (\<lambda>buf.
      andThen (put_u8 buf 7 DIR_TAIL_FT) (\<lambda>buf.
      put_u32 buf 8 checksum)))))"

section \<open>Record lengths\<close>

lemma file_type_from_to_u8 [simp]: "file_type_from_u8 (file_type_to_u8 t) = t"
  by (cases t) (simp_all add: file_type_from_u8_def)

lemma next_multiple_of_bounds:
  assumes "0 < b" shows "a \<le> next_multiple_of a b \<and> next_multiple_of a b < a + b \<and> next_multiple_of a b mod b = 0"
proof -
  obtain c where c: "b = Suc c" using assms by (cases b) auto
  define r where "r = (a + c) mod b"
  have "a + c = next_multiple_of a b + r"
    using div_mult_mod_eq [of "a + c" b] by (simp add: next_multiple_of_def div_ceil_def c r_def)
  moreover have "r \<le> c" using c mod_less_divisor [OF assms, of "a + c"] by (simp add: r_def)
  moreover have "next_multiple_of a b mod b = 0" by (simp add: next_multiple_of_def)
  ultimately show ?thesis using c by linarith
qed

definition rec_len_of :: "nat \<Rightarrow> nat" where
  "rec_len_of name_len = next_multiple_of (8 + name_len) 4"

lemma rec_len_of_bounds:
  "8 + n \<le> rec_len_of n" "rec_len_of n < 12 + n" "rec_len_of n mod 4 = 0"
  using next_multiple_of_bounds [of 4 "8 + n"] by (simp_all add: rec_len_of_def)

lemma min_rec_len_eq: "min_rec_len n = (if n \<le> 255 then Ok (rec_len_of n) else Panic)"
  using rec_len_of_bounds(2) [of n] by (simp add: min_rec_len_def debug_assert_def rec_len_of_def)

lemma masked_length:
  assumes "d AND 3 = (0 :: u16)"
  shows "(ucast d AND 0xFFFC) OR push_bit 16 (ucast d AND 3) = (ucast d :: u64)"
proof (rule bit_word_eqI)
  fix i :: nat assume "i < LENGTH(64)"
  have hi: "(0xFFFC :: u64) = push_bit 2 (mask 14)" and lo: "(3 :: u64) = mask 2" and lo16: "(3 :: u16) = mask 2"
    by (simp_all add: mask_eq_exp_minus_1 push_bit_eq_mult)
  have low: "\<not> bit d 0 \<and> \<not> bit d 1"
    using arg_cong [OF assms, of "\<lambda>x. bit x 0"] arg_cong [OF assms, of "\<lambda>x. bit x 1"] unfolding lo16 by (simp add: bit_simps)
  have "\<not> (i - 16 < 2 \<and> bit d (i - 16))"
  proof
    assume "i - 16 < 2 \<and> bit d (i - 16)"
    moreover from this have "i - 16 = 0 \<or> i - 16 = 1" by linarith
    ultimately show False using low by auto
  qed
  moreover have "bit d i \<Longrightarrow> 2 \<le> i" using low by (cases "i < 2") (auto simp: less_2_cases_iff)
  moreover have "bit d i \<Longrightarrow> i < 16" using bit_imp_le_length [of d i] by simp
  ultimately show "bit ((ucast d AND 0xFFFC) OR push_bit 16 (ucast d AND 3) :: u64) i = bit (ucast d :: u64) i"
    unfolding hi lo by (auto simp: bit_simps)
qed

text \<open>The length field a record of \<open>k\<close> bytes carries.\<close>

definition disk_len :: "nat \<Rightarrow> nat \<Rightarrow> u16" where
  "disk_len k block_size = (if block_size < 65536 then of_nat (min k 0xFFFF)
     else if k < 65536 then of_nat k else 0xFFFF)"

lemma rec_len_to_disk_eq: "k \<le> block_size \<Longrightarrow> rec_len_to_disk k block_size = Ok (disk_len k block_size)"
  by (simp add: rec_len_to_disk_def debug_assert_def disk_len_def)

text \<open>Every length a block can hold survives the sixteen-bit field, at every block size ext4 has.\<close>

lemma disk_len_back:
  assumes "len \<le> block_size" "block_size \<le> 65536" "len mod 4 = 0" "0 < len"
  shows "rec_len_from_disk (disk_len len block_size) block_size = len"
proof -
  consider "block_size < 65536" | "block_size = 65536" "len < 65536" | "block_size = 65536" "len = 65536"
    using assms by linarith
  then show ?thesis
  proof cases
    case 1
    then show ?thesis using assms
      by (simp add: disk_len_def rec_len_from_disk_def unat_of_nat_small)
  next
    case 2
    define d where "d = (of_nat len :: u16)"
    have u: "unat d = len" using 2 unfolding d_def by (intro unat_of_nat_small) simp
    have "d \<noteq> 0" using u assms(4) by auto
    moreover have "d \<noteq> 0xFFFF" using u assms(3) by auto
    moreover have "d AND 3 = 0"
    proof -
      have "unat (take_bit 2 d) = 0" using u assms(3) by (simp add: take_bit_eq_mod unat_mod)
      then have "take_bit 2 d = 0" by (simp only: unat_eq_0)
      then show ?thesis by (simp add: take_bit_eq_mask mask_eq_exp_minus_1)
    qed
    ultimately have "rec_len_from_disk d block_size = len"
      using 2 masked_length [of d] u by (simp add: rec_len_from_disk_def unat_ucast_up)
    then show ?thesis using 2 by (simp add: disk_len_def d_def)
  next
    case 3
    then show ?thesis by (simp add: disk_len_def rec_len_from_disk_def)
  qed
qed

section \<open>Entries\<close>

text \<open>Entries as the format allows them: a name of at most 255 bytes.\<close>

definition valid_entry :: "DirEntry \<Rightarrow> bool" where
  "valid_entry e \<longleftrightarrow> length (de_name e) \<le> 255"

text \<open>The bytes of a record of \<open>k\<close> bytes whose length field holds \<open>d\<close>.\<close>

definition record_bytes :: "DirEntry \<Rightarrow> u16 \<Rightarrow> nat \<Rightarrow> bytes" where
  "record_bytes e d k = to_le 4 (de_inode e) @ to_le 2 d
     @ [of_nat (length (de_name e)), file_type_to_u8 (de_type e)] @ de_name e
     @ replicate (k - 8 - length (de_name e)) 0"

lemma length_record_bytes:
  "8 + length (de_name e) \<le> k \<Longrightarrow> length (record_bytes e d k) = k"
  by (simp add: record_bytes_def)

lemma dirent_write_zeros:
  assumes "valid_entry e" "rec_len_of (length (de_name e)) = k" "k \<le> block_size"
  shows "dirent_write_to e (replicate k 0) k block_size = Ok (record_bytes e (disk_len k block_size) k)"
proof -
  have "8 + length (de_name e) \<le> k" "k mod 4 = 0"
    using rec_len_of_bounds [of "length (de_name e)"] assms(2) by simp_all
  then show ?thesis using assms
    by (simp add: dirent_write_to_def valid_entry_def min_rec_len_eq rec_len_to_disk_eq put_laws put_arr_def
        splice_def record_bytes_def numeral_2_eq_2 numeral_3_eq_3 min_def del: to_le.simps) linarith
qed

lemma dirent_read_record:
  assumes "valid_entry e" "8 + length (de_name e) \<le> k" "rec_len_from_disk d block_size = len"
    and "len mod 4 = 0" "8 + length (de_name e) \<le> len" "len \<le> k + length rest"
  shows "dirent_read_from (record_bytes e d k @ rest) block_size = Ok (e, len)"
proof -
  have "unat (of_nat (length (de_name e)) :: u8) = length (de_name e)"
    using assms(1) by (intro unat_of_nat_small) (simp add: valid_entry_def)
  then show ?thesis using assms
    by (simp add: dirent_read_from_def record_bytes_def get_laws Let_def del: to_le.simps)
qed

lemma dirent_read_rec_len:
  "dirent_read_from buf block_size = Ok (e, len) \<Longrightarrow> 8 \<le> len \<and> len \<le> length buf"
  by (auto simp: dirent_read_from_def Let_def split: if_splits)

lemma dirent_read_no_Panic: "dirent_read_from buf block_size \<noteq> Panic"
  by (auto simp: dirent_read_from_def Let_def get_laws slice_def)

end
