(* ===== verification/ReadDir.thy ===== *)
theory ReadDir
  imports Dirent ReadErr
begin

text \<open>
  How the ext reader walks a directory block, \<^verbatim>\<open>for_each_entry_in_block\<close> of \<^verbatim>\<open>read.rs\<close>, with the
  two checks it makes where bytes become a name and a reference. The visitor of the code is a
  closure over mutable state; here it is a function of that state.
\<close>

section \<open>The code\<close>

definition is_hostile_entry :: "bytes \<Rightarrow> bool" where
  "is_hostile_entry name \<longleftrightarrow> name = [] \<or> 0x2f \<in> set name \<or> 0 \<in> set name"

definition check_dir_entry_inode :: "u32 \<Rightarrow> u32 \<Rightarrow> ('e ReadError, unit) outcome" where
  "check_dir_entry_inode inodes_count inode =
     (if inodes_count < inode then Err (DirEntryNoSuchInode inode) else Ok ())"

text \<open>What the walk uses of the reader: its block size, the superblock's inode count, and whether its policy refuses a structural fault.\<close>

record DirReader =
  rd_block_size :: nat
  rd_inodes_count :: u32
  rd_fatal :: bool

text \<open>\<^verbatim>\<open>std::ops::ControlFlow\<close>, with the visitor's state.\<close>

datatype 's flow = CfBreak 's | CfContinue 's

definition entry_fault :: "DirReader \<Rightarrow> DirEntry \<Rightarrow> 'e ReadError option" where
  "entry_fault r e =
     (if is_hostile_entry (de_name e) then Some (HostileName (de_inode e))
      else case check_dir_entry_inode (rd_inodes_count r) (de_inode e) of
             Err f \<Rightarrow> Some f | _ \<Rightarrow> None)"

function walk_block ::
  "DirReader \<Rightarrow> ('s \<Rightarrow> DirEntry \<Rightarrow> ('e ReadError, 's flow) outcome) \<Rightarrow> bytes \<Rightarrow> nat \<Rightarrow> 's \<Rightarrow>
    ('e ReadError, 's flow) outcome" where
  "walk_block r visit block off s =
     (if off < rd_block_size r then
        andThen (slice block off (length block)) (\<lambda>rest.
        andThen (mapErr ParseFault (dirent_read_from rest (rd_block_size r))) (\<lambda>(entry, rec_len).
        if rec_len = 0 then Err BadDirectory
        else if de_inode entry \<noteq> 0 then
          (case entry_fault r entry of
             Some e \<Rightarrow> if rd_fatal r then Err e else walk_block r visit block (off + rec_len) s
           | None \<Rightarrow>
               andThen (visit s entry) (\<lambda>keep.
               case keep of
                 CfBreak s \<Rightarrow> Ok (CfBreak s)
               | CfContinue s \<Rightarrow> walk_block r visit block (off + rec_len) s))
        else walk_block r visit block (off + rec_len) s))
      else Ok (CfContinue s))"
  by pat_completeness auto
termination
  by (relation "measure (\<lambda>(r, visit, block, off, s). rd_block_size r - off)") auto

declare walk_block.simps [simp del]

text \<open>
  \<^verbatim>\<open>for_each_dir_entry\<close>: the directory's blocks in logical order, those its map does not name left
  out and those it names twice walked once. \<open>read\<close> is the reader's own block read.
\<close>

fun walk_dir ::
  "DirReader \<Rightarrow> (nat \<Rightarrow> ('e ReadError, bytes) outcome) \<Rightarrow> ('s \<Rightarrow> DirEntry \<Rightarrow> ('e ReadError, 's flow) outcome) \<Rightarrow>
    nat set \<Rightarrow> nat list \<Rightarrow> 's \<Rightarrow> ('e ReadError, 's flow) outcome" where
  "walk_dir r read visit seen [] s = Ok (CfContinue s)"
| "walk_dir r read visit seen (phys # ps) s =
     (if phys = 0 \<or> phys \<in> seen then walk_dir r read visit seen ps s
      else
        andThen (read phys) (\<lambda>block.
        andThen (walk_block r visit block 0 s) (\<lambda>keep.
        case keep of
          CfBreak s \<Rightarrow> Ok (CfBreak s)
        | CfContinue s \<Rightarrow> walk_dir r read visit (insert phys seen) ps s)))"

section \<open>Walking records\<close>

fun visit_all :: "('s \<Rightarrow> DirEntry \<Rightarrow> ('e ReadError, 's flow) outcome) \<Rightarrow> 's \<Rightarrow> DirEntry list \<Rightarrow>
    ('e ReadError, 's flow) outcome" where
  "visit_all visit s [] = Ok (CfContinue s)"
| "visit_all visit s (e # es) =
     andThen (visit s e) (\<lambda>keep. case keep of
       CfBreak s \<Rightarrow> Ok (CfBreak s) | CfContinue s \<Rightarrow> visit_all visit s es)"

text \<open>An entry the reader shows: in use, with a name a directory can hold and an inode that exists.\<close>

definition shown :: "DirReader \<Rightarrow> DirEntry \<Rightarrow> bool" where
  "shown r e \<longleftrightarrow> de_inode e \<noteq> 0 \<and> \<not> is_hostile_entry (de_name e) \<and> de_inode e \<le> rd_inodes_count r"

lemma entry_fault_None: "shown r e \<Longrightarrow> entry_fault r e = None"
  by (auto simp: shown_def entry_fault_def check_dir_entry_inode_def)

text \<open>A record as the walk meets it: its entry, its length field and the bytes it spans.\<close>

type_synonym rec = "DirEntry \<times> u16 \<times> nat"

definition rec_ok :: "nat \<Rightarrow> rec \<Rightarrow> bool" where
  "rec_ok block_size = (\<lambda>(e, d, k). valid_entry e \<and> rec_len_from_disk d block_size = k
     \<and> k mod 4 = 0 \<and> 8 + length (de_name e) \<le> k)"

definition recs_bytes :: "rec list \<Rightarrow> bytes" where
  "recs_bytes rs = concat (map (\<lambda>(e, d, k). record_bytes e d k) rs)"

lemma recs_bytes_simps [simp]:
  "recs_bytes [] = []"
  "recs_bytes ((e, d, k) # rs) = record_bytes e d k @ recs_bytes rs"
  by (simp_all add: recs_bytes_def)

lemma length_recs_bytes:
  "list_all (rec_ok bs) rs \<Longrightarrow> length (recs_bytes rs) = sum_list (map (\<lambda>(e, d, k). k) rs)"
  by (induction rs) (auto simp: rec_ok_def length_record_bytes)

lemma walk_records:
  assumes "list_all (rec_ok (rd_block_size r)) rs" "list_all (\<lambda>(e, d, k). shown r e) rs"
    and "length pre + length (recs_bytes rs) \<le> rd_block_size r"
  shows "walk_block r visit (pre @ recs_bytes rs @ post) (length pre) s =
    andThen (visit_all visit s (map fst rs)) (\<lambda>keep. case keep of
        CfBreak s \<Rightarrow> Ok (CfBreak s)
      | CfContinue s \<Rightarrow> walk_block r visit (pre @ recs_bytes rs @ post) (length pre + length (recs_bytes rs)) s)"
  using assms
proof (induction rs arbitrary: pre s)
  case Nil
  then show ?case by simp
next
  case (Cons x rs)
  obtain e d k where x: "x = (e, d, k)" by (cases x)
  let ?b = "pre @ recs_bytes (x # rs) @ post"
  have split: "?b = (pre @ record_bytes e d k) @ recs_bytes rs @ post" by (simp add: x)
  have ok: "valid_entry e" "rec_len_from_disk d (rd_block_size r) = k" "k mod 4 = 0" "8 + length (de_name e) \<le> k"
    using Cons.prems(1) by (auto simp: x rec_ok_def)
  then have len: "length (record_bytes e d k) = k" by (simp add: length_record_bytes)
  have off: "length pre < rd_block_size r" using Cons.prems(3) ok(4) len by (simp add: x)
  have rest: "drop (length pre) ?b = record_bytes e d k @ recs_bytes rs @ post" by (simp add: x)
  have read: "dirent_read_from (record_bytes e d k @ recs_bytes rs @ post) (rd_block_size r) = Ok (e, k)"
    using ok by (intro dirent_read_record) auto
  have IH: "walk_block r visit ?b (length pre + k) t =
      andThen (visit_all visit t (map fst rs)) (\<lambda>keep. case keep of
        CfBreak s \<Rightarrow> Ok (CfBreak s)
      | CfContinue s \<Rightarrow> walk_block r visit ?b (length pre + length (recs_bytes (x # rs))) s)" for t
    using Cons.IH [of "pre @ record_bytes e d k" t] Cons.prems len
    unfolding x by (simp add: add.assoc cong: flow.case_cong)
  have "walk_block r visit ?b (length pre) s = andThen (visit s e) (\<lambda>keep. case keep of
        CfBreak s \<Rightarrow> Ok (CfBreak s) | CfContinue s \<Rightarrow> walk_block r visit ?b (length pre + k) s)"
    using off Cons.prems(2) ok(4) rest read
    by (subst walk_block.simps) (auto simp: entry_fault_None x shown_def [of r e] slice_def)
  then show ?case
    unfolding x by (cases "visit s e") (auto simp: IH [unfolded x] simp del: recs_bytes_simps split: flow.split)
qed

lemma visit_all_append:
  "visit_all visit s (xs @ ys) = andThen (visit_all visit s xs) (\<lambda>keep. case keep of
      CfBreak s \<Rightarrow> Ok (CfBreak s) | CfContinue s \<Rightarrow> visit_all visit s ys)"
proof (induction xs arbitrary: s)
  case (Cons x xs)
  then show ?case by (cases "visit s x") (auto split: flow.split)
qed simp

text \<open>A directory whose blocks each walk as a group of entries walks as the groups in turn.\<close>

lemma walk_dir_groups:
  assumes "length ps = length gs" "distinct ps" "0 \<notin> set ps" "set ps \<inter> seen = {}"
    and "\<And>i. i < length ps \<Longrightarrow> \<exists>b. read (ps ! i) = Ok b
        \<and> (\<forall>s. walk_block r visit b 0 s = visit_all visit s (gs ! i))"
  shows "walk_dir r read visit seen ps s = visit_all visit s (concat gs)"
  using assms
proof (induction ps gs arbitrary: seen s rule: list_induct2)
  case Nil
  then show ?case by simp
next
  case (Cons p ps g gs)
  obtain b where b: "read p = Ok b" "\<And>s. walk_block r visit b 0 s = visit_all visit s g"
    using Cons.prems(4) [of 0] by auto
  have "walk_dir r read visit (insert p seen) ps t = visit_all visit t (concat gs)" for t
  proof (rule Cons.IH)
    fix i assume "i < length ps"
    then show "\<exists>b. read (ps ! i) = Ok b \<and> (\<forall>s. walk_block r visit b 0 s = visit_all visit s (gs ! i))"
      using Cons.prems(4) [of "Suc i"] by simp
  qed (use Cons.prems in auto)
  then have "walk_dir r read visit (insert p seen) ps = (\<lambda>t. visit_all visit t (concat gs))" by (rule ext)
  then show ?case using Cons.prems(2,3) b by (simp add: visit_all_append)
qed

end
