(* ===== verification/DirPack.thy ===== *)
theory DirPack
  imports ReadDir
begin

text \<open>
  Packing a directory's entries into blocks, \<^verbatim>\<open>crates/ferrosys/src/dir.rs\<close>: the block packer and
  the linear layout, and that the reader's walk of the packed blocks meets the entries in order.
\<close>

section \<open>The code\<close>

datatype DirError =
    EntryTooLarge nat nat            \<comment> \<open>bytes needed, block size\<close>
  | TailExceedsBlock nat nat         \<comment> \<open>tail length, block size\<close>
  | MissingDotEntries
  | IndexTooLarge nat nat            \<comment> \<open>entry blocks needed, addressable\<close>
  | Encode ParseError

datatype DirBlockKind = Entries | IndexBlock nat nat   \<comment> \<open>count offset, limit\<close>

record DirBlock =
  block_bytes :: bytes
  block_kind :: DirBlockKind

definition close_block :: "bytes \<Rightarrow> nat \<Rightarrow> nat \<Rightarrow> nat \<Rightarrow> (DirError, bytes) outcome" where
  "close_block block last_off usable tail_len =
     andThen (sub64 usable last_off) (\<lambda>span.
     andThen (rec_len_to_disk span (length block)) (\<lambda>d.
     andThen (put_u16 block (last_off + 4) d) (\<lambda>block.
     if tail_len \<noteq> 0 then
       andThen (slice block usable (usable + tail_len)) (\<lambda>tail.
       andThen (mapErr Encode (write_dir_tail tail 0)) (\<lambda>tail.
       Ok (splice block usable tail)))
     else Ok block)))"

text \<open>The loop of \<^verbatim>\<open>pack_one_block\<close>: the block, the next offset and the last entry's offset.\<close>

fun pack_entries :: "nat \<Rightarrow> DirEntry list \<Rightarrow> bytes \<Rightarrow> nat \<Rightarrow> nat \<Rightarrow> (DirError, bytes \<times> nat \<times> nat) outcome" where
  "pack_entries block_size [] block off last_off = Ok (block, off, last_off)"
| "pack_entries block_size (e # es) block off last_off =
     andThen (min_rec_len (length (de_name e))) (\<lambda>need.
     andThen (slice block off (off + need)) (\<lambda>room.
     andThen (mapErr Encode (dirent_write_to e room need block_size)) (\<lambda>written.
     pack_entries block_size es (splice block off written) (off + need) off)))"

definition pack_one_block :: "DirEntry list \<Rightarrow> nat \<Rightarrow> nat \<Rightarrow> (DirError, bytes) outcome" where
  "pack_one_block entries block_size tail_len =
     andThen (sub64 block_size tail_len) (\<lambda>usable.
     andThen (pack_entries block_size entries (replicate block_size 0) 0 0) (\<lambda>(block, off, last_off).
     close_block block last_off usable tail_len))"

definition record_len :: "DirEntry \<Rightarrow> nat \<Rightarrow> nat \<Rightarrow> (DirError, nat) outcome" where
  "record_len e block_size tail_len =
     andThen (min_rec_len (length (de_name e))) (\<lambda>need.
     andThen (sub64 block_size tail_len) (\<lambda>room.
     if room < need then Err (EntryTooLarge need block_size) else Ok need))"

definition fits_in_one_block :: "DirEntry list \<Rightarrow> nat \<Rightarrow> nat \<Rightarrow> (DirError, bool) outcome" where
  "fits_in_one_block entries block_size tail_len =
     andThen (foldOutcome (\<lambda>total e.
        andThen (record_len e block_size tail_len) (\<lambda>n. add64 total n)) 0 entries) (\<lambda>total.
     andThen (sub64 block_size tail_len) (\<lambda>room. Ok (total \<le> room)))"

definition entries_block :: "bytes \<Rightarrow> DirBlock" where
  "entries_block b = \<lparr>block_bytes = b, block_kind = Entries\<rparr>"

text \<open>The loop of \<^verbatim>\<open>LinearDir::build_blocks\<close>: the entries of the open block, their bytes, the blocks closed.\<close>

fun linear_fill ::
  "nat \<Rightarrow> nat \<Rightarrow> DirEntry list \<Rightarrow> DirEntry list \<Rightarrow> nat \<Rightarrow> DirBlock list \<Rightarrow> (DirError, DirBlock list) outcome" where
  "linear_fill block_size tail_len [] cur used blocks =
     (if cur \<noteq> [] then
        andThen (pack_one_block cur block_size tail_len) (\<lambda>b. Ok (blocks @ [entries_block b]))
      else Ok blocks)"
| "linear_fill block_size tail_len (e # es) cur used blocks =
     andThen (record_len e block_size tail_len) (\<lambda>need.
     andThen (sub64 block_size tail_len) (\<lambda>usable.
     if used + need > usable \<and> cur \<noteq> [] then
       andThen (pack_one_block cur block_size tail_len) (\<lambda>b.
       linear_fill block_size tail_len es [e] need (blocks @ [entries_block b]))
     else linear_fill block_size tail_len es (cur @ [e]) (used + need) blocks))"

definition linear_build_blocks :: "nat \<Rightarrow> DirEntry list \<Rightarrow> nat \<Rightarrow> (DirError, DirBlock list) outcome" where
  "linear_build_blocks tail_len entries block_size =
     (if block_size \<le> tail_len then Err (TailExceedsBlock tail_len block_size)
      else linear_fill block_size tail_len entries [] 0 [])"

section \<open>A packed block\<close>

text \<open>The bytes an entry's record needs.\<close>

definition need :: "DirEntry \<Rightarrow> nat" where
  "need e = rec_len_of (length (de_name e))"

abbreviation total :: "DirEntry list \<Rightarrow> nat" where
  "total es \<equiv> sum_list (map need es)"

lemma need_bounds: "8 + length (de_name e) \<le> need e" "need e mod 4 = 0"
  using rec_len_of_bounds by (simp_all add: need_def)

lemma total_mod4: "total es mod 4 = 0"
proof (induction es)
  case (Cons e es)
  then show ?case using need_bounds(2) [of e] by (simp add: mod_add_eq [symmetric])
qed simp

lemma min_rec_len_need: "valid_entry e \<Longrightarrow> min_rec_len (length (de_name e)) = Ok (need e)"
  by (simp add: min_rec_len_eq valid_entry_def need_def)

definition packed_rec :: "nat \<Rightarrow> DirEntry \<Rightarrow> rec" where
  "packed_rec block_size e = (e, disk_len (need e) block_size, need e)"

lemma recs_bytes_packed [simp]:
  "recs_bytes (packed_rec bs e # rs) = record_bytes e (disk_len (need e) bs) (need e) @ recs_bytes rs"
  by (simp add: packed_rec_def)

lemma dirent_write_need:
  "valid_entry e \<Longrightarrow> need e \<le> block_size \<Longrightarrow>
    dirent_write_to e (replicate (need e) 0) (need e) block_size =
    Ok (record_bytes e (disk_len (need e) block_size) (need e))"
  by (rule dirent_write_zeros) (simp_all add: need_def)

lemma need_pos: "0 < need e"
  using need_bounds(1) [of e] by linarith

lemma rec_ok_packed:
  "valid_entry e \<Longrightarrow> need e \<le> bs \<Longrightarrow> bs \<le> 65536 \<Longrightarrow> rec_ok bs (packed_rec bs e)"
  using need_bounds [of e] need_pos [of e] by (simp add: rec_ok_def packed_rec_def disk_len_back)

lemma length_packed:
  assumes "list_all valid_entry es" "total es \<le> bs" "bs \<le> 65536"
  shows "list_all (rec_ok bs) (map (packed_rec bs) es)
    \<and> length (recs_bytes (map (packed_rec bs) es)) = total es"
proof -
  have ok: "list_all (rec_ok bs) (map (packed_rec bs) es)"
    using assms by (induction es) (auto intro: rec_ok_packed)
  show ?thesis using length_recs_bytes [OF ok] ok by (simp add: comp_def packed_rec_def)
qed

lemma pack_entries_eq:
  assumes "list_all valid_entry es" "total es \<le> m" "length pre + m = bs" "bs \<le> 65536"
  shows "pack_entries bs es (pre @ replicate m 0) (length pre) last_off =
    Ok (pre @ recs_bytes (map (packed_rec bs) es) @ replicate (m - total es) 0,
        length pre + total es,
        if es = [] then last_off else length pre + total (butlast es))"
  using assms
proof (induction es arbitrary: pre m last_off)
  case Nil
  then show ?case by simp
next
  case (Cons e es)
  let ?w = "record_bytes e (disk_len (need e) bs) (need e)"
  have le: "need e \<le> m" "need e \<le> bs" "valid_entry e" using Cons.prems by auto
  have len: "length ?w = need e" using need_bounds(1) [of e] by (simp add: length_record_bytes)
  have room: "slice (pre @ replicate m 0) (length pre) (length pre + need e) = Ok (replicate (need e) 0)"
    using le by (simp add: slice_def min_def)
  have spl: "splice (pre @ replicate m 0) (length pre) ?w = (pre @ ?w) @ replicate (m - need e) 0"
    using len by (simp add: splice_def)
  have "pack_entries bs es ((pre @ ?w) @ replicate (m - need e) 0) (length (pre @ ?w)) (length pre) =
    Ok ((pre @ ?w) @ recs_bytes (map (packed_rec bs) es) @ replicate (m - need e - total es) 0,
        length (pre @ ?w) + total es,
        if es = [] then length pre else length (pre @ ?w) + total (butlast es))"
    using Cons.prems le len by (intro Cons.IH) auto
  then show ?case
    using le len by (simp add: min_rec_len_need room dirent_write_need spl add.assoc)
qed

text \<open>
  The bytes of a packed block: every record but the last at the size it needs, the last stretched
  to the end of the usable area, and the tail.
\<close>

definition tail_bytes :: "nat \<Rightarrow> bytes" where
  "tail_bytes tail_len = (if tail_len = 0 then []
     else to_le 4 (0 :: u32) @ to_le 2 (12 :: u16) @ [0, DIR_TAIL_FT] @ to_le 4 (0 :: u32) @ replicate (tail_len - 12) 0)"

definition stretched :: "nat \<Rightarrow> nat \<Rightarrow> DirEntry list \<Rightarrow> rec list" where
  "stretched bs usable es = map (packed_rec bs) (butlast es) @
     [(last es, disk_len (usable - total (butlast es)) bs, usable - total (butlast es))]"

lemma recs_bytes_append [simp]: "recs_bytes (xs @ ys) = recs_bytes xs @ recs_bytes ys"
  by (simp add: recs_bytes_def)

lemma record_stretch:
  assumes "8 + length (de_name e) \<le> k" "k \<le> n"
  shows "splice (record_bytes e d k @ replicate (n - k) 0) 4 (to_le 2 d') = record_bytes e d' n"
  using assms
  by (simp add: record_bytes_def splice_def numeral_2_eq_2 replicate_add [symmetric] del: to_le.simps)

lemma write_dir_tail_zeros:
  "12 \<le> n \<Longrightarrow> write_dir_tail (replicate n 0) 0 = Ok (tail_bytes n)"
  by (simp add: write_dir_tail_def DIR_TAIL_LEN_def put_laws splice_def tail_bytes_def numeral_2_eq_2
      numeral_3_eq_3 min_def del: to_le.simps) linarith

lemma slice_splice_end:
  assumes "length (xs @ ys) = u" "length zs = n"
  shows "slice (xs @ ys @ zs) u (u + n) = Ok zs" "length ws = n \<Longrightarrow> splice (xs @ ys @ zs) u ws = xs @ ys @ ws"
  using assms by (auto simp: slice_def splice_def)

lemma length_tail_bytes: "n = 0 \<or> 12 \<le> n \<Longrightarrow> length (tail_bytes n) = n"
  by (auto simp: tail_bytes_def)

lemma pack_one_block_eq:
  assumes "list_all valid_entry es" "es \<noteq> []" "total es \<le> u" "u + tail_len \<le> 65536"
    and "tail_len = 0 \<or> 12 \<le> tail_len"
  shows "pack_one_block es (u + tail_len) tail_len =
    Ok (recs_bytes (stretched (u + tail_len) u es) @ tail_bytes tail_len)"
proof -
  define bs where "bs = u + tail_len"
  let ?pre = "recs_bytes (map (packed_rec bs) (butlast es))" and ?last = "total (butlast es)"
  let ?k = "need (last es)" and ?r = "\<lambda>d n. record_bytes (last es) d n"
  have es: "es = butlast es @ [last es]" using assms(2) by simp
  have tot: "total es = ?last + ?k" by (subst es) (simp del: append_butlast_last_id)
  obtain z where u: "u = ?last + (?k + z)" using assms(3) tot le_Suc_ex by (metis add.assoc)
  define n where "n = ?k + z"
  have "list_all valid_entry (butlast es)" using assms(1) by (metis append_butlast_last_id butlast.simps(1) list_all_append)
  then have pre: "length ?pre = ?last"
    using length_packed [of "butlast es" bs] assms(3,4) tot by (simp add: bs_def)
  have len: "length (?r d m) = m" if "?k \<le> m" for d m
    using that need_bounds(1) [of "last es"] by (simp add: length_record_bytes)
  have block: "pack_entries bs es (replicate bs 0) 0 0 =
      Ok (?pre @ ?r (disk_len ?k bs) ?k @ replicate z 0 @ replicate tail_len 0, total es, ?last)"
  proof -
    have "pack_entries bs es ([] @ replicate bs 0) (length ([] :: bytes)) 0 =
      Ok ([] @ recs_bytes (map (packed_rec bs) es) @ replicate (bs - total es) 0,
        length ([] :: bytes) + total es, if es = [] then 0 else length ([] :: bytes) + ?last)"
      using assms by (intro pack_entries_eq) (auto simp: bs_def)
    moreover have "bs - total es = z + tail_len" using u tot by (simp add: bs_def)
    moreover have "recs_bytes (map (packed_rec bs) es) = ?pre @ ?r (disk_len ?k bs) ?k"
      by (subst es) (simp del: append_butlast_last_id)
    ultimately show ?thesis using assms(2) by (simp add: replicate_add)
  qed
  have put: "put_u16 (?pre @ ?r (disk_len ?k bs) ?k @ replicate z 0 @ replicate tail_len 0) (?last + 4) d =
      (Ok (?pre @ ?r d n @ replicate tail_len 0) :: (DirError, bytes) outcome)" for d
  proof -
    have "splice (?pre @ (?r (disk_len ?k bs) ?k @ replicate z 0) @ replicate tail_len 0) (length ?pre + 4) (to_le 2 d)
      = ?pre @ splice (?r (disk_len ?k bs) ?k @ replicate z 0) 4 (to_le 2 d) @ replicate tail_len 0"
      using len [of ?k] need_bounds(1) [of "last es"] by (simp add: splice_def)
    also have "\<dots> = ?pre @ ?r d n @ replicate tail_len 0"
      using record_stretch [OF need_bounds(1), of "last es" n] by (simp add: n_def)
    finally show ?thesis using pre len [of ?k] need_bounds(1) [of "last es"] by (simp add: f16.put_law)
  qed
  have close: "close_block (?pre @ ?r (disk_len ?k bs) ?k @ replicate z 0 @ replicate tail_len 0) ?last u tail_len
      = Ok (?pre @ ?r (disk_len n bs) n @ tail_bytes tail_len)"
  proof -
    have blen: "length (?pre @ ?r (disk_len ?k bs) ?k @ replicate z 0 @ replicate tail_len 0) = bs"
      using pre len [of ?k] u by (simp add: bs_def)
    have sub: "sub64 u ?last = (Ok n :: (DirError, nat) outcome)" using u by (simp add: n_def)
    have le: "n \<le> bs" using u by (simp add: n_def bs_def)
    have ulen: "length (?pre @ ?r d n) = u" for d using pre len [of n] u by (simp add: n_def)
    show ?thesis
    proof (cases "tail_len = 0")
      case True
      then show ?thesis using put blen
        by (simp add: close_block_def sub rec_len_to_disk_eq le tail_bytes_def)
    next
      case False
      then have tail: "12 \<le> tail_len" using assms(5) by simp
      have zeros: "length (replicate tail_len (0 :: u8)) = tail_len" by simp
      show ?thesis
        unfolding close_block_def blen sub using False
        by (simp add: put rec_len_to_disk_eq le write_dir_tail_zeros [OF tail] length_tail_bytes tail
            slice_splice_end [OF ulen zeros] del: slice_Ok)
    qed
  qed
  have "pack_one_block es bs tail_len = Ok (?pre @ ?r (disk_len n bs) n @ tail_bytes tail_len)"
    using block close by (simp add: pack_one_block_def bs_def)
  then show ?thesis using u by (simp add: stretched_def bs_def n_def)
qed

text \<open>The reader's walk of a packed block visits its entries, in order, and nothing else.\<close>

lemma walk_end: "rd_block_size r \<le> off \<Longrightarrow> walk_block r visit block off s = Ok (CfContinue s)"
  by (subst walk_block.simps) simp

lemma rec_len_12: "bs \<le> 65536 \<Longrightarrow> rec_len_from_disk 12 bs = 12"
  by (simp add: rec_len_from_disk_def)

lemma read_tail:
  assumes "bs \<le> 65536"
  shows "dirent_read_from (tail_bytes 12) bs = Ok (\<lparr>de_inode = 0, de_type = Unknown, de_name = []\<rparr>, 12)"
  by (simp add: tail_bytes_def dirent_read_from_def get_laws Let_def DIR_TAIL_FT_def file_type_from_u8_def
      rec_len_12 [OF assms] del: to_le.simps)

lemma walk_tail:
  assumes "tail_len = 0 \<or> tail_len = 12" "length xs + tail_len = rd_block_size r" "rd_block_size r \<le> 65536"
  shows "walk_block r visit (xs @ tail_bytes tail_len) (length xs) s = Ok (CfContinue s)"
proof (cases "tail_len = 0")
  case True
  then show ?thesis using assms by (simp add: walk_end)
next
  case False
  then have t: "tail_len = 12" using assms(1) by simp
  have "walk_block r visit (xs @ tail_bytes 12) (length xs) s =
      walk_block r visit (xs @ tail_bytes 12) (length xs + 12) s"
    using assms(2) t read_tail [OF assms(3)] length_tail_bytes [of 12]
    by (subst walk_block.simps) (simp add: slice_def)
  then show ?thesis using assms(2) t by (simp add: walk_end)
qed

lemma walk_packed:
  assumes "list_all valid_entry es" "es \<noteq> []" "total es + tail_len \<le> rd_block_size r"
    and "rd_block_size r \<le> 65536" "rd_block_size r mod 4 = 0" "tail_len = 0 \<or> tail_len = 12"
    and "list_all (shown r) es"
  shows "\<exists>b. pack_one_block es (rd_block_size r) tail_len = Ok b \<and> length b = rd_block_size r
    \<and> (\<forall>visit s. walk_block r visit b 0 s = visit_all visit s es)"
proof -
  define bs where "bs = rd_block_size r"
  obtain u where bs: "bs = u + tail_len" using assms(3) by (metis add_leD2 bs_def le_add_diff_inverse2)
  let ?rs = "stretched bs u es" and ?k = "u - total (butlast es)"
  have es: "es = butlast es @ [last es]" using assms(2) by simp
  have tot: "total es = total (butlast es) + need (last es)" by (subst es) (simp del: append_butlast_last_id)
  have "list_all valid_entry (butlast es @ [last es])" using assms(1,2) by simp
  then have valid: "list_all valid_entry (butlast es)" "valid_entry (last es)"
    by (simp_all del: append_butlast_last_id)
  have u: "total es \<le> u" "u \<le> bs" using assms(3) bs by (auto simp: bs_def)
  have bl: "total (butlast es) \<le> bs" using tot u by simp
  have k: "?k mod 4 = 0" "8 + length (de_name (last es)) \<le> ?k" "?k \<le> bs"
  proof -
    have "tail_len mod 4 = 0" using assms(6) by auto
    moreover have "(u + tail_len) mod 4 = 0" using assms(5) bs by (simp add: bs_def)
    ultimately have "u mod 4 = 0" by presburger
    then have "4 dvd u - total (butlast es)" using total_mod4 [of "butlast es"] by (intro dvd_diff_nat) auto
    then show "?k mod 4 = 0" by simp
    show "8 + length (de_name (last es)) \<le> ?k" "?k \<le> bs"
      using u tot need_bounds(1) [of "last es"] by linarith+
  qed
  have ok: "list_all (rec_ok bs) ?rs"
    using length_packed [OF valid(1) bl] k valid(2) assms(4) by (auto simp: stretched_def rec_ok_def bs_def disk_len_back)
  have "length (recs_bytes ?rs) = u"
    using length_recs_bytes [OF ok] u tot by (simp add: stretched_def comp_def packed_rec_def)
  moreover have "map fst ?rs = es"
    using assms(2) by (simp add: stretched_def packed_rec_def comp_def)
  moreover have "list_all (\<lambda>(e, d, k). shown r e) ?rs"
  proof -
    have "list_all (\<lambda>x. shown r (fst x)) ?rs" using assms(7) \<open>map fst ?rs = es\<close>
      by (metis list.pred_map comp_def list.pred_cong)
    then show ?thesis by (simp add: case_prod_unfold)
  qed
  moreover have "pack_one_block es bs tail_len = Ok (recs_bytes ?rs @ tail_bytes tail_len)"
    unfolding bs using assms u bs [unfolded bs_def] by (intro pack_one_block_eq) auto
  moreover have "length (recs_bytes ?rs @ tail_bytes tail_len) = bs"
    using calculation(1) bs length_tail_bytes [of tail_len] assms(6) by auto
  moreover have "walk_block r visit (recs_bytes ?rs @ tail_bytes tail_len) 0 s = visit_all visit s es" for visit s
  proof -
    have tail: "walk_block r visit (recs_bytes ?rs @ tail_bytes tail_len) u t = Ok (CfContinue t)" for t
      using walk_tail [of tail_len "recs_bytes ?rs" r visit t] calculation(1) assms(4,6) bs by (simp add: bs_def)
    have "walk_block r visit (recs_bytes ?rs @ tail_bytes tail_len) 0 s =
      andThen (visit_all visit s es) (\<lambda>keep. case keep of
        CfBreak s \<Rightarrow> Ok (CfBreak s)
      | CfContinue s \<Rightarrow> walk_block r visit (recs_bytes ?rs @ tail_bytes tail_len) u s)"
      using walk_records [of r ?rs "[]" visit "tail_bytes tail_len" s] ok calculation(1-3) u
      unfolding bs_def by simp
    then show ?thesis
      by (cases "visit_all visit s es") (auto simp: tail split: flow.split)
  qed
  ultimately show ?thesis unfolding bs_def by blast
qed

section \<open>The linear layout\<close>

text \<open>How both layouts divide entries among blocks of \<open>usable\<close> bytes.\<close>

fun groups :: "nat \<Rightarrow> DirEntry list \<Rightarrow> DirEntry list \<Rightarrow> nat \<Rightarrow> DirEntry list list" where
  "groups usable [] cur used = (if cur \<noteq> [] then [cur] else [])"
| "groups usable (e # es) cur used =
     (if used + need e > usable \<and> cur \<noteq> [] then cur # groups usable es [e] (need e)
      else groups usable es (cur @ [e]) (used + need e))"

lemma concat_groups: "concat (groups u es cur used) = cur @ es"
  by (induction u es cur used rule: groups.induct) auto

lemma groups_nonempty: "g \<in> set (groups u es cur used) \<Longrightarrow> g \<noteq> []"
  by (induction u es cur used rule: groups.induct) (auto split: if_splits)

lemma groups_total:
  "g \<in> set (groups u es cur used) \<Longrightarrow> used = total cur \<Longrightarrow> total cur \<le> u \<Longrightarrow>
    \<forall>e \<in> set es. need e \<le> u \<Longrightarrow> total g \<le> u"
proof (induction u es cur used rule: groups.induct)
  case (2 usable e es cur used)
  show ?case
  proof (cases "used + need e > usable \<and> cur \<noteq> []")
    case True
    then have "g = cur \<or> g \<in> set (groups usable es [e] (need e))" using "2.prems"(1) by simp
    then show ?thesis using "2.IH"(1) [OF True] "2.prems"(3,4) by fastforce
  next
    case False
    then have "g \<in> set (groups usable es (cur @ [e]) (used + need e))" using "2.prems"(1) by (simp only: groups.simps if_False)
    moreover have "total (cur @ [e]) \<le> usable" using False "2.prems" by (cases "cur = []") auto
    ultimately show ?thesis using "2.IH"(2) [OF False] "2.prems"(2,4) by simp
  qed
qed (auto split: if_splits)

lemma record_len_eq:
  "record_len e (u + tail_len) tail_len =
    (if \<not> valid_entry e then Panic
     else if u < need e then Err (EntryTooLarge (need e) (u + tail_len)) else Ok (need e))"
  by (simp add: record_len_def min_rec_len_eq valid_entry_def need_def)

lemma linear_fill_groups:
  assumes "list_all valid_entry (cur @ es)" "\<forall>e \<in> set (cur @ es). need e \<le> u"
    and "used = total cur" "total cur \<le> u" "u + tail_len \<le> 65536" "tail_len = 0 \<or> 12 \<le> tail_len"
  shows "\<exists>bs. linear_fill (u + tail_len) tail_len es cur used blocks = Ok (blocks @ bs)
    \<and> list_all2 (\<lambda>g b. pack_one_block g (u + tail_len) tail_len = Ok (block_bytes b) \<and> block_kind b = Entries)
        (groups u es cur used) bs"
  using assms
proof (induction es arbitrary: cur used blocks)
  case Nil
  then show ?case
    using pack_one_block_eq [of cur u tail_len] by (auto simp: entries_block_def)
next
  case (Cons e es)
  have rl: "record_len e (u + tail_len) tail_len = Ok (need e)"
    using Cons.prems(1,2) by (simp add: record_len_eq)
  show ?case
  proof (cases "used + need e > u \<and> cur \<noteq> []")
    case True
    then obtain b where b: "pack_one_block cur (u + tail_len) tail_len = Ok b"
      using pack_one_block_eq [of cur u tail_len] Cons.prems by auto
    show ?thesis
      using Cons.IH [of "[e]" "need e" "blocks @ [entries_block b]"] Cons.prems True rl b
      by (fastforce simp: entries_block_def)
  next
    case False
    then have "total (cur @ [e]) \<le> u" using Cons.prems by (cases "cur = []") auto
    then show ?thesis
      using Cons.IH [of "cur @ [e]" "used + need e" blocks] Cons.prems False rl by auto
  qed
qed

text \<open>
  C33: A linear directory reads back as it was written. Entries that each fit a block are packed
  into blocks of exactly the block size, and the reader's walk of those blocks, wherever they are
  placed, visits the entries in the order they were given, each once, and no checksum tail.
\<close>

theorem linear_dir_reads_back:
  assumes "tail_len = 0 \<or> tail_len = DIR_TAIL_LEN" "tail_len < rd_block_size r"
    and "rd_block_size r \<le> 65536" "rd_block_size r mod 4 = 0"
    and "\<forall>e \<in> set es. length (de_name e) \<le> 255 \<and> need e + tail_len \<le> rd_block_size r \<and> shown r e"
  shows "\<exists>blocks. linear_build_blocks tail_len es (rd_block_size r) = Ok blocks
    \<and> (\<forall>b \<in> set blocks. length (block_bytes b) = rd_block_size r \<and> block_kind b = Entries)
    \<and> (\<forall>ps read visit (s :: 's). length ps = length blocks \<and> distinct ps \<and> 0 \<notin> set ps
        \<and> (\<forall>i < length ps. read (ps ! i) = Ok (block_bytes (blocks ! i))) \<longrightarrow>
        walk_dir r read visit {} ps s = visit_all visit s es)"
proof -
  obtain u where bs: "rd_block_size r = u + tail_len" using assms(2) by (metis add.commute le_add_diff_inverse less_imp_le)
  let ?gs = "groups u es [] 0"
  have valid: "list_all valid_entry es" "\<forall>e \<in> set es. need e \<le> u"
    using assms(5) bs by (auto simp: list_all_iff valid_entry_def)
  have tail: "tail_len = 0 \<or> tail_len = 12" using assms(1) by (simp add: DIR_TAIL_LEN_def)
  obtain blocks where blocks: "linear_fill (u + tail_len) tail_len es [] 0 [] = Ok blocks"
    and packed: "list_all2 (\<lambda>g b. pack_one_block g (u + tail_len) tail_len = Ok (block_bytes b) \<and> block_kind b = Entries) ?gs blocks"
    using linear_fill_groups [of "[]" es u 0 tail_len "[]"] valid tail assms(3) bs by auto
  have sub: "set (concat ?gs) = set es" by (simp only: concat_groups) simp
  have walk: "length b = rd_block_size r \<and> (\<forall>visit s. walk_block r visit b 0 s = visit_all visit s g)"
    if "g \<in> set ?gs" "pack_one_block g (u + tail_len) tail_len = Ok b" for g b
  proof -
    have g: "set g \<subseteq> set es" "g \<noteq> []" "total g \<le> u"
      using sub that(1) groups_nonempty groups_total [OF that(1)] valid(2) by auto
    then have "list_all valid_entry g" "list_all (shown r) g"
      using valid assms(5) by (auto simp: list_all_iff)
    then show ?thesis using walk_packed [of g tail_len r] g that(2) assms(3,4) tail bs by force
  qed
  have "linear_build_blocks tail_len es (rd_block_size r) = Ok blocks"
    using blocks assms(2) bs by (simp add: linear_build_blocks_def)
  moreover have "\<forall>b \<in> set blocks. length (block_bytes b) = rd_block_size r \<and> block_kind b = Entries"
    using packed walk by (fastforce simp: list_all2_conv_all_nth in_set_conv_nth)
  moreover have "walk_dir r read visit {} ps s = visit_all visit s es"
    if "length ps = length blocks" "distinct ps" "0 \<notin> set ps"
      "\<forall>i < length ps. read (ps ! i) = Ok (block_bytes (blocks ! i))" for ps read visit and s :: 's
  proof -
    have "walk_dir r read visit {} ps s = visit_all visit s (concat ?gs)"
    proof (rule walk_dir_groups)
      show "length ps = length ?gs" using that(1) packed by (simp add: list_all2_lengthD)
      fix i assume "i < length ps"
      then show "\<exists>b. read (ps ! i) = Ok b \<and> (\<forall>s. walk_block r visit b 0 s = visit_all visit s (?gs ! i))"
        using that(1,4) packed walk by (fastforce simp: list_all2_conv_all_nth)
    qed (use that in auto)
    then show ?thesis by (simp add: concat_groups)
  qed
  ultimately show ?thesis by blast
qed

lemma need_cases: "length (de_name e) = n \<Longrightarrow> need e = div_ceil (8 + n) 4 * 4"
  by (simp add: need_def rec_len_of_def next_multiple_of_def)

theorem linear_dir_reads_back_witness:
  "\<exists>blocks. linear_build_blocks 12 [\<lparr>de_inode = 2, de_type = Dir, de_name = [0x2e]\<rparr>,
      \<lparr>de_inode = 2, de_type = Dir, de_name = [0x2e, 0x2e]\<rparr>,
      \<lparr>de_inode = 11, de_type = RegFile, de_name = [0x61]\<rparr>] 1024 = Ok blocks
    \<and> (\<forall>b \<in> set blocks. length (block_bytes b) = 1024)"
  using linear_dir_reads_back [of 12 "\<lparr>rd_block_size = 1024, rd_inodes_count = 64, rd_fatal = True\<rparr>"
      "[\<lparr>de_inode = 2, de_type = Dir, de_name = [0x2e]\<rparr>,
      \<lparr>de_inode = 2, de_type = Dir, de_name = [0x2e, 0x2e]\<rparr>,
      \<lparr>de_inode = 11, de_type = RegFile, de_name = [0x61]\<rparr>]"]
  by (force simp: DIR_TAIL_LEN_def need_cases div_ceil_def shown_def is_hostile_entry_def)

end
