(* ===== verification/DirIndex.thy ===== *)
theory DirIndex
  imports Dirent
begin

text \<open>
  The blocks of a directory's hash index, \<^verbatim>\<open>ondisk/htree.rs\<close>: the headers that make an index
  block walk as a directory block with nothing in it, and the array of index entries whose
  first slot holds the count and the capacity in place of a hash.
\<close>

section \<open>The code\<close>

definition DX_ENTRY_LEN :: nat where "DX_ENTRY_LEN = 8"
definition DX_TAIL_LEN :: nat where "DX_TAIL_LEN = 8"
definition DX_CHECKSUM_OFFSET :: nat where "DX_CHECKSUM_OFFSET = 4"
definition DX_ROOT_COUNT_OFFSET :: nat where "DX_ROOT_COUNT_OFFSET = 32"
definition DX_NODE_COUNT_OFFSET :: nat where "DX_NODE_COUNT_OFFSET = 8"
definition DX_HASH_CONTINUED :: u32 where "DX_HASH_CONTINUED = 1"
definition DX_MAX_INDIRECT_LEVELS :: nat where "DX_MAX_INDIRECT_LEVELS = 1"

lemmas dx_sizes = DX_ENTRY_LEN_def DX_TAIL_LEN_def DX_CHECKSUM_OFFSET_def
  DX_ROOT_COUNT_OFFSET_def DX_NODE_COUNT_OFFSET_def

record DxEntry =
  dx_hash :: u32
  dx_block :: u32

definition dx_limit :: "nat \<Rightarrow> nat \<Rightarrow> bool \<Rightarrow> nat" where
  "dx_limit block_size count_offset checksums =
     (let slots = (block_size - count_offset) div DX_ENTRY_LEN
      in if checksums then slots - 1 else slots)"

definition dx_tail_offset :: "nat \<Rightarrow> nat \<Rightarrow> nat" where
  "dx_tail_offset count_offset limit = count_offset + DX_ENTRY_LEN * limit"

definition write_dx_root_header :: "bytes \<Rightarrow> u32 \<Rightarrow> u32 \<Rightarrow> u8 \<Rightarrow> u8 \<Rightarrow> (ParseError, bytes) outcome" where
  "write_dx_root_header buf dir_ino parent_ino hash_version indirect_levels =
     (if length buf < DX_ROOT_COUNT_OFFSET
      then Err (TooShort ''DxRoot'' DX_ROOT_COUNT_OFFSET (length buf))
      else
      let block_size = length buf in
      andThen (put_u32 buf 0 dir_ino) (\<lambda>b.
      andThen (put_u16 b 4 12) (\<lambda>b.
      andThen (put_u8 b 6 1) (\<lambda>b.
      andThen (put_u8 b 7 (file_type_to_u8 Dir)) (\<lambda>b.
      andThen (put_u8 b 8 0x2e) (\<lambda>b.
      andThen (put_u32 b 12 parent_ino) (\<lambda>b.
      andThen (sub64 block_size 12) (\<lambda>rest.
      andThen (put_u16 b 16 (of_nat rest)) (\<lambda>b.
      andThen (put_u8 b 18 2) (\<lambda>b.
      andThen (put_u8 b 19 (file_type_to_u8 Dir)) (\<lambda>b.
      andThen (put_u8 b 20 0x2e) (\<lambda>b.
      andThen (put_u8 b 21 0x2e) (\<lambda>b.
      andThen (put_u32 b 24 0) (\<lambda>b.
      andThen (put_u8 b 28 hash_version) (\<lambda>b.
      andThen (put_u8 b 29 8) (\<lambda>b.
      andThen (put_u8 b 30 indirect_levels) (\<lambda>b.
      put_u8 b 31 0)))))))))))))))))"

definition write_dx_node_header :: "bytes \<Rightarrow> (ParseError, bytes) outcome" where
  "write_dx_node_header buf =
     (if length buf < DX_NODE_COUNT_OFFSET
      then Err (TooShort ''DxNode'' DX_NODE_COUNT_OFFSET (length buf))
      else
      andThen (put_u32 buf 0 0) (\<lambda>b.
      andThen (put_u16 b 4 (of_nat (length buf))) (\<lambda>b.
      andThen (put_u8 b 6 0) (\<lambda>b.
      put_u8 b 7 0))))"

text \<open>The loop over the entries past the first, from slot \<open>i\<close> on.\<close>

fun put_dx_entries :: "nat \<Rightarrow> nat \<Rightarrow> DxEntry list \<Rightarrow> bytes \<Rightarrow> (ParseError, bytes) outcome" where
  "put_dx_entries count_offset i [] buf = Ok buf"
| "put_dx_entries count_offset i (e # es) buf =
     (let off = count_offset + DX_ENTRY_LEN * i in
      andThen (put_u32 buf off (dx_hash e)) (\<lambda>buf.
      andThen (put_u32 buf (off + 4) (dx_block e)) (\<lambda>buf.
      put_dx_entries count_offset (i + 1) es buf)))"

definition write_dx_entries :: "bytes \<Rightarrow> nat \<Rightarrow> nat \<Rightarrow> DxEntry list \<Rightarrow> (ParseError, bytes) outcome" where
  "write_dx_entries buf count_offset limit entries =
     (case entries of
        [] \<Rightarrow> Err (InvalidField ''DxEntries'' ''count'' 0)
      | e # es \<Rightarrow>
          if limit < length entries then Err (InvalidField ''DxEntries'' ''count'' (length entries))
          else if dx_hash e \<noteq> 0 then Err (InvalidField ''DxEntries'' ''hash'' (unat (dx_hash e)))
          else if length buf < dx_tail_offset count_offset limit
          then Err (TooShort ''DxEntries'' (dx_tail_offset count_offset limit) (length buf))
          else
            andThen (put_u16 buf count_offset (of_nat limit)) (\<lambda>buf.
            andThen (put_u16 buf (count_offset + 2) (of_nat (length entries))) (\<lambda>buf.
            andThen (put_u32 buf (count_offset + 4) (dx_block e)) (\<lambda>buf.
            put_dx_entries count_offset 1 es buf))))"

definition write_dx_tail :: "bytes \<Rightarrow> nat \<Rightarrow> nat \<Rightarrow> u32 \<Rightarrow> (ParseError, bytes) outcome" where
  "write_dx_tail buf count_offset limit checksum =
     (let off = dx_tail_offset count_offset limit in
      if length buf < off + DX_TAIL_LEN then Err (TooShort ''DxTail'' (off + DX_TAIL_LEN) (length buf))
      else
        andThen (put_u32 buf off 0) (\<lambda>buf.
        put_u32 buf (off + DX_CHECKSUM_OFFSET) checksum))"

definition read_dx_countlimit :: "bytes \<Rightarrow> nat \<Rightarrow> (ParseError, u16 \<times> u16) outcome" where
  "read_dx_countlimit buf count_offset =
     (if length buf < count_offset + 4
      then Err (TooShort ''DxCountLimit'' (count_offset + 4) (length buf))
      else
        andThen (get_u16 buf count_offset) (\<lambda>limit.
        andThen (get_u16 buf (count_offset + 2)) (\<lambda>count.
        if (length buf - count_offset) div DX_ENTRY_LEN < unat limit
        then Err (InvalidField ''DxCountLimit'' ''limit'' (unat limit))
        else if limit < count \<or> count = 0
        then Err (InvalidField ''DxCountLimit'' ''count'' (unat count))
        else Ok (limit, count))))"

definition get_dx_entry :: "bytes \<Rightarrow> nat \<Rightarrow> nat \<Rightarrow> (ParseError, DxEntry) outcome" where
  "get_dx_entry buf count_offset i =
     (let off = count_offset + DX_ENTRY_LEN * i in
      andThen (get_u32 buf off) (\<lambda>h.
      andThen (get_u32 buf (off + 4)) (\<lambda>b. Ok \<lparr>dx_hash = h, dx_block = b\<rparr>)))"

definition read_dx_entries :: "bytes \<Rightarrow> nat \<Rightarrow> (ParseError, DxEntry list) outcome" where
  "read_dx_entries buf count_offset =
     andThen (read_dx_countlimit buf count_offset) (\<lambda>(_, count).
     let need = count_offset + DX_ENTRY_LEN * unat count in
     if length buf < need then Err (TooShort ''DxEntries'' need (length buf))
     else
       andThen (get_u32 buf (count_offset + 4)) (\<lambda>b.
       andThen (mapOutcome (get_dx_entry buf count_offset) [1..<unat count]) (\<lambda>es.
       Ok (\<lparr>dx_hash = 0, dx_block = b\<rparr> # es))))"

definition read_dx_root_info :: "bytes \<Rightarrow> (ParseError, u8 \<times> u8) outcome" where
  "read_dx_root_info buf =
     (if length buf < DX_ROOT_COUNT_OFFSET
      then Err (TooShort ''DxRootInfo'' DX_ROOT_COUNT_OFFSET (length buf))
      else
        andThen (idx_at buf 28) (\<lambda>version.
        andThen (idx_at buf 30) (\<lambda>levels. Ok (version, levels))))"

section \<open>The entries read back\<close>

lemma put_dx_entries_reads:
  assumes "co + DX_ENTRY_LEN * (i + length es) \<le> length buf"
  shows "\<exists>b. put_dx_entries co i es buf = Ok b \<and> length b = length buf
    \<and> take (co + DX_ENTRY_LEN * i) b = take (co + DX_ENTRY_LEN * i) buf
    \<and> (\<forall>k < length es. get_dx_entry b co (i + k) = Ok (es ! k))"
  using assms
proof (induction es arbitrary: i buf)
  case Nil
  then show ?case by simp
next
  case (Cons e es)
  let ?off = "co + DX_ENTRY_LEN * i"
  let ?buf = "splice (splice buf ?off (to_le 4 (dx_hash e))) (?off + 4) (to_le 4 (dx_block e))"
  have room: "?off + 8 \<le> length buf" using Cons.prems by (simp add: DX_ENTRY_LEN_def)
  then have len: "length ?buf = length buf" by simp
  obtain b where b: "put_dx_entries co (Suc i) es ?buf = Ok b" "length b = length buf"
      "take (co + DX_ENTRY_LEN * Suc i) b = take (co + DX_ENTRY_LEN * Suc i) ?buf"
      "\<And>k. k < length es \<Longrightarrow> get_dx_entry b co (Suc i + k) = Ok (es ! k)"
    using Cons.IH [of "Suc i" ?buf] Cons.prems len by auto
  have same: "take 4 (drop k b) = take 4 (drop k ?buf)" if "k + 4 \<le> ?off + 8" for k
  proof -
    have "take 4 (drop k b) = drop k (take (k + 4) (take (co + DX_ENTRY_LEN * Suc i) b))"
      using that by (simp add: DX_ENTRY_LEN_def drop_take min_def)
    also have "\<dots> = take 4 (drop k ?buf)"
      unfolding b(3) using that by (simp add: DX_ENTRY_LEN_def drop_take min_def)
    finally show ?thesis .
  qed
  have first: "get_dx_entry b co i = Ok e"
  proof -
    have "get_u32 ?buf ?off = (Ok (dx_hash e) :: (ParseError, u32) outcome)"
      "get_u32 ?buf (?off + 4) = (Ok (dx_block e) :: (ParseError, u32) outcome)"
      using room by (simp_all add: f32.get_splice_same f32.get_splice_other)
    moreover have "get_u32 b ?off = (get_u32 ?buf ?off :: (ParseError, u32) outcome)"
      "get_u32 b (?off + 4) = (get_u32 ?buf (?off + 4) :: (ParseError, u32) outcome)"
      using same [of ?off] same [of "?off + 4"] b(2) len by (simp_all add: f32.get_law)
    ultimately show ?thesis by (simp add: get_dx_entry_def Let_def)
  qed
  have "take ?off b = take ?off (take (co + DX_ENTRY_LEN * Suc i) b)" by (simp add: DX_ENTRY_LEN_def)
  then have before: "take ?off b = take ?off buf"
    unfolding b(3) using room by (simp add: DX_ENTRY_LEN_def take_splice_before)
  have "get_dx_entry b co (i + k) = Ok ((e # es) ! k)" if "k < length (e # es)" for k
    using that first b(4) [of "k - 1"] by (cases k) auto
  moreover have "put_dx_entries co i (e # es) buf = Ok b"
    using room b(1) by (simp add: Let_def f32.put_law)
  ultimately show ?case using b(2) before by blast
qed

lemma write_dx_entries_Ok_iff:
  "(\<exists>b. write_dx_entries buf co limit es = Ok b) \<longleftrightarrow>
     es \<noteq> [] \<and> length es \<le> limit \<and> dx_hash (hd es) = 0 \<and> dx_tail_offset co limit \<le> length buf"
proof (cases es)
  case (Cons e es')
  show ?thesis
  proof (cases "length es \<le> limit \<and> dx_tail_offset co limit \<le> length buf")
    case True
    then have "co + DX_ENTRY_LEN * (1 + length es') \<le> length buf"
      by (auto simp: Cons dx_tail_offset_def DX_ENTRY_LEN_def)
    moreover from this have put: "\<exists>b. put_dx_entries co (Suc 0) es' c = Ok b"
      if "length c = length buf" for c
      using put_dx_entries_reads [of co 1 es' c] that by auto
    ultimately show ?thesis using True
      by (auto simp: write_dx_entries_def Cons put_laws DX_ENTRY_LEN_def intro!: put)
  next
    case False
    then show ?thesis by (auto simp: write_dx_entries_def Cons split: if_splits)
  qed
qed (simp add: write_dx_entries_def)

lemma take_prefix_get:
  assumes "take n b = take n (c :: bytes)" "length b = length c" "k + w \<le> n"
  shows "take w (drop k b) = take w (drop k c)"
proof -
  have "take w (drop k b) = drop k (take (k + w) (take n b))" using assms(3) by (simp add: drop_take min_def)
  also have "\<dots> = take w (drop k c)" unfolding assms(1) using assms(3) by (simp add: drop_take min_def)
  finally show ?thesis .
qed

lemma read_written_dx_entries:
  assumes "limit < 65536" "write_dx_entries buf co limit es = Ok b"
  shows "read_dx_entries b co = Ok es \<and> length b = length buf \<and> take co b = take co buf
    \<and> read_dx_countlimit b co = Ok (of_nat limit, of_nat (length es))"
proof -
  obtain e es' where es: "es = e # es'" and hd: "dx_hash e = 0" and le: "length es \<le> limit"
    and room: "co + 8 * limit \<le> length buf"
    using write_dx_entries_Ok_iff [of buf co limit es] assms(2)
    by (cases es) (auto simp: dx_tail_offset_def DX_ENTRY_LEN_def)
  let ?b1 = "splice (splice (splice buf co (to_le 2 (of_nat limit :: u16))) (co + 2)
      (to_le 2 (of_nat (length es) :: u16))) (co + 4) (to_le 4 (dx_block e))"
  have co8: "co + 8 \<le> length buf" using room le es by simp
  then have len: "length ?b1 = length buf" by simp
  have "put_dx_entries co 1 es' ?b1 = Ok b"
    using assms(2) co8 le hd room by (auto simp: write_dx_entries_def es put_laws split: if_splits)
  moreover have "co + DX_ENTRY_LEN * (1 + length es') \<le> length ?b1"
    using room le es len by (simp add: DX_ENTRY_LEN_def)
  ultimately have b: "length b = length buf" "take (co + 8) b = take (co + 8) ?b1"
    "\<And>k. k < length es' \<Longrightarrow> get_dx_entry b co (1 + k) = Ok (es' ! k)"
    using put_dx_entries_reads [of co 1 es' ?b1] len by (auto simp: DX_ENTRY_LEN_def)
  note same = take_prefix_get [OF b(2), unfolded len, OF b(1)]
  have get: "get_u16 b co = (Ok (of_nat limit) :: (ParseError, u16) outcome)"
    "get_u16 b (co + 2) = (Ok (of_nat (length es)) :: (ParseError, u16) outcome)"
    "get_u32 b (co + 4) = (Ok (dx_block e) :: (ParseError, u32) outcome)"
  proof -
    have "get_u16 ?b1 co = (Ok (of_nat limit) :: (ParseError, u16) outcome)"
      "get_u16 ?b1 (co + 2) = (Ok (of_nat (length es)) :: (ParseError, u16) outcome)"
      "get_u32 ?b1 (co + 4) = (Ok (dx_block e) :: (ParseError, u32) outcome)"
      using co8 by (simp_all add: f16.get_splice_same f16.get_splice_other f32.get_splice_same
          f32.get_splice_other)
    moreover have "get_u16 b co = (get_u16 ?b1 co :: (ParseError, u16) outcome)"
      "get_u16 b (co + 2) = (get_u16 ?b1 (co + 2) :: (ParseError, u16) outcome)"
      "get_u32 b (co + 4) = (get_u32 ?b1 (co + 4) :: (ParseError, u32) outcome)"
      unfolding f16.get_law f32.get_law b(1) len using same [of co 2] same [of "co + 2" 2] same [of "co + 4" 4]
      by simp_all
    ultimately show "get_u16 b co = (Ok (of_nat limit) :: (ParseError, u16) outcome)"
      "get_u16 b (co + 2) = (Ok (of_nat (length es)) :: (ParseError, u16) outcome)"
      "get_u32 b (co + 4) = (Ok (dx_block e) :: (ParseError, u32) outcome)"
      by simp_all
  qed
  have u: "unat (of_nat limit :: u16) = limit" "unat (of_nat (length es) :: u16) = length es"
    using assms(1) le by (auto intro!: unat_of_nat_small)
  have pos: "of_nat (length es) \<noteq> (0 :: u16)" "\<not> (of_nat limit :: u16) < of_nat (length es)"
    using u le es by (auto simp: word_less_nat_alt unat_eq_0 simp del: of_nat_Suc)
  have countlimit: "read_dx_countlimit b co = Ok (of_nat limit, of_nat (length es))"
  proof -
    have "\<not> (length b - co) div DX_ENTRY_LEN < limit"
      using room b(1) by (simp add: DX_ENTRY_LEN_def not_less less_eq_div_iff_mult_less_eq)
    then show ?thesis using co8 b(1) pos u by (simp add: read_dx_countlimit_def get del: add_2_eq_Suc')
  qed
  moreover have "mapOutcome (get_dx_entry b co) [1..<length es] = Ok es'"
  proof -
    have "mapOutcome (get_dx_entry b co) [1..<length es] = Ok (map (\<lambda>i. es' ! (i - 1)) [1..<length es])"
      using b(3) es by (intro mapOutcome_all_Ok) (auto simp: le_less_Suc_eq dest!: le_Suc_ex)
    also have "map (\<lambda>i. es' ! (i - 1)) [1..<length es] = es'"
      by (intro nth_equalityI) (simp_all add: es del: upt_Suc)
    finally show ?thesis .
  qed
  moreover have "co + DX_ENTRY_LEN * length es \<le> length b" using room le b(1) by (simp add: DX_ENTRY_LEN_def)
  moreover have "\<lparr>dx_hash = 0, dx_block = dx_block e\<rparr> = e" using hd by (cases e) simp
  ultimately have "read_dx_entries b co = Ok es"
    by (simp add: read_dx_entries_def get u Let_def es [symmetric] del: upt_Suc)
  moreover have "take co b = take co buf"
  proof -
    have "take co b = take co (take (co + 8) b)" by simp
    then show ?thesis unfolding b(2) using co8 by (simp add: take_splice_before)
  qed
  ultimately show ?thesis using b(1) countlimit by simp
qed

text \<open>
  C35: An index block's entries survive the disk. They are written exactly when there is at least
  one and at most the capacity, the first stores no hash and the block holds the capacity; they
  then read back as written, with the count and the capacity, and the header before them is
  untouched.
\<close>

theorem dx_entries_round_trip:
  assumes "limit < 65536"
  shows "((\<exists>b. write_dx_entries buf co limit es = Ok b) \<longleftrightarrow>
      es \<noteq> [] \<and> length es \<le> limit \<and> dx_hash (hd es) = 0 \<and> co + 8 * limit \<le> length buf)
    \<and> (\<forall>b. write_dx_entries buf co limit es = Ok b \<longrightarrow> read_dx_entries b co = Ok es
        \<and> read_dx_countlimit b co = Ok (of_nat limit, of_nat (length es))
        \<and> length b = length buf \<and> take co b = take co buf)"
  using read_written_dx_entries [OF assms] write_dx_entries_Ok_iff [of buf co limit es]
  by (auto simp: dx_tail_offset_def DX_ENTRY_LEN_def)

theorem dx_entries_round_trip_witness:
  "\<exists>b. write_dx_entries (replicate 64 0) 8 7 [\<lparr>dx_hash = 0, dx_block = 3\<rparr>, \<lparr>dx_hash = 0x10, dx_block = 4\<rparr>] = Ok b
    \<and> read_dx_entries b 8 = Ok [\<lparr>dx_hash = 0, dx_block = 3\<rparr>, \<lparr>dx_hash = 0x10, dx_block = 4\<rparr>]"
  using dx_entries_round_trip [of 7 "replicate 64 0" 8 "[\<lparr>dx_hash = 0, dx_block = 3\<rparr>, \<lparr>dx_hash = 0x10, dx_block = 4\<rparr>]"]
  by auto

end
