(* ===== verification/DirHash.thy ===== *)
theory DirHash
  imports ByteFields
begin

text \<open>
  The directory-name hashes of \<^verbatim>\<open>crates/ferrosys/src/hash.rs\<close>: the legacy hash, half-MD4 and TEA,
  each over bytes read as signed or as unsigned, and the reserved values of a major hash. All
  arithmetic is the code's wrapping arithmetic on 32-bit words.
\<close>

section \<open>The code\<close>

datatype HashVersion = Legacy | HalfMd4 | Tea

fun version_to_u8 :: "HashVersion \<Rightarrow> u8" where
  "version_to_u8 Legacy = 0"
| "version_to_u8 HalfMd4 = 1"
| "version_to_u8 Tea = 2"

definition version_from_u8 :: "u8 \<Rightarrow> HashVersion option" where
  "version_from_u8 v =
     (if v = 0 then Some Legacy else if v = 1 then Some HalfMd4 else if v = 2 then Some Tea else None)"

datatype HashSignedness = Unsigned | Signed

definition SIGNED_FLAG :: u32 where "SIGNED_FLAG = 1"
definition UNSIGNED_FLAG :: u32 where "UNSIGNED_FLAG = 2"

fun to_flag :: "HashSignedness \<Rightarrow> u32" where
  "to_flag Unsigned = UNSIGNED_FLAG"
| "to_flag Signed = SIGNED_FLAG"

definition from_flags :: "u32 \<Rightarrow> HashSignedness" where
  "from_flags flags = (if flags AND SIGNED_FLAG \<noteq> 0 then Signed else Unsigned)"

datatype DirHash = DirHash (major: u32) (minor: u32)

text \<open>\<^verbatim>\<open>#[derive(PartialOrd, Ord)]\<close>: the fields compare in the order they are declared.\<close>

instantiation DirHash :: linorder
begin

definition less_eq_DirHash :: "DirHash \<Rightarrow> DirHash \<Rightarrow> bool" where
  "less_eq_DirHash a b \<longleftrightarrow> major a < major b \<or> major a = major b \<and> minor a \<le> minor b"

definition less_DirHash :: "DirHash \<Rightarrow> DirHash \<Rightarrow> bool" where
  "less_DirHash a b \<longleftrightarrow> major a < major b \<or> major a = major b \<and> minor a < minor b"

instance
  by standard (auto simp: less_eq_DirHash_def less_DirHash_def intro: DirHash.expand)

end

type_synonym state = "u32 \<times> u32 \<times> u32 \<times> u32"

definition MD4_INITIAL :: state where
  "MD4_INITIAL = (0x67452301, 0xefcdab89, 0x98badcfe, 0x10325476)"

definition END_OF_SPACE :: u32 where
  "END_OF_SPACE = push_bit 1 0x7fffffff"

fun widen :: "HashSignedness \<Rightarrow> u8 \<Rightarrow> u32" where
  "widen Unsigned byte = ucast byte"
| "widen Signed byte = scast byte"

definition off_the_end :: "u32 \<Rightarrow> u32" where
  "off_the_end m = (if m = END_OF_SPACE then push_bit 1 (0x7fffffff - 1) else m)"

definition unmoved_major :: "u32 \<Rightarrow> u32 option" where
  "unmoved_major m = (if m = off_the_end END_OF_SPACE then Some END_OF_SPACE else None)"

text \<open>The seed is an array of sixteen bytes, so its four words are in range.\<close>

definition initial_state :: "bytes \<Rightarrow> state" where
  "initial_state seed =
     (let word = (\<lambda>i. from_le (take 4 (drop (4 * i) seed)));
          st = (word 0, word 1, word 2, word 3)
      in if st = (0, 0, 0, 0) then MD4_INITIAL else st)"

definition legacy_step :: "HashSignedness \<Rightarrow> u32 \<times> u32 \<Rightarrow> u8 \<Rightarrow> u32 \<times> u32" where
  "legacy_step s = (\<lambda>(newer, older) byte.
     let nxt = older + (newer XOR (widen s byte * 0x006d22f5));
         nxt = (if nxt AND 0x80000000 \<noteq> 0 then nxt - 0x7fffffff else nxt)
     in (nxt, newer))"

definition legacy :: "bytes \<Rightarrow> HashSignedness \<Rightarrow> u32" where
  "legacy name s = push_bit 1 (fst (foldl (legacy_step s) (0x12a3fe2d, 0x37abe8f9) name))"

definition pack :: "nat \<Rightarrow> bytes \<Rightarrow> HashSignedness \<Rightarrow> u32 list" where
  "pack n chunk s =
     (let pad = of_nat (length chunk mod 256) * 0x01010101;
          filled = map (\<lambda>bs. foldl (\<lambda>word byte. push_bit 8 word + widen s byte) pad bs) (chunks 4 chunk)
      in take n (filled @ replicate n pad))"

datatype Mix = Conditional | Majority | Parity

fun mix_of :: "Mix \<Rightarrow> u32 \<Rightarrow> u32 \<Rightarrow> u32 \<Rightarrow> u32" where
  "mix_of Conditional x y z = (x AND y) OR (NOT x AND z)"
| "mix_of Majority x y z = (x AND y) OR (x AND z) OR (y AND z)"
| "mix_of Parity x y z = x XOR y XOR z"

record Round =
  mix :: Mix
  round_constant :: u32
  shifts :: "nat list"
  order :: "nat list"

definition HALF_MD4 :: "Round list" where
  "HALF_MD4 =
     [\<lparr>mix = Conditional, round_constant = 0, shifts = [3, 7, 11, 19], order = [0, 1, 2, 3, 4, 5, 6, 7]\<rparr>,
      \<lparr>mix = Majority, round_constant = 0x5a827999, shifts = [3, 5, 9, 13], order = [1, 3, 5, 7, 0, 2, 4, 6]\<rparr>,
      \<lparr>mix = Parity, round_constant = 0x6ed9eba1, shifts = [3, 9, 11, 15], order = [3, 7, 2, 6, 1, 5, 0, 4]\<rparr>]"

definition md4_step :: "u32 list \<Rightarrow> Round \<Rightarrow> state \<Rightarrow> nat \<times> nat \<Rightarrow> state" where
  "md4_step words r = (\<lambda>(a, b, c, d) (step, word).
     let replaced = word_rotl (shifts r ! (step mod 4))
       (a + mix_of (mix r) b c d + words ! word + round_constant r)
     in (d, replaced, b, c))"

definition half_md4 :: "state \<Rightarrow> u32 list \<Rightarrow> state" where
  "half_md4 st words =
     (let (a, b, c, d) =
        foldl (\<lambda>regs r. foldl (md4_step words r) regs (enumerate 0 (order r))) st HALF_MD4
      in case st of (s0, s1, s2, s3) \<Rightarrow> (s0 + a, s1 + b, s2 + c, s3 + d))"

definition TEA_DELTA :: u32 where "TEA_DELTA = 0x9e3779b9"

definition tea_cycle :: "u32 list \<Rightarrow> u32 \<times> u32 \<times> u32 \<Rightarrow> u32 \<times> u32 \<times> u32" where
  "tea_cycle key = (\<lambda>(v0, v1, sum).
     let sum = sum + TEA_DELTA;
         v0 = v0 + ((push_bit 4 v1 + key ! 0) XOR (v1 + sum) XOR (drop_bit 5 v1 + key ! 1));
         v1 = v1 + ((push_bit 4 v0 + key ! 2) XOR (v0 + sum) XOR (drop_bit 5 v0 + key ! 3))
     in (v0, v1, sum))"

definition tea :: "state \<Rightarrow> u32 list \<Rightarrow> state" where
  "tea st key =
     (case st of (s0, s1, s2, s3) \<Rightarrow>
        let (v0, v1, sum) = (tea_cycle key ^^ 16) (s0, s1, 0) in (s0 + v0, s1 + v1, s2, s3))"

definition dir_hash :: "bytes \<Rightarrow> HashVersion \<Rightarrow> HashSignedness \<Rightarrow> bytes \<Rightarrow> DirHash" where
  "dir_hash name version s seed =
     (let (mj, mn) = (case version of
            Legacy \<Rightarrow> (legacy name s, 0)
          | HalfMd4 \<Rightarrow>
              (case foldl (\<lambda>st chunk. half_md4 st (pack 8 chunk s)) (initial_state seed) (chunks 32 name)
               of (s0, s1, s2, s3) \<Rightarrow> (s1, s2))
          | Tea \<Rightarrow>
              (case foldl (\<lambda>st chunk. tea st (pack 4 chunk s)) (initial_state seed) (chunks 16 name)
               of (s0, s1, s2, s3) \<Rightarrow> (s0, s1)))
      in DirHash (off_the_end (mj AND NOT 1)) mn)"

section \<open>What a hash promises\<close>

lemma END_OF_SPACE_eq: "END_OF_SPACE = 0xFFFFFFFE"
  by (simp add: END_OF_SPACE_def push_bit_eq_mult)

lemma off_the_end_eq: "off_the_end m = (if m = 0xFFFFFFFE then 0xFFFFFFFC else m)"
  by (simp add: off_the_end_def END_OF_SPACE_eq push_bit_eq_mult)

lemma even_below_end:
  assumes "\<not> bit (m :: u32) 0" shows "m \<le> 0xFFFFFFFE"
proof -
  have "\<not> bit (unat m) 0" using assms by (simp only: bit_unsigned_iff) simp
  then have "even (unat m)" by (simp only: bit_0 not_not)
  then have "unat m \<le> 0xFFFFFFFE" using unat_u32_less [of m] by presburger
  then show ?thesis by (simp add: word_le_nat_alt)
qed

lemma off_the_end_reserved:
  assumes "\<not> bit m 0"
  shows "\<not> bit (off_the_end m) 0 \<and> off_the_end m < END_OF_SPACE
    \<and> (off_the_end m = m \<or> unmoved_major (off_the_end m) = Some m)"
  using assms even_below_end [OF assms]
  by (cases "m = 0xFFFFFFFE") (simp_all add: unmoved_major_def off_the_end_eq END_OF_SPACE_eq less_le)

lemma bit_clear_low: "\<not> bit (m AND NOT 1 :: u32) 0"
  by (simp add: bit_simps)

text \<open>The hash an algorithm arrives at, before the reserved values are left out.\<close>

definition fallen :: "bytes \<Rightarrow> HashVersion \<Rightarrow> HashSignedness \<Rightarrow> bytes \<Rightarrow> u32" where
  "fallen name version s seed =
     (case version of
        Legacy \<Rightarrow> legacy name s
      | HalfMd4 \<Rightarrow>
          fst (snd (foldl (\<lambda>st chunk. half_md4 st (pack 8 chunk s)) (initial_state seed) (chunks 32 name)))
      | Tea \<Rightarrow>
          fst (foldl (\<lambda>st chunk. tea st (pack 4 chunk s)) (initial_state seed) (chunks 16 name))) AND NOT 1"

lemma major_dir_hash: "major (dir_hash name version s seed) = off_the_end (fallen name version s seed)"
  by (simp add: dir_hash_def fallen_def Let_def split: HashVersion.split prod.split)

text \<open>
  C32: The reserved values of the hash space. No name has a major hash with the low bit that marks a
  continued block, nor the end of the space; only a hash that fell on the end of the space is
  moved, and \<open>unmoved_major\<close> names where it fell; the legacy hash has no minor hash.
\<close>

theorem dir_hash_reserved:
  "\<not> bit (major (dir_hash name version s seed)) 0
   \<and> major (dir_hash name version s seed) < END_OF_SPACE
   \<and> (major (dir_hash name version s seed) = fallen name version s seed
      \<or> unmoved_major (major (dir_hash name version s seed)) = Some (fallen name version s seed))
   \<and> minor (dir_hash name Legacy s seed) = 0"
proof -
  have "\<not> bit (fallen name version s seed) 0" unfolding fallen_def by (rule bit_clear_low)
  then show ?thesis
    unfolding major_dir_hash using off_the_end_reserved by (simp add: dir_hash_def)
qed

lemma widen_ascii:
  assumes "unat b < 128" shows "widen Signed b = widen Unsigned b"
proof -
  define k where "k = uint b"
  have "k < 128" using assms unfolding k_def by (metis of_nat_less_iff of_nat_numeral uint_nat)
  moreover have "0 \<le> k" unfolding k_def by (rule uint_ge_0)
  ultimately have "signed_take_bit 7 k = k" using signed_take_bit_int_eq_self [of 7 k] by simp
  then have "sint b = uint b" by (simp add: sint_uint k_def)
  then have "scast b = (ucast b :: u32)" by (metis scast_eq ucast_eq)
  then show ?thesis by simp
qed

lemma set_chunks: "c \<in> set (chunks n xs) \<Longrightarrow> set c \<subseteq> set xs"
proof (induction n xs arbitrary: c rule: chunks.induct)
  case (1 n xs)
  then show ?case
    by (subst (asm) chunks.simps)
      (auto split: if_splits dest: in_set_takeD in_set_dropD)
qed

lemma pack_ascii:
  assumes "\<forall>b \<in> set chunk. unat b < 128" shows "pack n chunk Signed = pack n chunk Unsigned"
proof -
  have "foldl (\<lambda>w b. push_bit 8 w + widen Signed b) p bs = foldl (\<lambda>w b. push_bit 8 w + widen Unsigned b) p bs"
    if "bs \<in> set (chunks 4 chunk)" for p bs
    using set_chunks [OF that] assms
    by (intro foldl_cong) (auto simp: widen_ascii simp del: widen.simps)
  then show ?thesis by (simp add: pack_def cong: map_cong)
qed

text \<open>A name of ASCII bytes hashes the same whether its bytes are read signed or unsigned.\<close>

theorem ascii_names_hash_alike:
  assumes "\<forall>b \<in> set name. unat b < 128"
  shows "dir_hash name version Signed seed = dir_hash name version Unsigned seed"
proof -
  have chunks: "pack n c Signed = pack n c Unsigned" if "c \<in> set (chunks k name)" for n k c
    using set_chunks [OF that] assms by (intro pack_ascii) auto
  have "legacy name Signed = legacy name Unsigned"
    using assms unfolding legacy_def
    by (intro arg_cong [of _ _ "\<lambda>x. push_bit 1 (fst x)"] foldl_cong)
      (auto simp: legacy_step_def widen_ascii simp del: widen.simps split: prod.split)
  moreover have "foldl (\<lambda>st c. half_md4 st (pack 8 c Signed)) st (chunks 32 name) =
      foldl (\<lambda>st c. half_md4 st (pack 8 c Unsigned)) st (chunks 32 name)"
    "foldl (\<lambda>st c. tea st (pack 4 c Signed)) st (chunks 16 name) =
      foldl (\<lambda>st c. tea st (pack 4 c Unsigned)) st (chunks 16 name)" for st
    by (intro foldl_cong; simp add: chunks)+
  ultimately show ?thesis by (simp only: dir_hash_def)
qed

theorem ascii_names_hash_alike_witness:
  "dir_hash [0x68, 0x65, 0x6c, 0x6c, 0x6f] HalfMd4 Signed (replicate 16 1) =
   dir_hash [0x68, 0x65, 0x6c, 0x6c, 0x6f] HalfMd4 Unsigned (replicate 16 1)"
  by (rule ascii_names_hash_alike) simp

end
