(* ===== verification/HtreeBuild.thy ===== *)
theory HtreeBuild
  imports DirPack DirIndex DirHash
begin

text \<open>
  The hash-indexed layout of \<^verbatim>\<open>crates/ferrosys/src/dir.rs\<close>: names ordered by hash, divided among
  entry blocks, and a search tree of one or two levels over those blocks.
\<close>

record HtreeDir =
  ht_seed :: bytes
  ht_version :: HashVersion
  ht_signedness :: HashSignedness
  ht_checksums :: bool

type_synonym hashed = "DirHash \<times> DirEntry"

fun split_dots :: "DirEntry list \<Rightarrow> (DirError, DirEntry \<times> DirEntry \<times> DirEntry list) outcome" where
  "split_dots (dot # dotdot # rest) =
     (if de_name dot = [0x2e] \<and> de_name dotdot = [0x2e, 0x2e] then Ok (dot, dotdot, rest)
      else Err MissingDotEntries)"
| "split_dots _ = Err MissingDotEntries"

text \<open>The comparator of \<^verbatim>\<open>sort_by_hash\<close>: the hashes, then the names byte by byte.\<close>

definition hash_le :: "hashed \<Rightarrow> hashed \<Rightarrow> bool" where
  "hash_le a b \<longleftrightarrow> fst a < fst b \<or> fst a = fst b \<and> lexordp_eq (de_name (snd a)) (de_name (snd b))"

text \<open>The standard library's \<^verbatim>\<open>sort_by\<close> is stable, so it is the insertion sort.\<close>

fun insert_by :: "('a \<Rightarrow> 'a \<Rightarrow> bool) \<Rightarrow> 'a \<Rightarrow> 'a list \<Rightarrow> 'a list" where
  "insert_by le x [] = [x]"
| "insert_by le x (y # ys) = (if le x y then x # y # ys else y # insert_by le x ys)"

definition sort_by_hash :: "HtreeDir \<Rightarrow> DirEntry list \<Rightarrow> hashed list" where
  "sort_by_hash h entries =
     foldr (insert_by hash_le)
       (map (\<lambda>e. (dir_hash (de_name e) (ht_version h) (ht_signedness h) (ht_seed h), e)) entries) []"

fun fill_leaves ::
  "nat \<Rightarrow> nat \<Rightarrow> hashed list \<Rightarrow> hashed list \<Rightarrow> nat \<Rightarrow> hashed list list \<Rightarrow> (DirError, hashed list list) outcome" where
  "fill_leaves block_size tail_len [] cur used leaves =
     (if cur \<noteq> [] then Ok (leaves @ [cur]) else Ok leaves)"
| "fill_leaves block_size tail_len (he # hs) cur used leaves =
     andThen (record_len (snd he) block_size tail_len) (\<lambda>need.
     andThen (sub64 block_size tail_len) (\<lambda>usable.
     if used + need > usable \<and> cur \<noteq> []
     then fill_leaves block_size tail_len hs [he] need (leaves @ [cur])
     else fill_leaves block_size tail_len hs (cur @ [he]) (used + need) leaves))"

text \<open>The hash an index entry stores for entry block \<open>k\<close>.\<close>

definition leaf_hash :: "hashed list list \<Rightarrow> nat \<Rightarrow> (DirError, u32) outcome" where
  "leaf_hash leaves k =
     (if k = 0 then Ok 0
      else
        andThen (idx_at leaves k) (\<lambda>leaf.
        andThen (idx_at leaf 0) (\<lambda>f.
        let first = major (fst f) in
        andThen (idx_at leaves (k - 1)) (\<lambda>prev.
        if prev = [] then Panic
        else
          let prev_last = major (fst (last prev)) in
          Ok (first OR (if first = prev_last then DX_HASH_CONTINUED else 0))))))"

definition checked_div_ceil :: "nat \<Rightarrow> nat \<Rightarrow> ('e, nat) outcome" where
  "checked_div_ceil a b = (if b = 0 then Panic else Ok (div_ceil a b))"

text \<open>One interior node, over the entry blocks \<open>chunk\<close>.\<close>

definition node_entries :: "u32 list \<Rightarrow> nat \<Rightarrow> nat list \<Rightarrow> DxEntry list" where
  "node_entries hashes first_leaf_block chunk =
     map (\<lambda>(j, k). \<lparr>dx_hash = (if j = 0 then 0 else hashes ! k), dx_block = of_nat (first_leaf_block + k)\<rparr>)
       (enumerate 0 chunk)"

definition build_index_node :: "nat \<Rightarrow> nat \<Rightarrow> DxEntry list \<Rightarrow> (DirError, DirBlock) outcome" where
  "build_index_node block_size node_limit entries =
     andThen (mapErr Encode (write_dx_node_header (replicate block_size 0))) (\<lambda>b.
     andThen (mapErr Encode (write_dx_entries b DX_NODE_COUNT_OFFSET node_limit entries)) (\<lambda>b.
     Ok \<lparr>block_bytes = b, block_kind = IndexBlock DX_NODE_COUNT_OFFSET node_limit\<rparr>))"

text \<open>The interior nodes, where there are any, and the entries of the root.\<close>

definition build_index ::
  "nat \<Rightarrow> nat \<Rightarrow> u32 list \<Rightarrow> nat \<Rightarrow> bool \<Rightarrow> (DirError, DirBlock list \<times> DxEntry list) outcome" where
  "build_index block_size node_limit hashes node_count indirect =
     (let n = length hashes; first_leaf_block = 1 + node_count in
      if \<not> indirect then
        Ok ([], map (\<lambda>k. \<lparr>dx_hash = hashes ! k, dx_block = of_nat (first_leaf_block + k)\<rparr>) [0..<n])
      else
        andThen (mapOutcome (\<lambda>chunk. build_index_node block_size node_limit (node_entries hashes first_leaf_block chunk))
          (chunks node_limit [0..<n])) (\<lambda>nodes.
        andThen (mapOutcome (\<lambda>i. andThen (idx_at hashes (i * node_limit)) (\<lambda>h.
            Ok \<lparr>dx_hash = h, dx_block = of_nat (1 + i)\<rparr>)) [0..<node_count]) (\<lambda>root_entries.
        Ok (nodes, root_entries))))"

definition htree_build_blocks :: "HtreeDir \<Rightarrow> DirEntry list \<Rightarrow> nat \<Rightarrow> (DirError, DirBlock list) outcome" where
  "htree_build_blocks h entries block_size =
     (let tail_len = (if ht_checksums h then DIR_TAIL_LEN else 0) in
      andThen (fits_in_one_block entries block_size tail_len) (\<lambda>fits.
      if fits then linear_build_blocks tail_len entries block_size
      else
      andThen (split_dots entries) (\<lambda>(dot, dotdot, rest).
      andThen (fill_leaves block_size tail_len (sort_by_hash h rest) [] 0 []) (\<lambda>leaves.
      andThen (mapOutcome (leaf_hash leaves) [0..<length leaves]) (\<lambda>hashes.
      let root_limit = dx_limit block_size DX_ROOT_COUNT_OFFSET (ht_checksums h);
          node_limit = dx_limit block_size DX_NODE_COUNT_OFFSET (ht_checksums h);
          indirect = (root_limit < length leaves)
      in
      andThen (if indirect then
          andThen (checked_div_ceil (length leaves) node_limit) (\<lambda>c.
          if root_limit < c then Err (IndexTooLarge (length leaves) (root_limit * node_limit)) else Ok c)
        else Ok 0) (\<lambda>node_count.
      andThen (build_index block_size node_limit hashes node_count indirect) (\<lambda>(nodes, root_entries).
      andThen (mapErr Encode (write_dx_root_header (replicate block_size 0) (de_inode dot) (de_inode dotdot)
          (version_to_u8 (ht_version h)) (if indirect then 1 else 0))) (\<lambda>root.
      andThen (mapErr Encode (write_dx_entries root DX_ROOT_COUNT_OFFSET root_limit root_entries)) (\<lambda>root.
      andThen (mapOutcome (\<lambda>leaf. andThen (pack_one_block (map snd leaf) block_size tail_len) (\<lambda>b.
          Ok (entries_block b))) leaves) (\<lambda>leaf_blocks.
      Ok (\<lparr>block_bytes = root, block_kind = IndexBlock DX_ROOT_COUNT_OFFSET root_limit\<rparr>
          # nodes @ leaf_blocks)))))))))))"

end
