(* ===== verification/HtreeSpec.thy ===== *)
theory HtreeSpec
  imports HtreeBuild "HOL-Library.Multiset"
begin

text \<open>
  What the hash-indexed layout of \<^verbatim>\<open>dir.rs\<close> builds, as facts the search rests on: the entries in
  hash order, the entry blocks they fill, and the lower bound the index keeps for each block.
\<close>

section \<open>The entries in hash order\<close>

abbreviation major_of :: "hashed \<Rightarrow> u32" where
  "major_of he \<equiv> major (fst he)"

lemma mset_insert_by: "mset (insert_by le x ys) = add_mset x (mset ys)"
  by (induction ys) auto

lemma set_insert_by: "set (insert_by le x ys) = insert x (set ys)"
  by (induction ys) auto

lemma mset_sort_by_hash:
  "mset (sort_by_hash h es) =
     mset (map (\<lambda>e. (dir_hash (de_name e) (ht_version h) (ht_signedness h) (ht_seed h), e)) es)"
proof -
  have "mset (foldr (insert_by hash_le) xs []) = mset xs" for xs
    by (induction xs) (simp_all add: mset_insert_by)
  then show ?thesis by (simp only: sort_by_hash_def)
qed

lemma set_sort_by_hash:
  "set (sort_by_hash h es) =
     (\<lambda>e. (dir_hash (de_name e) (ht_version h) (ht_signedness h) (ht_seed h), e)) ` set es"
  using mset_sort_by_hash [of h es, THEN mset_eq_setD] by simp

lemma hash_le_major:
  "hash_le a b \<Longrightarrow> major_of a \<le> major_of b"
  "\<not> hash_le a b \<Longrightarrow> major_of b \<le> major_of a"
proof -
  have total: "lexordp_eq xs ys \<or> lexordp_eq ys xs" for xs ys :: bytes
    by (rule lexordp_eq_linear)
  show "hash_le a b \<Longrightarrow> major_of a \<le> major_of b"
    by (auto simp: hash_le_def less_DirHash_def)
  show "\<not> hash_le a b \<Longrightarrow> major_of b \<le> major_of a"
    using total by (auto simp: hash_le_def less_DirHash_def not_less)
qed

lemma sorted_insert_by:
  "sorted_wrt (\<lambda>a b. major_of a \<le> major_of b) ys \<Longrightarrow>
    sorted_wrt (\<lambda>a b. major_of a \<le> major_of b) (insert_by hash_le x ys)"
proof (induction ys)
  case (Cons y ys)
  then show ?case using hash_le_major [of x y] by (auto simp: set_insert_by intro: order_trans)
qed simp

lemma sorted_sort_by_hash: "sorted_wrt (\<lambda>a b. major_of a \<le> major_of b) (sort_by_hash h es)"
proof -
  have "sorted_wrt (\<lambda>a b. major_of a \<le> major_of b) (foldr (insert_by hash_le) xs [])" for xs
    by (induction xs) (simp_all add: sorted_insert_by)
  then show ?thesis by (simp only: sort_by_hash_def)
qed

section \<open>The entry blocks\<close>

lemma fill_leaves_spec:
  assumes "\<forall>he \<in> set (cur @ hs). valid_entry (snd he) \<and> need (snd he) \<le> u"
    and "used = total (map snd cur)" "total (map snd cur) \<le> u"
  shows "\<exists>ls. fill_leaves (u + tail_len) tail_len hs cur used leaves = Ok (leaves @ ls)
    \<and> concat ls = cur @ hs \<and> (\<forall>l \<in> set ls. l \<noteq> [] \<and> total (map snd l) \<le> u)"
  using assms
proof (induction hs arbitrary: cur used leaves)
  case Nil
  then show ?case by auto
next
  case (Cons he hs)
  have rl: "record_len (snd he) (u + tail_len) tail_len = Ok (need (snd he))"
    using Cons.prems(1) by (simp add: record_len_eq)
  show ?case
  proof (cases "used + need (snd he) > u \<and> cur \<noteq> []")
    case True
    have he: "need (snd he) \<le> u" using Cons.prems(1) by simp
    have "\<exists>ls. fill_leaves (u + tail_len) tail_len hs [he] (need (snd he)) (leaves @ [cur]) = Ok ((leaves @ [cur]) @ ls)
      \<and> concat ls = [he] @ hs \<and> (\<forall>l \<in> set ls. l \<noteq> [] \<and> total (map snd l) \<le> u)"
      using Cons.prems(1) he by (intro Cons.IH) simp_all
    then obtain ls where ls: "fill_leaves (u + tail_len) tail_len hs [he] (need (snd he)) (leaves @ [cur]) = Ok ((leaves @ [cur]) @ ls)"
      "concat ls = [he] @ hs" "\<forall>l \<in> set ls. l \<noteq> [] \<and> total (map snd l) \<le> u" by blast
    then show ?thesis using True rl Cons.prems(3) by (intro exI [of _ "cur # ls"]) simp
  next
    case False
    then have "total (map snd (cur @ [he])) \<le> u" using Cons.prems by (cases "cur = []") auto
    then have "\<exists>ls. fill_leaves (u + tail_len) tail_len hs (cur @ [he]) (used + need (snd he)) leaves = Ok (leaves @ ls)
      \<and> concat ls = (cur @ [he]) @ hs \<and> (\<forall>l \<in> set ls. l \<noteq> [] \<and> total (map snd l) \<le> u)"
      using Cons.prems(1,2) by (intro Cons.IH) simp_all
    moreover have "fill_leaves (u + tail_len) tail_len (he # hs) cur used leaves =
        fill_leaves (u + tail_len) tail_len hs (cur @ [he]) (used + need (snd he)) leaves"
      using False rl by (simp only: fill_leaves.simps) auto
    ultimately show ?thesis by simp
  qed
qed

section \<open>The lower bound of an entry block\<close>

definition first_major :: "hashed list list \<Rightarrow> nat \<Rightarrow> u32" where
  "first_major ls k = major_of (hd (ls ! k))"

definition last_major :: "hashed list list \<Rightarrow> nat \<Rightarrow> u32" where
  "last_major ls k = major_of (last (ls ! k))"

definition low :: "hashed list list \<Rightarrow> nat \<Rightarrow> u32" where
  "low ls k = (if k = 0 then 0 else
     first_major ls k OR (if first_major ls k = last_major ls (k - 1) then DX_HASH_CONTINUED else 0))"

lemma leaf_hash_low:
  assumes "k < length ls" "\<forall>l \<in> set ls. l \<noteq> []" shows "leaf_hash ls k = Ok (low ls k)"
  using assms by (cases "ls ! k") (auto simp: leaf_hash_def low_def first_major_def last_major_def Let_def)

lemma leaf_hashes_low:
  "\<forall>l \<in> set ls. l \<noteq> [] \<Longrightarrow>
    mapOutcome (leaf_hash ls) [0..<length ls] = Ok (map (low ls) [0..<length ls])"
  by (intro mapOutcome_all_Ok) (auto simp: leaf_hash_low)

text \<open>The leaves of a built index: none empty, in hash order, no major hash with its low bit set.\<close>

definition ordered_leaves :: "hashed list list \<Rightarrow> bool" where
  "ordered_leaves ls \<longleftrightarrow> (\<forall>l \<in> set ls. l \<noteq> [])
     \<and> sorted_wrt (\<lambda>a b. major_of a \<le> major_of b) (concat ls)
     \<and> (\<forall>he \<in> set (concat ls). even (unat (major_of he)))"

lemma sorted_concat_blocks:
  assumes "sorted_wrt (\<lambda>a b. major_of a \<le> major_of b) (concat ls)" "i < j" "j < length ls"
    and "a \<in> set (ls ! i)" "b \<in> set (ls ! j)"
  shows "major_of a \<le> major_of b"
proof -
  have "ls = take j ls @ ls ! j # drop (Suc j) ls" using assms(3) by (simp add: id_take_nth_drop)
  then have "concat ls = concat (take j ls) @ ls ! j @ concat (drop (Suc j) ls)"
    by (metis concat.simps(2) concat_append)
  moreover have "a \<in> set (concat (take j ls))"
  proof -
    have "take j ls ! i \<in> set (take j ls)" using assms(2,3) by (intro nth_mem) simp
    then show ?thesis using assms(2,4) by auto
  qed
  ultimately show ?thesis using assms(1,5) by (auto simp: sorted_wrt_append)
qed

lemma sorted_block:
  assumes "sorted_wrt (\<lambda>a b. major_of a \<le> major_of b) (concat ls)" "i < length ls" "a \<in> set (ls ! i)"
  shows "first_major ls i \<le> major_of a \<and> major_of a \<le> last_major ls i"
proof -
  have "ls = take i ls @ ls ! i # drop (Suc i) ls" using assms(2) by (simp add: id_take_nth_drop)
  then have "concat ls = concat (take i ls) @ ls ! i @ concat (drop (Suc i) ls)"
    by (metis concat.simps(2) concat_append)
  then have sorted: "sorted_wrt (\<lambda>a b. major_of a \<le> major_of b) (ls ! i)"
    using assms(1) by (simp add: sorted_wrt_append)
  have "major_of (hd l) \<le> major_of a" if "sorted_wrt (\<lambda>a b. major_of a \<le> major_of b) l" "a \<in> set l" for l
    using that by (cases l) auto
  moreover have "major_of a \<le> major_of (last l)"
    if "sorted_wrt (\<lambda>a b. major_of a \<le> major_of b) l" "a \<in> set l" for l
    using that by (cases l rule: rev_cases) (auto simp: sorted_wrt_append)
  ultimately show ?thesis using sorted assms(3) by (simp add: first_major_def last_major_def)
qed

lemma unat_or_one:
  assumes "even (unat (x :: u32))" shows "unat (x OR 1) = unat x + 1"
proof -
  have "\<not> bit (unat x) 0" using assms by (simp only: bit_0 not_not)
  then have "\<not> bit x 0" by (simp only: bit_unsigned_iff) simp
  then have "x OR 1 = x + 1"
    by (intro disjunctive_add [symmetric]) (auto simp: bit_1_iff intro: gr0I)
  moreover have "unat x + 1 < 4294967296"
    using unat_u32_less [of x] assms by presburger
  ultimately show ?thesis by (simp add: unat_word_ariths)
qed

lemma majors_even:
  assumes "ordered_leaves ls" "k < length ls"
  shows "even (unat (first_major ls k))" "even (unat (last_major ls k))"
proof -
  have "ls ! k \<noteq> []" using assms nth_mem by (fastforce simp: ordered_leaves_def)
  then have "hd (ls ! k) \<in> set (ls ! k)" "last (ls ! k) \<in> set (ls ! k)" by simp_all
  moreover have "set (ls ! k) \<subseteq> set (concat ls)" using assms(2) nth_mem by fastforce
  ultimately have "hd (ls ! k) \<in> set (concat ls)" "last (ls ! k) \<in> set (concat ls)" by blast+
  then show "even (unat (first_major ls k))" "even (unat (last_major ls k))"
    using assms(1) by (auto simp: ordered_leaves_def first_major_def last_major_def)
qed

lemma unat_low:
  assumes "ordered_leaves ls" "0 < k" "k < length ls"
  shows "unat (low ls k) = unat (first_major ls k) + (if first_major ls k = last_major ls (k - 1) then 1 else 0)"
  using assms unat_or_one [OF majors_even(1) [OF assms(1,3)]]
  by (cases "first_major ls k = last_major ls (k - 1)") (simp_all add: low_def DX_HASH_CONTINUED_def)

text \<open>The first and last hashes of the blocks, in order.\<close>

lemma first_last_order:
  assumes "ordered_leaves ls" "i < length ls"
  shows "first_major ls i \<le> last_major ls i" "i < j \<Longrightarrow> j < length ls \<Longrightarrow> last_major ls i \<le> first_major ls j"
proof -
  have ne: "ls ! k \<noteq> []" if "k < length ls" for k using assms(1) that nth_mem by (fastforce simp: ordered_leaves_def)
  note sorted = assms(1) [unfolded ordered_leaves_def, THEN conjunct2, THEN conjunct1]
  show "first_major ls i \<le> last_major ls i"
    using sorted_block [OF sorted assms(2), of "hd (ls ! i)"] ne [OF assms(2)] by (simp add: first_major_def)
  show "last_major ls i \<le> first_major ls j" if "i < j" "j < length ls"
    using sorted_concat_blocks [OF sorted that] ne [OF that(2)] ne [OF assms(2)]
    by (simp add: first_major_def last_major_def)
qed

lemma low_Suc_le:
  assumes "ordered_leaves ls" "Suc k < length ls" shows "low ls k \<le> low ls (Suc k)"
proof (cases "k = 0")
  case False
  let ?f = "\<lambda>i. unat (first_major ls i)" and ?l = "\<lambda>i. unat (last_major ls i)"
  have k: "k < length ls" "0 < k" using False assms(2) by auto
  have "?f k \<le> ?l k" "?l k \<le> ?f (Suc k)"
    using first_last_order [OF assms(1)] k assms(2) by (simp_all add: word_le_nat_alt)
  moreover have "even (?f k)" "even (?f (Suc k))" "even (?l k)"
    using majors_even [OF assms(1)] k assms(2) by auto
  moreover have "?f (Suc k) = ?l k \<longleftrightarrow> first_major ls (Suc k) = last_major ls k"
    by (simp add: word_unat_eq_iff)
  ultimately have "unat (low ls k) \<le> unat (low ls (Suc k))"
    using unat_low [OF assms(1) k(2,1)] unat_low [OF assms(1) _ assms(2)]
    by (auto simp: le_less elim!: evenE split: if_splits)
  then show ?thesis by (simp add: word_le_nat_alt)
qed (simp add: low_def)

lemma low_mono:
  assumes "ordered_leaves ls" "i \<le> j" "j < length ls" shows "low ls i \<le> low ls j"
  using assms(2,3)
proof (induction j rule: dec_induct)
  case (step j)
  then show ?case using low_Suc_le [OF assms(1), of j] by simp
qed simp

section \<open>Where a search for a hash starts\<close>

definition search_start :: "hashed list list \<Rightarrow> u32 \<Rightarrow> nat" where
  "search_start ls m = length (takeWhile (\<lambda>x. x \<le> m) (map (low ls) [1..<length ls]))"

lemma takeWhile_count:
  assumes "k < n" "\<And>i. 0 < i \<Longrightarrow> i \<le> k \<Longrightarrow> P (f i)" "Suc k < n \<Longrightarrow> \<not> P (f (Suc k))"
  shows "length (takeWhile P (map f [1..<n])) = k"
proof -
  have "[1..<n] = [1..<Suc k] @ [Suc k..<n]"
    using assms(1) upt_add_eq_append [of 1 "Suc k" "n - Suc k"] by simp
  moreover have "takeWhile P (map f [Suc k..<n]) = []"
    using assms(3) by (cases "Suc k < n") (simp_all add: upt_rec)
  moreover have "takeWhile P (map f [1..<Suc k] @ xs) = map f [1..<Suc k] @ takeWhile P xs" for xs
    using assms(2) by (intro takeWhile_append2) auto
  ultimately show ?thesis by (simp del: upt_Suc)
qed

lemma search_start_spec:
  assumes "ordered_leaves ls" "ls \<noteq> []"
  shows "search_start ls m < length ls"
    and "0 < i \<Longrightarrow> i \<le> search_start ls m \<Longrightarrow> low ls i \<le> m"
    and "search_start ls m < i \<Longrightarrow> i < length ls \<Longrightarrow> m < low ls i"
proof -
  let ?xs = "map (low ls) [1..<length ls]"
  have le: "search_start ls m \<le> length ls - 1"
    using length_takeWhile_le [of _ ?xs] by (simp add: search_start_def)
  then show "search_start ls m < length ls" using assms(2) by (cases ls) auto
  show "low ls i \<le> m" if "0 < i" "i \<le> search_start ls m"
  proof -
    have lt: "i - 1 < length (takeWhile (\<lambda>x. x \<le> m) ?xs)" using that unfolding search_start_def by linarith
    then have "?xs ! (i - 1) \<le> m" using takeWhile_nth [OF lt] nth_mem [OF lt] set_takeWhileD by metis
    then show ?thesis using that le by simp
  qed
  show "m < low ls i" if "search_start ls m < i" "i < length ls"
  proof -
    have "search_start ls m < length ?xs" using that by simp
    then have "\<not> ?xs ! search_start ls m \<le> m"
      unfolding search_start_def by (rule nth_length_takeWhile)
    then have "m < low ls (Suc (search_start ls m))" using that by simp
    also have "\<dots> \<le> low ls i" using that by (intro low_mono assms(1)) auto
    finally show ?thesis .
  qed
qed

text \<open>
  The blocks a search passes on its way to a name: it starts at or before the name's block, and
  every later block up to that one continues the hash.
\<close>

lemma search_reaches:
  assumes "ordered_leaves ls" "j < length ls" "he \<in> set (ls ! j)" "major_of he = m"
  shows "search_start ls m \<le> j" "search_start ls m < k \<Longrightarrow> k \<le> j \<Longrightarrow> low ls k = m OR DX_HASH_CONTINUED"
proof -
  note sorted = assms(1) [unfolded ordered_leaves_def, THEN conjunct2, THEN conjunct1]
  have ne: "ls \<noteq> []" using assms(2) by auto
  have within: "first_major ls j \<le> m" "m \<le> last_major ls j"
    using sorted_block [OF sorted assms(2,3)] assms(4) by auto
  show "search_start ls m \<le> j"
  proof (rule ccontr)
    assume "\<not> search_start ls m \<le> j"
    then have s: "j < search_start ls m" "0 < search_start ls m" by auto
    let ?s = "search_start ls m"
    have lt: "?s < length ls" by (rule search_start_spec [OF assms(1) ne])
    have low: "unat (low ls ?s) \<le> unat m" using search_start_spec(2) [OF assms(1) ne, of ?s m] s by (simp add: word_le_nat_alt)
    have "last_major ls j \<le> last_major ls (?s - 1)"
    proof (cases "j = ?s - 1")
      case False
      then have "last_major ls j \<le> first_major ls (?s - 1)" using s lt by (intro first_last_order assms) auto
      also have "\<dots> \<le> last_major ls (?s - 1)" using lt by (intro first_last_order assms) auto
      finally show ?thesis .
    qed simp
    moreover have "last_major ls (?s - 1) \<le> first_major ls ?s" using s lt by (intro first_last_order assms) auto
    ultimately have "unat m \<le> unat (last_major ls (?s - 1))" "unat (last_major ls (?s - 1)) \<le> unat (first_major ls ?s)"
      using within(2) by (auto simp: word_le_nat_alt)
    then have "unat (first_major ls ?s) = unat (last_major ls (?s - 1))"
      using low unat_low [OF assms(1) s(2) lt] by linarith
    then show False using low unat_low [OF assms(1) s(2) lt] \<open>unat m \<le> unat (last_major ls (?s - 1))\<close>
      by (simp add: word_unat_eq_iff)
  qed
  show "low ls k = m OR DX_HASH_CONTINUED" if k: "search_start ls m < k" "k \<le> j"
  proof -
    have kl: "0 < k" "k < length ls" using k assms(2) by auto
    have "m < low ls k" by (rule search_start_spec(3) [OF assms(1) ne k(1) kl(2)])
    moreover have "first_major ls k \<le> m"
    proof (cases "k = j")
      case False
      have "first_major ls k \<le> last_major ls k" by (rule first_last_order(1) [OF assms(1) kl(2)])
      also have "\<dots> \<le> first_major ls j" using False k kl assms by (intro first_last_order) auto
      finally show ?thesis using within(1) by simp
    qed (use within in simp)
    ultimately have "unat m < unat (low ls k)" "unat (first_major ls k) \<le> unat m"
      by (simp_all add: word_less_nat_alt word_le_nat_alt)
    then have "first_major ls k = last_major ls (k - 1) \<and> unat (first_major ls k) = unat m"
      using unat_low [OF assms(1) kl] by (auto split: if_splits)
    then have "first_major ls k = m" "first_major ls k = last_major ls (k - 1)"
      by (simp_all add: word_unat_eq_iff)
    then show ?thesis using kl by (simp add: low_def)
  qed
qed

end
