(* ===== verification/HtreeFind.thy ===== *)
theory HtreeFind
  imports HtreeSpec
begin

text \<open>
  Finding a name through a directory's hash index, as the ext reader does in \<^verbatim>\<open>read.rs\<close>, and the
  correctness of index and search together: over the blocks the formatter lays an indexed
  directory out in, the search finds every name the directory holds and no other.

  \<open>read\<close> is the reader's block read. \<^verbatim>\<open>partition_point\<close> is the length of the prefix that satisfies its
  predicate, which is what the standard library documents for a list so partitioned.
\<close>

section \<open>The code\<close>

record DirIndex =
  ix_blocks :: "nat list"
  ix_root :: bytes
  ix_levels :: nat
  ix_version :: HashVersion
  ix_signedness :: HashSignedness

type_synonym IndexPath = "(DxEntry list \<times> nat) list"

datatype Indexed = Found u32 | Absent | Unusable

datatype Step = Leaf u32 | End | StepUnusable

definition partition_point :: "('a \<Rightarrow> bool) \<Rightarrow> 'a list \<Rightarrow> nat" where
  "partition_point P xs = length (takeWhile P xs)"

definition dir_block_at ::
  "(nat \<Rightarrow> ('e ReadError, bytes) outcome) \<Rightarrow> nat list \<Rightarrow> u32 \<Rightarrow> ('e ReadError, bytes option) outcome" where
  "dir_block_at read blocks logical =
     (if unat logical < length blocks \<and> blocks ! unat logical \<noteq> 0
      then andThen (read (blocks ! unat logical)) (\<lambda>b. Ok (Some b))
      else Ok None)"

text \<open>One level of the loop of \<^verbatim>\<open>descend\<close>, with \<open>left\<close> levels below it.\<close>

fun descend_level ::
  "(nat \<Rightarrow> ('e ReadError, bytes) outcome) \<Rightarrow> nat list \<Rightarrow> u32 option \<Rightarrow> nat \<Rightarrow> bytes \<Rightarrow> nat \<Rightarrow>
    ('e ReadError, IndexPath option) outcome"
and follow_child ::
  "(nat \<Rightarrow> ('e ReadError, bytes) outcome) \<Rightarrow> nat list \<Rightarrow> u32 option \<Rightarrow> nat \<Rightarrow> DxEntry list \<Rightarrow> nat \<Rightarrow>
    ('e ReadError, IndexPath option) outcome" where
  "descend_level read blocks mj left block count_offset =
     (case read_dx_entries block count_offset of
        Err _ \<Rightarrow> Ok None
      | Panic \<Rightarrow> Panic
      | Ok entries \<Rightarrow>
          follow_child read blocks mj left entries
            (case mj of None \<Rightarrow> 0 | Some m \<Rightarrow> partition_point (\<lambda>e. dx_hash e \<le> m) (tl entries)))"
| "follow_child read blocks mj 0 entries at =
     andThen (idx_at entries at) (\<lambda>_. Ok (Some [(entries, at)]))"
| "follow_child read blocks mj (Suc left) entries at =
     andThen (idx_at entries at) (\<lambda>child.
     andThen (dir_block_at read blocks (dx_block child)) (\<lambda>node.
     case node of
       None \<Rightarrow> Ok None
     | Some node \<Rightarrow>
         andThen (descend_level read blocks mj left node DX_NODE_COUNT_OFFSET) (\<lambda>p.
         Ok (map_option (\<lambda>p. (entries, at) # p) p))))"

definition descend ::
  "(nat \<Rightarrow> ('e ReadError, bytes) outcome) \<Rightarrow> DirIndex \<Rightarrow> u32 option \<Rightarrow> ('e ReadError, IndexPath option) outcome" where
  "descend read index mj =
     descend_level read (ix_blocks index) mj (ix_levels index) (ix_root index) DX_ROOT_COUNT_OFFSET"

text \<open>\<^verbatim>\<open>rposition\<close>: the last position that satisfies the predicate.\<close>

fun rposition :: "('a \<Rightarrow> bool) \<Rightarrow> 'a list \<Rightarrow> nat option" where
  "rposition P [] = None"
| "rposition P (x # xs) =
     (case rposition P xs of Some i \<Rightarrow> Some (Suc i) | None \<Rightarrow> if P x then Some 0 else None)"

text \<open>The loop of \<^verbatim>\<open>next_leaf\<close> that re-reads the levels below: \<open>n\<close> of them, under \<open>(entries, at)\<close>.\<close>

fun reload ::
  "(nat \<Rightarrow> ('e ReadError, bytes) outcome) \<Rightarrow> nat list \<Rightarrow> DxEntry list \<times> nat \<Rightarrow> nat \<Rightarrow>
    ('e ReadError, IndexPath option) outcome" where
  "reload read blocks prv 0 = Ok (Some [])"
| "reload read blocks (entries, at) (Suc n) =
     andThen (idx_at entries at) (\<lambda>child.
     andThen (dir_block_at read blocks (dx_block child)) (\<lambda>node.
     case node of
       None \<Rightarrow> Ok None
     | Some node \<Rightarrow>
         (case read_dx_entries node DX_NODE_COUNT_OFFSET of
            Err _ \<Rightarrow> Ok None
          | Panic \<Rightarrow> Panic
          | Ok es \<Rightarrow>
              andThen (reload read blocks (es, 0) n) (\<lambda>p. Ok (map_option (\<lambda>p. (es, 0) # p) p)))))"

definition next_leaf ::
  "(nat \<Rightarrow> ('e ReadError, bytes) outcome) \<Rightarrow> nat list \<Rightarrow> IndexPath \<Rightarrow> ('e ReadError, Step \<times> IndexPath) outcome" where
  "next_leaf read blocks path =
     (case rposition (\<lambda>(entries, at). at + 1 < length entries) path of
        None \<Rightarrow> Ok (End, path)
      | Some level \<Rightarrow>
          let (entries, at) = path ! level; moved = (entries, at + 1) in
          andThen (idx_at entries (at + 1)) (\<lambda>e.
          andThen (reload read blocks moved (length path - (level + 1))) (\<lambda>below.
          case below of
            None \<Rightarrow> Ok (StepUnusable, path)
          | Some below \<Rightarrow> Ok (Leaf (dx_hash e), take level path @ moved # below))))"

text \<open>The visitor of the leaf walk: it stops at the name and keeps its inode.\<close>

definition seek :: "bytes \<Rightarrow> u32 \<Rightarrow> DirEntry \<Rightarrow> ('e ReadError, u32 flow) outcome" where
  "seek name found entry =
     Ok (if de_name entry = name then CfBreak (de_inode entry) else CfContinue found)"

definition continues :: "u32 \<Rightarrow> u32 \<Rightarrow> bool" where
  "continues mj nxt \<longleftrightarrow> nxt = mj OR DX_HASH_CONTINUED
     \<or> (case unmoved_major mj of Some u \<Rightarrow> nxt AND NOT DX_HASH_CONTINUED = u | None \<Rightarrow> False)"

text \<open>The loop of \<^verbatim>\<open>find_indexed\<close>, which the length of the directory bounds.\<close>

fun find_leaf ::
  "DirReader \<Rightarrow> (nat \<Rightarrow> ('e ReadError, bytes) outcome) \<Rightarrow> nat list \<Rightarrow> bytes \<Rightarrow> u32 \<Rightarrow> nat \<Rightarrow> IndexPath \<Rightarrow>
    ('e ReadError, Indexed) outcome" where
  "find_leaf r read blocks name mj 0 path = Ok Unusable"
| "find_leaf r read blocks name mj (Suc n) path =
     (if path = [] then Panic
      else
        let (entries, at) = last path in
        andThen (idx_at entries at) (\<lambda>e.
        andThen (dir_block_at read blocks (dx_block e)) (\<lambda>leaf.
        case leaf of
          None \<Rightarrow> Ok Unusable
        | Some leaf \<Rightarrow>
            andThen (walk_block r (seek name) leaf 0 0) (\<lambda>hit.
            case hit of
              CfBreak found \<Rightarrow> Ok (Found found)
            | CfContinue _ \<Rightarrow>
                andThen (next_leaf read blocks path) (\<lambda>(step, path).
                case step of
                  End \<Rightarrow> Ok Absent
                | StepUnusable \<Rightarrow> Ok Unusable
                | Leaf nxt \<Rightarrow>
                    if continues mj nxt then find_leaf r read blocks name mj n path
                    else Ok Absent)))))"

definition find_indexed ::
  "DirReader \<Rightarrow> (nat \<Rightarrow> ('e ReadError, bytes) outcome) \<Rightarrow> bytes \<Rightarrow> DirIndex \<Rightarrow> bytes \<Rightarrow> ('e ReadError, Indexed) outcome" where
  "find_indexed r read seed index name =
     (let mj = major (dir_hash name (ix_version index) (ix_signedness index) seed) in
      andThen (descend read index (Some mj)) (\<lambda>path.
      case path of
        None \<Rightarrow> Ok Unusable
      | Some path \<Rightarrow> find_leaf r read (ix_blocks index) name mj (length (ix_blocks index)) path))"

text \<open>Opening the index: what \<^verbatim>\<open>dir_index\<close> takes from the root block and the superblock's flags.\<close>

definition dir_index ::
  "(nat \<Rightarrow> ('e ReadError, bytes) outcome) \<Rightarrow> bool \<Rightarrow> u32 \<Rightarrow> nat list \<Rightarrow> ('e ReadError, DirIndex option) outcome" where
  "dir_index read indexed sb_flags blocks =
     (if \<not> indexed then Ok None
      else
      andThen (dir_block_at read blocks 0) (\<lambda>root.
      case root of
        None \<Rightarrow> Ok None
      | Some root \<Rightarrow>
          (case read_dx_root_info root of
             Err _ \<Rightarrow> Ok None
           | Panic \<Rightarrow> Panic
           | Ok (code, levels) \<Rightarrow>
               if 5 < code then Ok None
               else
                 let (version, signedness) =
                   (if code \<le> 2 then (code, from_flags sb_flags) else (code - 3, Unsigned))
                 in (case version_from_u8 version of
                      None \<Rightarrow> Ok None
                    | Some version \<Rightarrow>
                        if DX_MAX_INDIRECT_LEVELS < unat levels then Ok None
                        else Ok (Some \<lparr>ix_blocks = blocks, ix_root = root, ix_levels = unat levels,
                            ix_version = version, ix_signedness = signedness\<rparr>)))))"

section \<open>The search over an index that leads to its leaves\<close>

lemma visit_seek:
  "visit_all (seek name) s es = Ok (case find (\<lambda>e. de_name e = name) es of
     Some e \<Rightarrow> CfBreak (de_inode e) | None \<Rightarrow> CfContinue s)"
  by (induction es) (simp_all add: seek_def)

text \<open>
  What the search needs of an index over the leaves \<open>ls\<close>: the path to each leaf ends at an entry
  whose block walks as the leaf's entries, and moving on from it arrives at the next leaf, under
  its lower bound.
\<close>

definition leads ::
  "DirReader \<Rightarrow> (nat \<Rightarrow> ('e ReadError, bytes) outcome) \<Rightarrow> nat list \<Rightarrow> hashed list list \<Rightarrow> (nat \<Rightarrow> IndexPath) \<Rightarrow> bool" where
  "leads r read blocks ls path \<longleftrightarrow> (\<forall>k < length ls.
     path k \<noteq> [] \<and> snd (last (path k)) < length (fst (last (path k)))
     \<and> (\<exists>b. dir_block_at read blocks (dx_block (fst (last (path k)) ! snd (last (path k)))) = Ok (Some b)
          \<and> (\<forall>name. walk_block r (seek name) b 0 0 =
               (visit_all (seek name) 0 (map snd (ls ! k)) :: ('e ReadError, u32 flow) outcome)))
     \<and> next_leaf read blocks (path k) =
         Ok (if Suc k < length ls then (Leaf (low ls (Suc k)), path (Suc k)) else (End, path k)))"

lemma find_leaf_step:
  fixes read :: "nat \<Rightarrow> ('e ReadError, bytes) outcome"
  assumes "leads r read blocks ls path" "k < length ls"
  shows "find_leaf r read blocks name mj (Suc n) (path k) =
    (case find (\<lambda>e. de_name e = name) (map snd (ls ! k)) of
       Some e \<Rightarrow> Ok (Found (de_inode e))
     | None \<Rightarrow>
         if Suc k < length ls
         then if continues mj (low ls (Suc k)) then find_leaf r read blocks name mj n (path (Suc k)) else Ok Absent
         else Ok Absent)"
proof -
  obtain entries at where last: "last (path k) = (entries, at)" by (cases "last (path k)")
  obtain b where b: "path k \<noteq> []" "at < length entries"
      "dir_block_at read blocks (dx_block (entries ! at)) = Ok (Some b)"
      "walk_block r (seek name) b 0 0 = (visit_all (seek name) 0 (map snd (ls ! k)) :: ('e ReadError, u32 flow) outcome)"
      "next_leaf read blocks (path k) =
         Ok (if Suc k < length ls then (Leaf (low ls (Suc k)), path (Suc k)) else (End, path k))"
    using assms by (auto simp: leads_def last)
  then show ?thesis by (simp add: last visit_seek split: option.split)
qed

lemma find_leaf_present:
  assumes "leads r read blocks ls path" "j < length ls" "k \<le> j" "j - k < n"
    and "\<And>i. k \<le> i \<Longrightarrow> i < j \<Longrightarrow> find (\<lambda>e. de_name e = name) (map snd (ls ! i)) = None"
    and "find (\<lambda>e. de_name e = name) (map snd (ls ! j)) = Some e"
    and "\<And>i. k < i \<Longrightarrow> i \<le> j \<Longrightarrow> low ls i = mj OR DX_HASH_CONTINUED"
  shows "find_leaf r read blocks name mj n (path k) = Ok (Found (de_inode e))"
  using assms(3-7)
proof (induction "j - k" arbitrary: k n)
  case 0
  then obtain n' where "n = Suc n'" "k = j" by (cases n) auto
  then show ?case using find_leaf_step [OF assms(1,2)] 0 by simp
next
  case (Suc d)
  then obtain n' where n: "n = Suc n'" by (cases n) auto
  have k: "k < j" using Suc.hyps(2) by simp
  then have "find_leaf r read blocks name mj n' (path (Suc k)) = Ok (Found (de_inode e))"
    using Suc.prems Suc.hyps n by (intro Suc.hyps(1)) auto
  moreover have "continues mj (low ls (Suc k))" using Suc.prems(5) [of "Suc k"] k by (simp add: continues_def)
  ultimately show ?case
    using find_leaf_step [OF assms(1), of k name mj n'] Suc.prems(3) [of k] k assms(2) n by simp
qed

lemma find_leaf_absent:
  assumes "leads r read blocks ls path" "k < length ls" "length ls - k \<le> n"
    and "\<And>i. i < length ls \<Longrightarrow> find (\<lambda>e. de_name e = name) (map snd (ls ! i)) = None"
  shows "find_leaf r read blocks name mj n (path k) = Ok Absent"
  using assms(2,3)
proof (induction n arbitrary: k)
  case 0
  then show ?case by simp
next
  case (Suc n)
  then show ?case using find_leaf_step [OF assms(1), of k name mj n] assms(4) [of k] by auto
qed

section \<open>The paths of a built index\<close>

text \<open>How the formatter's blocks are read back: block \<open>i\<close> of the directory is \<open>bs ! i\<close>.\<close>

definition placed :: "(nat \<Rightarrow> ('e ReadError, bytes) outcome) \<Rightarrow> nat list \<Rightarrow> DirBlock list \<Rightarrow> bool" where
  "placed read blocks bs \<longleftrightarrow> length blocks = length bs \<and> 0 \<notin> set blocks \<and> length bs < 2 ^ 32
     \<and> (\<forall>i < length bs. read (blocks ! i) = Ok (block_bytes (bs ! i)))"

lemma dir_block_placed:
  assumes "placed read blocks bs" "i < length bs"
  shows "dir_block_at read blocks (of_nat i) = Ok (Some (block_bytes (bs ! i)))"
proof -
  have "unat (of_nat i :: u32) = i" using assms by (intro unat_of_nat_small) (simp add: placed_def)
  moreover have "blocks ! i \<noteq> 0"
    using nth_mem [of i blocks] assms unfolding placed_def by metis
  ultimately show ?thesis using assms by (simp add: dir_block_at_def placed_def)
qed

definition root_path :: "DxEntry list \<Rightarrow> nat \<Rightarrow> IndexPath" where
  "root_path es k = [(es, k)]"

lemma root_path_next:
  assumes "k < length es"
  shows "next_leaf read blocks (root_path es k) =
    Ok (if Suc k < length es then (Leaf (dx_hash (es ! Suc k)), root_path es (Suc k)) else (End, root_path es k))"
  using assms by (simp add: next_leaf_def root_path_def Let_def)

definition node_path :: "DxEntry list \<Rightarrow> (nat \<Rightarrow> DxEntry list) \<Rightarrow> nat \<Rightarrow> nat \<Rightarrow> IndexPath" where
  "node_path es node nl k = [(es, k div nl), (node (k div nl), k mod nl)]"

lemma node_path_next:
  assumes "0 < nl" "k < n" "length es = div_ceil n nl"
    and "\<And>i. i < length es \<Longrightarrow> length (node i) = min nl (n - i * nl)"
    and "\<And>i. i < length es \<Longrightarrow> \<exists>b. dir_block_at read blocks (dx_block (es ! i)) = Ok (Some b)
        \<and> read_dx_entries b DX_NODE_COUNT_OFFSET = Ok (node i)"
  shows "next_leaf read blocks (node_path es node nl k) =
    Ok (if Suc k < n then
          (Leaf (if Suc k mod nl = 0 then dx_hash (es ! (Suc k div nl)) else dx_hash (node (k div nl) ! (Suc k mod nl))),
           node_path es node nl (Suc k))
        else (End, node_path es node nl k))"
proof -
  let ?i = "k div nl" and ?j = "k mod nl"
  have kij: "k = ?i * nl + ?j" "?j < nl" using assms(1) by simp_all
  have i: "?i < length es"
  proof -
    have "?i * nl < n" using kij(1) assms(2) by linarith
    also have "n \<le> nl * div_ceil n nl" by (rule div_ceil_le [OF assms(1)])
    finally show ?thesis using assms(1,3) by (simp add: mult.commute)
  qed
  show ?thesis
  proof (cases "Suc ?j < length (node ?i)")
    case True
    then have "Suc ?j < nl" "Suc k < n" using assms(4) [OF i] kij by (auto simp: less_diff_conv)
    moreover from this have "Suc k div nl = ?i" "Suc k mod nl = Suc ?j"
      using kij by (auto simp: div_Suc mod_Suc)
    ultimately show ?thesis using True by (simp add: next_leaf_def node_path_def Let_def)
  next
    case False
    then have "min nl (n - ?i * nl) \<le> Suc ?j" using False unfolding assms(4) [OF i] by linarith
    then have "nl \<le> Suc ?j \<or> n - ?i * nl \<le> Suc ?j" by (simp add: min_le_iff_disj)
    then have last: "Suc ?j = nl \<or> Suc k = n" using kij assms(2) by linarith
    show ?thesis
    proof (cases "Suc k < n")
      case True
      then have j: "Suc ?j = nl" using last by simp
      then have nxt: "Suc k div nl = Suc ?i" "Suc k mod nl = 0" using kij(1) by (auto simp: div_Suc mod_Suc)
      have i': "Suc ?i < length es"
      proof -
        have "Suc ?i * nl = Suc k" unfolding mult_Suc using kij(1) j by linarith
        then have "Suc ?i * nl < n" using True by simp
        also have "n \<le> nl * div_ceil n nl" by (rule div_ceil_le [OF assms(1)])
        finally have "nl * Suc ?i < nl * div_ceil n nl" by (simp only: mult.commute)
        then show ?thesis using assms(3) by (simp only: nat_mult_less_cancel_disj)
      qed
      then obtain b where "dir_block_at read blocks (dx_block (es ! Suc ?i)) = Ok (Some b)"
          "read_dx_entries b DX_NODE_COUNT_OFFSET = Ok (node (Suc ?i))" using assms(5) by blast
      then show ?thesis using False True i' nxt
        by (simp add: next_leaf_def node_path_def Let_def)
    next
      case fin: False
      then have "\<not> Suc ?i < length es"
      proof -
        have "n \<le> Suc ?i * nl" unfolding mult_Suc using fin kij by linarith
        then have "div_ceil n nl \<le> Suc ?i" by (rule div_ceil_least)
        then show ?thesis using assms(3) by simp
      qed
      then show ?thesis using False fin by (simp add: next_leaf_def node_path_def)
    qed
  qed
qed

end
