(* ===== verification/HtreeSearch.thy ===== *)
theory HtreeSearch
  imports HtreeFind
begin

text \<open>
  Index and search together: over the blocks \<^verbatim>\<open>dir.rs\<close> builds for an indexed directory, the lookup of
  \<^verbatim>\<open>read.rs\<close> opens the index and finds every name the directory holds and no other.
\<close>

section \<open>The entries of the root and the nodes\<close>

definition flat_entries :: "hashed list list \<Rightarrow> DxEntry list" where
  "flat_entries ls = map (\<lambda>k. \<lparr>dx_hash = low ls k, dx_block = of_nat (1 + k)\<rparr>) [0..<length ls]"

definition root_entries :: "hashed list list \<Rightarrow> nat \<Rightarrow> DxEntry list" where
  "root_entries ls nl =
     map (\<lambda>i. \<lparr>dx_hash = low ls (i * nl), dx_block = of_nat (1 + i)\<rparr>) [0..<div_ceil (length ls) nl]"

definition child_entries :: "hashed list list \<Rightarrow> nat \<Rightarrow> nat \<Rightarrow> DxEntry list" where
  "child_entries ls nl i =
     map (\<lambda>j. \<lparr>dx_hash = (if j = 0 then 0 else low ls (i * nl + j)),
               dx_block = of_nat (1 + div_ceil (length ls) nl + (i * nl + j))\<rparr>) [0..<min nl (length ls - i * nl)]"

lemma node_entries_chunk:
  fixes ls :: "hashed list list" and nl :: nat
  defines "n \<equiv> length ls" and "c \<equiv> div_ceil (length ls) nl"
  shows "node_entries (map (low ls) [0..<n]) (1 + c) [i * nl..<min n (i * nl + nl)] = child_entries ls nl i"
proof -
  have len: "min n (a + nl) - a = min nl (n - a)" for a by (simp add: min_def) linarith
  have j: "i * nl + j < n" if "j < min nl (n - i * nl)" for j using that by (simp add: less_diff_conv add.commute)
  show ?thesis
    unfolding node_entries_def child_entries_def n_def [symmetric] c_def [folded n_def, symmetric]
    using j by (intro nth_equalityI) (simp_all add: len nth_enumerate_eq del: of_nat_add of_nat_Suc of_nat_mult)
qed

lemma build_index_flat:
  "build_index bs nl (map (low ls) [0..<length ls]) 0 False = Ok ([], flat_entries ls)"
  by (simp add: build_index_def flat_entries_def Let_def)

lemma build_index_node_reads:
  assumes "nl < 65536" "build_index_node bs nl es = Ok b"
  shows "read_dx_entries (block_bytes b) DX_NODE_COUNT_OFFSET = Ok es"
proof -
  obtain b0 b1 where w: "write_dx_entries b0 DX_NODE_COUNT_OFFSET nl es = Ok b1" and "block_bytes b = b1"
    using assms(2) unfolding build_index_node_def by auto
  then show ?thesis using read_written_dx_entries [OF assms(1) w] by simp
qed

lemma build_index_deep:
  assumes "0 < nl" "nl < 65536"
    and "build_index bs nl (map (low ls) [0..<length ls]) (div_ceil (length ls) nl) True = Ok (nodes, es)"
  shows "es = root_entries ls nl" "length nodes = div_ceil (length ls) nl"
    and "i < length nodes \<Longrightarrow> read_dx_entries (block_bytes (nodes ! i)) DX_NODE_COUNT_OFFSET = Ok (child_entries ls nl i)"
proof -
  define n c where "n = length ls" and "c = div_ceil (length ls) nl"
  let ?hs = "map (low ls) [0..<n]"
  have nodes: "mapOutcome (\<lambda>chunk. build_index_node bs nl (node_entries ?hs (1 + c) chunk)) (chunks nl [0..<n]) = Ok nodes"
    and es: "mapOutcome (\<lambda>i. andThen (idx_at ?hs (i * nl)) (\<lambda>h. Ok \<lparr>dx_hash = h, dx_block = of_nat (1 + i)\<rparr>)) [0..<c] = (Ok es :: (DirError, _) outcome)"
    using assms(3) unfolding build_index_def n_def c_def by (auto simp: Let_def)
  have "y = \<lparr>dx_hash = low ls (i * nl), dx_block = of_nat (1 + i)\<rparr>"
    if "andThen (idx_at ?hs (i * nl)) (\<lambda>h. Ok \<lparr>dx_hash = h, dx_block = of_nat (1 + i)\<rparr>) = (Ok y :: (DirError, _) outcome)" for i y
    using that by (auto simp: idx_at_def split: if_splits)
  from mapOutcome_Ok_cong [OF es this] show "es = root_entries ls nl"
    unfolding root_entries_def c_def .
  show len: "length nodes = div_ceil (length ls) nl"
    using mapOutcome_length [OF nodes] assms(1) by (simp add: length_chunks n_def)
  assume "i < length nodes"
  then have i: "i < length (chunks nl [0..<n])" using mapOutcome_length [OF nodes] by simp
  have "build_index_node bs nl (node_entries ?hs (1 + c) (chunks nl [0..<n] ! i)) = Ok (nodes ! i)"
    by (rule mapOutcome_nth [OF nodes i])
  also have "chunks nl [0..<n] ! i = [i * nl..<min n (i * nl + nl)]"
    using i unfolding chunks_upt [OF assms(1)] by simp
  finally have "build_index_node bs nl (child_entries ls nl i) = Ok (nodes ! i)"
    unfolding n_def c_def node_entries_chunk .
  then show "read_dx_entries (block_bytes (nodes ! i)) DX_NODE_COUNT_OFFSET = Ok (child_entries ls nl i)"
    by (rule build_index_node_reads [OF assms(2)])
qed

lemma root_header_info:
  assumes "write_dx_root_header (replicate bs 0) dir_ino parent_ino version levels = Ok b"
  shows "length b = bs" "32 \<le> bs" "b ! 28 = version" "b ! 30 = levels"
proof -
  show bs: "32 \<le> bs"
    using assms by (auto simp: write_dx_root_header_def DX_ROOT_COUNT_OFFSET_def split: if_splits)
  have sub: "(sub64 bs 12 :: (ParseError, nat) outcome) = Ok x \<longleftrightarrow> x = bs - 12" for x
    using bs by (auto simp: sub64_def)
  obtain b1 b2 b3 b4 b5 b6 b7 b8 b9 b10 b11 b12 b13 b14 b15 where puts:
      "put_u32 (replicate bs 0) 0 dir_ino = (Ok b1 :: (ParseError, _) outcome)"
      "put_u16 b1 4 12 = (Ok b2 :: (ParseError, _) outcome)"
      "put_u8 b2 6 1 = (Ok b3 :: (ParseError, _) outcome)"
      "put_u8 b3 7 (file_type_to_u8 Dir) = (Ok b4 :: (ParseError, _) outcome)"
      "put_u8 b4 8 0x2e = (Ok b5 :: (ParseError, _) outcome)"
      "put_u32 b5 12 parent_ino = (Ok b6 :: (ParseError, _) outcome)"
      "put_u16 b6 16 (of_nat (bs - 12)) = (Ok b7 :: (ParseError, _) outcome)"
      "put_u8 b7 18 2 = (Ok b8 :: (ParseError, _) outcome)"
      "put_u8 b8 19 (file_type_to_u8 Dir) = (Ok b9 :: (ParseError, _) outcome)"
      "put_u8 b9 20 0x2e = (Ok b10 :: (ParseError, _) outcome)"
      "put_u8 b10 21 0x2e = (Ok b11 :: (ParseError, _) outcome)"
      "put_u32 b11 24 0 = (Ok b12 :: (ParseError, _) outcome)"
    and b: "put_u8 b12 28 version = (Ok b13 :: (ParseError, _) outcome)"
      "put_u8 b13 29 8 = (Ok b14 :: (ParseError, _) outcome)"
      "put_u8 b14 30 levels = (Ok b15 :: (ParseError, _) outcome)"
      "put_u8 b15 31 0 = (Ok b :: (ParseError, _) outcome)"
    using assms unfolding write_dx_root_header_def DX_ROOT_COUNT_OFFSET_def Let_def length_replicate andThen_Ok_iff sub
      if_not_P [OF bs [THEN leD]] by blast
  have "length b12 = bs"
    using f32.put_length [OF puts(1)] f16.put_length [OF puts(2)] f8.put_length [OF puts(3)] f8.put_length [OF puts(4)] f8.put_length [OF puts(5)] f32.put_length [OF puts(6)]
      f16.put_length [OF puts(7)] f8.put_length [OF puts(8)] f8.put_length [OF puts(9)] f8.put_length [OF puts(10)] f8.put_length [OF puts(11)] f32.put_length [OF puts(12)] by simp
  then show "length b = bs" "b ! 28 = version" "b ! 30 = levels"
    using b bs by (auto simp: f8.put_law nth_splice_in nth_splice_out split: if_splits)
qed

section \<open>The blocks of an indexed directory\<close>

lemma even_major: "even (unat (major (dir_hash name version s seed)))"
proof -
  have "\<not> bit (major (dir_hash name version s seed)) 0"
    unfolding major_dir_hash fallen_def using off_the_end_reserved [OF bit_clear_low] by simp
  then have "\<not> bit (unat (major (dir_hash name version s seed))) 0" by (simp only: bit_unsigned_iff) simp
  then show ?thesis by (simp only: bit_0 not_not)
qed

text \<open>What the index blocks hold, with \<open>nc\<close> interior nodes between the root and the leaves.\<close>

definition index_shape :: "hashed list list \<Rightarrow> DirBlock list \<Rightarrow> nat \<Rightarrow> u8 \<Rightarrow> bool" where
  "index_shape ls blocks nc levels \<longleftrightarrow>
     nc = 0 \<and> levels = 0 \<and> read_dx_entries (block_bytes (blocks ! 0)) DX_ROOT_COUNT_OFFSET = Ok (flat_entries ls)
   \<or> (\<exists>nl > 0. nc = div_ceil (length ls) nl \<and> levels = 1
        \<and> read_dx_entries (block_bytes (blocks ! 0)) DX_ROOT_COUNT_OFFSET = Ok (root_entries ls nl)
        \<and> (\<forall>i < nc. read_dx_entries (block_bytes (blocks ! (1 + i))) DX_NODE_COUNT_OFFSET = Ok (child_entries ls nl i)))"

definition dir_tail :: "HtreeDir \<Rightarrow> nat" where
  "dir_tail h = (if ht_checksums h then DIR_TAIL_LEN else 0)"

lemma dx_limit_bound: "bs \<le> 65536 \<Longrightarrow> dx_limit bs co c < 65536"
  by (auto simp: dx_limit_def Let_def DX_ENTRY_LEN_def)

lemma ordered_filled:
  assumes "concat ls = sort_by_hash h es" "\<forall>l \<in> set ls. l \<noteq> []"
  shows "ordered_leaves ls"
  unfolding ordered_leaves_def assms(1)
  using assms(2) sorted_sort_by_hash [of h es] even_major by (auto simp: set_sort_by_hash)

lemma built_steps:
  fixes h :: HtreeDir and es :: "DirEntry list" and bs :: nat
  defines "t \<equiv> dir_tail h" and "rl \<equiv> dx_limit bs DX_ROOT_COUNT_OFFSET (ht_checksums h)"
    and "nl \<equiv> dx_limit bs DX_NODE_COUNT_OFFSET (ht_checksums h)"
  assumes "htree_build_blocks h es bs = Ok blocks" "fits_in_one_block es bs t = Ok False"
  obtains dot dotdot rest ls hashes nc nodes re root0 root leaf_blocks where
    "split_dots es = Ok (dot, dotdot, rest)"
    "fill_leaves bs t (sort_by_hash h rest) [] 0 [] = Ok ls"
    "mapOutcome (leaf_hash ls) [0..<length ls] = Ok hashes"
    "(if rl < length ls then andThen (checked_div_ceil (length ls) nl) (\<lambda>c.
          if rl < c then Err (IndexTooLarge (length ls) (rl * nl)) else Ok c) else Ok 0) = Ok nc"
    "build_index bs nl hashes nc (rl < length ls) = Ok (nodes, re)"
    "write_dx_root_header (replicate bs 0) (de_inode dot) (de_inode dotdot)
       (version_to_u8 (ht_version h)) (if rl < length ls then 1 else 0) = Ok root0"
    "write_dx_entries root0 DX_ROOT_COUNT_OFFSET rl re = Ok root"
    "mapOutcome (\<lambda>leaf. andThen (pack_one_block (map snd leaf) bs t) (\<lambda>b. Ok (entries_block b))) ls = Ok leaf_blocks"
    "\<lparr>block_bytes = root, block_kind = IndexBlock DX_ROOT_COUNT_OFFSET rl\<rparr> # nodes @ leaf_blocks = blocks"
proof -
  note build = assms(4) [unfolded htree_build_blocks_def dir_tail_def [symmetric] Let_def
    t_def [symmetric] rl_def [symmetric] nl_def [symmetric] assms(5) andThen.simps if_False andThen_Ok_iff mapErr_iffs
    split_paired_Ex prod.case outcome.inject]
  from build show ?thesis by (elim exE conjE) (rule that)
qed

lemma split_dots_Ok: "split_dots es = Ok (dot, dotdot, rest) \<Longrightarrow> es = dot # dotdot # rest"
  by (induction es rule: split_dots.induct) (auto split: if_splits)

lemma root_info:
  assumes "limit < 65536" "write_dx_root_header (replicate bs 0) dir_ino parent_ino version levels = Ok root0"
    and "write_dx_entries root0 DX_ROOT_COUNT_OFFSET limit es = Ok root"
  shows "read_dx_entries root DX_ROOT_COUNT_OFFSET = Ok es" "read_dx_root_info root = Ok (version, levels)" "es \<noteq> []"
proof -
  note header = root_header_info [OF assms(2)]
  note entries = read_written_dx_entries [OF assms(1,3)]
  show "read_dx_entries root DX_ROOT_COUNT_OFFSET = Ok es" using entries by simp
  show "es \<noteq> []" using write_dx_entries_Ok_iff [of root0 DX_ROOT_COUNT_OFFSET limit es] assms(3) by blast
  have "root ! i = root0 ! i" if "i < 32" for i
  proof -
    have "root ! i = take 32 root ! i" using that by simp
    also have "\<dots> = take 32 root0 ! i" using entries by (simp add: DX_ROOT_COUNT_OFFSET_def)
    also have "\<dots> = root0 ! i" using that by simp
    finally show ?thesis .
  qed
  then show "read_dx_root_info root = Ok (version, levels)"
    using header entries by (simp add: read_dx_root_info_def DX_ROOT_COUNT_OFFSET_def)
qed

lemma built_index:
  assumes "htree_build_blocks h es bs = Ok blocks" "fits_in_one_block es bs (dir_tail h) = Ok False" "bs \<le> 65536"
    and "\<forall>e \<in> set es. length (de_name e) \<le> 255 \<and> need e + dir_tail h \<le> bs"
  obtains dot dotdot rest ls nc levels where
    "es = dot # dotdot # rest" "concat ls = sort_by_hash h rest" "ordered_leaves ls" "ls \<noteq> []"
    "length blocks = 1 + nc + length ls" "index_shape ls blocks nc levels"
    "read_dx_root_info (block_bytes (blocks ! 0)) = Ok (version_to_u8 (ht_version h), levels)"
    "\<forall>k < length ls. pack_one_block (map snd (ls ! k)) bs (dir_tail h) = Ok (block_bytes (blocks ! (1 + nc + k)))"
    "\<forall>k < length ls. total (map snd (ls ! k)) + dir_tail h \<le> bs"
proof -
  define t rl nl where "t = dir_tail h" and "rl = dx_limit bs DX_ROOT_COUNT_OFFSET (ht_checksums h)"
    and "nl = dx_limit bs DX_NODE_COUNT_OFFSET (ht_checksums h)"
  obtain dot dotdot rest ls hashes nc nodes re root0 root leaf_blocks where
    es: "split_dots es = Ok (dot, dotdot, rest)" and
    filled: "fill_leaves bs t (sort_by_hash h rest) [] 0 [] = Ok ls" and
    hashes: "mapOutcome (leaf_hash ls) [0..<length ls] = Ok hashes" and
    nc: "(if rl < length ls then andThen (checked_div_ceil (length ls) nl) (\<lambda>c.
          if rl < c then Err (IndexTooLarge (length ls) (rl * nl)) else Ok c) else Ok 0) = Ok nc" and
    index: "build_index bs nl hashes nc (rl < length ls) = Ok (nodes, re)" and
    root0: "write_dx_root_header (replicate bs 0) (de_inode dot) (de_inode dotdot)
       (version_to_u8 (ht_version h)) (if rl < length ls then 1 else 0) = Ok root0" and
    root: "write_dx_entries root0 DX_ROOT_COUNT_OFFSET rl re = Ok root" and
    packed: "mapOutcome (\<lambda>leaf. andThen (pack_one_block (map snd leaf) bs t) (\<lambda>b. Ok (entries_block b))) ls = Ok leaf_blocks" and
    blocks: "\<lparr>block_bytes = root, block_kind = IndexBlock DX_ROOT_COUNT_OFFSET rl\<rparr> # nodes @ leaf_blocks = blocks"
    unfolding t_def rl_def nl_def by (rule built_steps [OF assms(1,2)])
  have limits: "rl < 65536" "nl < 65536" using assms(3) by (simp_all add: rl_def nl_def dx_limit_bound)
  have es': "es = dot # dotdot # rest" by (rule split_dots_Ok [OF es])
  obtain u where bs: "bs = u + t" and valid: "\<forall>e \<in> set es. valid_entry e \<and> need e \<le> u"
  proof
    show "bs = (bs - t) + t" using assms(4) es' by (auto simp: t_def)
    show "\<forall>e \<in> set es. valid_entry e \<and> need e \<le> bs - t" using assms(4) by (auto simp: valid_entry_def t_def)
  qed
  have "\<exists>ls'. fill_leaves (u + t) t (sort_by_hash h rest) [] 0 [] = Ok ([] @ ls')
      \<and> concat ls' = [] @ sort_by_hash h rest \<and> (\<forall>l \<in> set ls'. l \<noteq> [] \<and> total (map snd l) \<le> u)"
    using valid by (intro fill_leaves_spec) (auto simp: es' set_sort_by_hash)
  then have ls: "concat ls = sort_by_hash h rest" "\<forall>l \<in> set ls. l \<noteq> [] \<and> total (map snd l) \<le> u"
    using filled by (auto simp: bs)
  then have hashes': "hashes = map (low ls) [0..<length ls]"
    using hashes leaf_hashes_low [of ls] by simp
  note info = root_info [OF limits(1) root0 root]
  have shape: "index_shape ls blocks nc (if rl < length ls then 1 else 0) \<and> length nodes = nc"
  proof (cases "rl < length ls")
    case True
    then have pos: "0 < nl" and nc': "nc = div_ceil (length ls) nl"
      using nc by (auto simp: checked_div_ceil_def split: if_splits)
    note deep = build_index_deep [OF pos limits(2), of bs ls nodes re, folded nc' hashes', simplified]
    show ?thesis using deep index True pos nc' info(1) blocks
      by (auto simp: index_shape_def nth_append)
  next
    case False
    then show ?thesis using nc index info(1) build_index_flat [of bs nl ls] blocks
      by (auto simp: index_shape_def hashes')
  qed
  have len: "length leaf_blocks = length ls" by (rule mapOutcome_length [OF packed])
  show ?thesis
  proof (rule that [OF es' ls(1)])
    show "ordered_leaves ls" using ls by (intro ordered_filled) auto
    show "ls \<noteq> []"
      using info(3) nc index build_index_flat [of bs nl ls] by (auto simp: hashes' flat_entries_def split: if_splits)
    show "length blocks = 1 + nc + length ls" using shape len blocks by auto
    show "index_shape ls blocks nc (if rl < length ls then 1 else 0)" using shape by simp
    show "read_dx_root_info (block_bytes (blocks ! 0)) = Ok (version_to_u8 (ht_version h), if rl < length ls then 1 else 0)"
      using info(2) blocks by auto
    show "\<forall>k < length ls. pack_one_block (map snd (ls ! k)) bs (dir_tail h) = Ok (block_bytes (blocks ! (1 + nc + k)))"
    proof (intro allI impI)
      fix k assume "k < length ls"
      from mapOutcome_nth [OF packed this]
      show "pack_one_block (map snd (ls ! k)) bs (dir_tail h) = Ok (block_bytes (blocks ! (1 + nc + k)))"
        using shape blocks by (auto simp: entries_block_def t_def nth_append) (metis DirBlock.select_convs(1))
    qed
    show "\<forall>k < length ls. total (map snd (ls ! k)) + dir_tail h \<le> bs"
      using ls(2) nth_mem bs by (fastforce simp: t_def)
  qed
qed

section \<open>When the layout can be built\<close>

lemma root_header_written:
  assumes "32 \<le> bs"
  shows "\<exists>b. write_dx_root_header (replicate bs 0) dir_ino parent_ino version levels = Ok b \<and> length b = bs"
proof -
  have "(sub64 bs 12 :: (ParseError, nat) outcome) = Ok (bs - 12)" using assms by (simp add: sub64_def)
  note unfold = write_dx_root_header_def DX_ROOT_COUNT_OFFSET_def Let_def length_replicate
    if_not_P [OF assms [THEN leD]] this andThen.simps
  show ?thesis unfolding unfold by (rule put_chains, (assumption | simp (no_asm)), rule order_trans [OF _ assms], simp (no_asm))+
qed

lemma node_header_written: "8 \<le> bs \<Longrightarrow> \<exists>b. write_dx_node_header (replicate bs 0) = Ok b \<and> length b = bs"
  unfolding write_dx_node_header_def DX_NODE_COUNT_OFFSET_def Let_def
  by (simp del: andThen_Ok_iff) (intro put_chains; simp)

lemma dx_limit_room: "co \<le> bs \<Longrightarrow> dx_tail_offset co (dx_limit bs co c) \<le> bs"
proof -
  assume co: "co \<le> bs"
  have "8 * ((bs - co) div 8) \<le> bs - co" by simp
  then show ?thesis using co by (simp add: dx_tail_offset_def dx_limit_def Let_def DX_ENTRY_LEN_def) linarith
qed

lemma dx_limit_pos: "co + 16 \<le> bs \<Longrightarrow> 0 < dx_limit bs co c"
proof -
  assume "co + 16 \<le> bs"
  then have "2 \<le> (bs - co) div 8" by (simp add: less_eq_div_iff_mult_less_eq)
  then show ?thesis by (simp add: dx_limit_def Let_def DX_ENTRY_LEN_def)
qed

lemma fits_in_one_block_eq:
  assumes "\<forall>e \<in> set es. valid_entry e \<and> need e \<le> u" "total es \<le> u64_max"
  shows "fits_in_one_block es (u + t) t = Ok (total es \<le> u)"
proof -
  have "foldOutcome (\<lambda>a e. andThen (record_len e (u + t) t) (\<lambda>n. add64 a n)) a es = (Ok (a + total es) :: (DirError, nat) outcome)"
    if "a + total es \<le> u64_max" for a
    using assms(1) that by (induction es arbitrary: a) (simp_all add: record_len_eq add64_def add.assoc)
  from this [of 0] show ?thesis using assms(2) by (simp add: fits_in_one_block_def sub64_def)
qed

lemma build_index_deep_exists:
  assumes "0 < nl" "8 \<le> bs" "dx_tail_offset DX_NODE_COUNT_OFFSET nl \<le> bs"
  shows "\<exists>nodes. build_index bs nl (map (low ls) [0..<length ls]) (div_ceil (length ls) nl) True =
    Ok (nodes, root_entries ls nl)"
proof -
  define n c where "n = length ls" and "c = div_ceil (length ls) nl"
  let ?hs = "map (low ls) [0..<n]"
  have idx: "i * nl < n" if "i < c" for i using that less_div_ceil [OF assms(1)] by (simp add: c_def n_def)
  have "\<exists>nodes. mapOutcome (\<lambda>chunk. build_index_node bs nl (node_entries ?hs (1 + c) chunk)) (chunks nl [0..<n]) = Ok nodes"
  proof (rule mapOutcome_ex)
    fix chunk assume "chunk \<in> set (chunks nl [0..<n])"
    then obtain i where i: "i < c" "chunk = [i * nl..<min n (i * nl + nl)]"
      by (auto simp: chunks_upt [OF assms(1)] c_def n_def)
    have entries: "node_entries ?hs (1 + c) chunk = child_entries ls nl i"
      unfolding i(2) n_def c_def by (rule node_entries_chunk)
    have "child_entries ls nl i \<noteq> []" "length (child_entries ls nl i) \<le> nl" "dx_hash (hd (child_entries ls nl i)) = 0"
      using idx [OF i(1)] assms(1) by (auto simp: child_entries_def n_def hd_map)
    moreover obtain b where b: "write_dx_node_header (replicate bs 0) = Ok b" "length b = bs"
      using node_header_written [OF assms(2)] by blast
    ultimately obtain b' where "write_dx_entries b DX_NODE_COUNT_OFFSET nl (child_entries ls nl i) = Ok b'"
      using write_dx_entries_Ok_iff [of b DX_NODE_COUNT_OFFSET nl "child_entries ls nl i"] assms(3) by auto
    then show "\<exists>y. build_index_node bs nl (node_entries ?hs (1 + c) chunk) = Ok y"
      unfolding entries using b by (simp add: build_index_node_def)
  qed
  moreover have "mapOutcome (\<lambda>i. andThen (idx_at ?hs (i * nl)) (\<lambda>h. Ok \<lparr>dx_hash = h, dx_block = of_nat (1 + i)\<rparr>)) [0..<c] =
      (Ok (root_entries ls nl) :: (DirError, _) outcome)"
    unfolding root_entries_def c_def [symmetric] using idx by (intro mapOutcome_all_Ok) (auto simp: n_def)
  ultimately show ?thesis unfolding build_index_def n_def c_def by (auto simp: Let_def)
qed

lemma length_le_concat: "\<forall>l \<in> set ls. l \<noteq> [] \<Longrightarrow> length ls \<le> length (concat ls)"
proof (induction ls)
  case (Cons l ls)
  then show ?case by (cases l) auto
qed simp

lemma length_sort_by_hash: "length (sort_by_hash h es) = length es"
  using mset_sort_by_hash [of h es, THEN mset_eq_length] by simp

lemma built_or_too_large:
  fixes h :: HtreeDir and bs :: nat
  defines "t \<equiv> dir_tail h" and "rl \<equiv> dx_limit bs DX_ROOT_COUNT_OFFSET (ht_checksums h)"
    and "nl \<equiv> dx_limit bs DX_NODE_COUNT_OFFSET (ht_checksums h)"
  assumes "48 \<le> bs" "bs \<le> 65536" "length es < 2 ^ 32"
    and "\<forall>e \<in> set es. length (de_name e) \<le> 255 \<and> need e + t \<le> bs"
    and "es = dot # dotdot # rest" "de_name dot = [0x2e]" "de_name dotdot = [0x2e, 0x2e]"
  shows "(\<exists>blocks. htree_build_blocks h es bs = Ok blocks)
    \<or> (\<exists>n. htree_build_blocks h es bs = Err (IndexTooLarge n (rl * nl)) \<and> rl * nl < n \<and> n \<le> length rest)"
proof -
  have t: "t = 0 \<or> t = 12" by (simp add: t_def dir_tail_def DIR_TAIL_LEN_def)
  define u where "u = bs - t"
  have bs: "bs = u + t" using assms(4) t by (auto simp: u_def)
  have valid: "\<forall>e \<in> set es. valid_entry e \<and> need e \<le> u" using assms(7) bs by (simp add: valid_entry_def)
  have "total es \<le> length es * u" using valid by (induction es) auto
  also have "\<dots> \<le> 2 ^ 32 * 65536" using assms(5,6) bs by (intro mult_le_mono) auto
  finally have fits: "fits_in_one_block es bs t = Ok (total es \<le> u)"
    unfolding bs using valid by (intro fits_in_one_block_eq) (simp_all add: u64_max_def)
  show ?thesis
  proof (cases "total es \<le> u")
    case True
    obtain blocks where "linear_fill bs t es [] 0 [] = Ok blocks"
      using linear_fill_groups [of "[]" es u 0 t "[]"] valid t assms(5) bs by (auto simp: list_all_iff)
    then have "linear_build_blocks t es bs = Ok blocks" using t assms(4) by (auto simp: linear_build_blocks_def)
    then show ?thesis using fits True by (simp add: htree_build_blocks_def t_def dir_tail_def Let_def)
  next
    case False
    obtain ls where ls: "fill_leaves bs t (sort_by_hash h rest) [] 0 [] = Ok ls" "concat ls = sort_by_hash h rest"
        "\<forall>l \<in> set ls. l \<noteq> [] \<and> total (map snd l) \<le> u"
    proof -
      have "\<exists>ls. fill_leaves (u + t) t (sort_by_hash h rest) [] 0 [] = Ok ([] @ ls)
          \<and> concat ls = [] @ sort_by_hash h rest \<and> (\<forall>l \<in> set ls. l \<noteq> [] \<and> total (map snd l) \<le> u)"
        using valid by (intro fill_leaves_spec) (auto simp: assms(8) set_sort_by_hash)
      then show thesis using that bs by auto
    qed
    have len: "length ls \<le> length rest" using length_le_concat [of ls] ls(2,3) by (simp add: length_sort_by_hash)
    have ne: "ls \<noteq> []"
    proof
      assume "ls = []"
      then have "rest = []" using ls(2) length_sort_by_hash [of h rest] by simp
      then show False using False assms(4,8,9,10) bs t by (auto simp: need_def rec_len_of_def next_multiple_of_def div_ceil_def)
    qed
    have hashes: "mapOutcome (leaf_hash ls) [0..<length ls] = Ok (map (low ls) [0..<length ls])"
      using ls(3) by (intro leaf_hashes_low) auto
    have packed: "\<exists>bs'. mapOutcome (\<lambda>leaf. andThen (pack_one_block (map snd leaf) bs t) (\<lambda>b. Ok (entries_block b))) ls = Ok bs'"
    proof (rule mapOutcome_ex)
      fix l assume l: "l \<in> set ls"
      have "set (map snd l) \<subseteq> set rest"
        using l arg_cong [OF ls(2), of set] by (fastforce simp: set_sort_by_hash)
      then have "list_all valid_entry (map snd l)" using valid assms(8) by (auto simp: list_all_iff)
      moreover have "l \<noteq> []" "total (map snd l) \<le> u" using ls(3) l by auto
      ultimately show "\<exists>y. andThen (pack_one_block (map snd l) bs t) (\<lambda>b. Ok (entries_block b)) = Ok y"
        using pack_one_block_eq [of "map snd l" u t] assms(5) t bs by auto
    qed
    have room: "dx_tail_offset DX_ROOT_COUNT_OFFSET rl \<le> bs" "dx_tail_offset DX_NODE_COUNT_OFFSET nl \<le> bs" "0 < rl" "0 < nl"
      using assms(4) by (auto simp: rl_def nl_def DX_ROOT_COUNT_OFFSET_def DX_NODE_COUNT_OFFSET_def intro: dx_limit_room dx_limit_pos)
    have root: "\<exists>root. andThen (mapErr Encode (write_dx_root_header (replicate bs 0) di pi v lv)) (\<lambda>root.
        mapErr Encode (write_dx_entries root DX_ROOT_COUNT_OFFSET rl re)) = Ok root"
      if "re \<noteq> []" "length re \<le> rl" "dx_hash (hd re) = 0" for re di pi v lv
    proof -
      obtain b where "write_dx_root_header (replicate bs 0) di pi v lv = Ok b" "length b = bs"
        using root_header_written [of bs] assms(4) by fastforce
      then show ?thesis using write_dx_entries_Ok_iff [of b DX_ROOT_COUNT_OFFSET rl re] that room(1) by auto
    qed
    have fits': "fits_in_one_block (dot # dotdot # rest) bs t = Ok False" using fits False assms(8) by simp
    note unfold = htree_build_blocks_def Let_def dir_tail_def [symmetric] t_def [symmetric] rl_def [symmetric] nl_def [symmetric]
      fits' split_dots.simps assms(8,9,10) ls(1) hashes
    show ?thesis
    proof (cases "rl < length ls")
      case deep: True
      define c where "c = div_ceil (length ls) nl"
      show ?thesis
      proof (cases "rl < c")
        case True
        then have "rl * nl < length ls" using less_div_ceil [OF room(4)] by (simp add: c_def)
        moreover have "htree_build_blocks h es bs = Err (IndexTooLarge (length ls) (rl * nl))"
          using False deep True room(4) by (simp add: unfold checked_div_ceil_def c_def)
        ultimately show ?thesis using len by blast
      next
        case small: False
        have "length (root_entries ls nl) = c" "0 < c" using div_ceil_pos [OF room(4), of "length ls"] ne
          by (simp_all add: root_entries_def c_def)
        then have re: "root_entries ls nl \<noteq> []" "length (root_entries ls nl) \<le> rl" "dx_hash (hd (root_entries ls nl)) = 0"
          using small by (auto simp: root_entries_def c_def low_def hd_map)
        obtain nodes where "build_index bs nl (map (low ls) [0..<length ls]) c True = Ok (nodes, root_entries ls nl)"
          using build_index_deep_exists [OF room(4) _ room(2), of ls] assms(4) by (auto simp: c_def)
        then have "\<exists>blocks. htree_build_blocks h es bs = Ok blocks"
          using False deep small room(4) packed root [OF re, of "de_inode dot" "de_inode dotdot" "version_to_u8 (ht_version h)" 1]
          by (auto simp: unfold checked_div_ceil_def c_def [symmetric])
        then show ?thesis by blast
      qed
    next
      case flat: False
      have re: "flat_entries ls \<noteq> []" "length (flat_entries ls) \<le> rl" "dx_hash (hd (flat_entries ls)) = 0"
        using flat ne by (auto simp: flat_entries_def low_def hd_map)
      have "\<exists>blocks. htree_build_blocks h es bs = Ok blocks"
        using False flat packed root [OF re, of "de_inode dot" "de_inode dotdot" "version_to_u8 (ht_version h)" 0]
        by (auto simp: unfold build_index_flat)
      then show ?thesis by blast
    qed
  qed
qed

section \<open>Descending to the leaf a hash starts in\<close>

definition flat_path :: "hashed list list \<Rightarrow> nat \<Rightarrow> IndexPath" where
  "flat_path ls = root_path (flat_entries ls)"

definition deep_path :: "hashed list list \<Rightarrow> nat \<Rightarrow> nat \<Rightarrow> IndexPath" where
  "deep_path ls nl = node_path (root_entries ls nl) (child_entries ls nl) nl"

lemma tl_map_upt: "tl (map f [0..<n]) = map f [1..<n]"
  by (cases n) (simp_all add: upt_rec [of 0] del: upt_Suc)

lemma partition_flat: "partition_point (\<lambda>e. dx_hash e \<le> m) (tl (flat_entries ls)) = search_start ls m"
  by (simp add: partition_point_def flat_entries_def tl_map_upt search_start_def takeWhile_map comp_def)

lemma partition_root:
  assumes "ordered_leaves ls" "ls \<noteq> []" "0 < nl"
  shows "partition_point (\<lambda>e. dx_hash e \<le> m) (tl (root_entries ls nl)) = search_start ls m div nl"
  unfolding partition_point_def root_entries_def tl_map_upt
proof (rule takeWhile_count)
  define s where "s = search_start ls m"
  note start = search_start_spec [OF assms(1,2), where m = m, folded s_def]
  have s: "s div nl * nl \<le> s" "s < Suc (s div nl) * nl"
    using mod_less_divisor [OF assms(3), of s] div_mult_mod_eq [of s nl] unfolding mult_Suc by linarith+
  show "search_start ls m div nl < div_ceil (length ls) nl"
    unfolding s_def [symmetric] less_div_ceil [OF assms(3)] using s(1) start(1) by linarith
  show "dx_hash \<lparr>dx_hash = low ls (i * nl), dx_block = of_nat (1 + i)\<rparr> \<le> m"
    if "0 < i" "i \<le> search_start ls m div nl" for i
  proof -
    have "i * nl \<le> s div nl * nl" using that unfolding s_def by (intro mult_le_mono1)
    then have "i * nl \<le> s" using s(1) by linarith
    then show ?thesis using start(2) [of "i * nl"] that(1) assms(3) by simp
  qed
  show "\<not> dx_hash \<lparr>dx_hash = low ls (Suc (search_start ls m div nl) * nl), dx_block = of_nat (1 + Suc (search_start ls m div nl))\<rparr> \<le> m"
    if "Suc (search_start ls m div nl) < div_ceil (length ls) nl"
    using that start(3) [OF s(2)] unfolding s_def [symmetric] less_div_ceil [OF assms(3)] by (simp add: not_le)
qed

lemma partition_child:
  assumes "ordered_leaves ls" "ls \<noteq> []" "0 < nl"
  shows "partition_point (\<lambda>e. dx_hash e \<le> m) (tl (child_entries ls nl (search_start ls m div nl))) = search_start ls m mod nl"
  unfolding partition_point_def child_entries_def tl_map_upt
proof (rule takeWhile_count)
  define s i where "s = search_start ls m" and "i = s div nl"
  note start = search_start_spec [OF assms(1,2), where m = m, folded s_def]
  have s: "s = i * nl + s mod nl" by (simp add: i_def)
  have r: "s mod nl < nl" using assms(3) by simp
  show "search_start ls m mod nl < min nl (length ls - search_start ls m div nl * nl)"
    unfolding s_def [symmetric] i_def [symmetric] using s r start(1) by (simp add: less_diff_conv add.commute)
  let ?e = "\<lambda>j. \<lparr>dx_hash = (if j = 0 then 0 else low ls (i * nl + j)), dx_block = of_nat (1 + div_ceil (length ls) nl + (i * nl + j))\<rparr>"
  show "dx_hash \<lparr>dx_hash = (if j = 0 then 0 else low ls (search_start ls m div nl * nl + j)),
      dx_block = of_nat (1 + div_ceil (length ls) nl + (search_start ls m div nl * nl + j))\<rparr> \<le> m"
    if "0 < j" "j \<le> search_start ls m mod nl" for j
    using that start(2) [of "i * nl + j"] s unfolding s_def [symmetric] i_def [symmetric] by simp
  show "\<not> dx_hash \<lparr>dx_hash = (if Suc (search_start ls m mod nl) = 0 then 0 else low ls (search_start ls m div nl * nl + Suc (search_start ls m mod nl))),
      dx_block = of_nat (1 + div_ceil (length ls) nl + (search_start ls m div nl * nl + Suc (search_start ls m mod nl)))\<rparr> \<le> m"
    if "Suc (search_start ls m mod nl) < min nl (length ls - search_start ls m div nl * nl)"
  proof -
    have "i * nl + Suc (s mod nl) < length ls" using that unfolding s_def i_def by (simp add: less_diff_conv add.commute)
    then have "m < low ls (i * nl + Suc (s mod nl))" using start(3) [of "i * nl + Suc (s mod nl)"] s by linarith
    then show ?thesis unfolding s_def [symmetric] i_def [symmetric] by (simp add: not_le)
  qed
qed

lemma descend_flat:
  assumes "read_dx_entries (ix_root index) DX_ROOT_COUNT_OFFSET = Ok (flat_entries ls)" "ix_levels index = 0"
    and "ordered_leaves ls" "ls \<noteq> []"
  shows "descend read index (Some m) = Ok (Some (flat_path ls (search_start ls m)))"
  using assms(1,2) search_start_spec(1) [OF assms(3,4), of m]
  by (simp add: descend_def partition_flat flat_path_def root_path_def) (simp add: flat_entries_def)

lemma descend_deep:
  assumes "read_dx_entries (ix_root index) DX_ROOT_COUNT_OFFSET = Ok (root_entries ls nl)" "ix_levels index = 1"
    and "ordered_leaves ls" "ls \<noteq> []" "0 < nl"
    and "\<And>i. i < div_ceil (length ls) nl \<Longrightarrow>
      \<exists>b. dir_block_at read (ix_blocks index) (of_nat (1 + i)) = Ok (Some b)
        \<and> read_dx_entries b DX_NODE_COUNT_OFFSET = Ok (child_entries ls nl i)"
  shows "descend read index (Some m) = Ok (Some (deep_path ls nl (search_start ls m)))"
proof -
  define s where "s = search_start ls m"
  have s: "s < length ls" unfolding s_def by (rule search_start_spec(1) [OF assms(3,4)])
  have i: "s div nl < div_ceil (length ls) nl"
    unfolding less_div_ceil [OF assms(5)] using s div_times_less_eq_dividend [of s nl] by linarith
  have j: "s mod nl < min nl (length ls - s div nl * nl)"
    using s assms(5) div_mult_mod_eq [of s nl] by (simp add: less_diff_conv add.commute)
  obtain b where b: "dir_block_at read (ix_blocks index) (of_nat (1 + s div nl)) = Ok (Some b)"
      "read_dx_entries b DX_NODE_COUNT_OFFSET = Ok (child_entries ls nl (s div nl))"
    using assms(6) [OF i] by blast
  have lens: "length (root_entries ls nl) = div_ceil (length ls) nl"
      "length (child_entries ls nl (s div nl)) = min nl (length ls - s div nl * nl)"
      "dx_block (root_entries ls nl ! (s div nl)) = of_nat (1 + s div nl)"
    using i by (simp_all add: root_entries_def child_entries_def)
  have last: "descend_level read (ix_blocks index) (Some m) 0 b DX_NODE_COUNT_OFFSET =
      Ok (Some [(child_entries ls nl (s div nl), s mod nl)])"
    using b(2) j lens(2) partition_child [OF assms(3,4,5), of m] by (simp add: s_def)
  show ?thesis
    unfolding descend_def assms(2) One_nat_def deep_path_def node_path_def s_def [symmetric]
    using assms(1) partition_root [OF assms(3,4,5), of m] i lens(1,3) b(1) last by (simp add: s_def [symmetric] del: of_nat_Suc of_nat_add)
qed

section \<open>The leaves in order\<close>

lemma leads_flat:
  fixes read :: "nat \<Rightarrow> ('e ReadError, bytes) outcome"
  assumes "\<And>k. k < length ls \<Longrightarrow> \<exists>b. dir_block_at read blocks (of_nat (1 + k)) = Ok (Some b)
      \<and> (\<forall>name. walk_block r (seek name) b 0 0 = (visit_all (seek name) 0 (map snd (ls ! k)) :: ('e ReadError, u32 flow) outcome))"
  shows "leads r read blocks ls (flat_path ls)"
  unfolding leads_def
proof (intro allI impI)
  fix k
  assume k: "k < length ls"
  have es: "length (flat_entries ls) = length ls" "flat_entries ls ! k = \<lparr>dx_hash = low ls k, dx_block = of_nat (1 + k)\<rparr>"
    using k by (simp_all add: flat_entries_def)
  have nxt: "dx_hash (flat_entries ls ! Suc k) = low ls (Suc k)" if "Suc k < length ls"
    using that by (simp add: flat_entries_def)
  show "flat_path ls k \<noteq> [] \<and> snd (last (flat_path ls k)) < length (fst (last (flat_path ls k)))
     \<and> (\<exists>b. dir_block_at read blocks (dx_block (fst (last (flat_path ls k)) ! snd (last (flat_path ls k)))) = Ok (Some b)
          \<and> (\<forall>name. walk_block r (seek name) b 0 0 =
               (visit_all (seek name) 0 (map snd (ls ! k)) :: ('e ReadError, u32 flow) outcome)))
     \<and> next_leaf read blocks (flat_path ls k) =
         Ok (if Suc k < length ls then (Leaf (low ls (Suc k)), flat_path ls (Suc k)) else (End, flat_path ls k))"
    using assms [OF k] k es nxt root_path_next [of k "flat_entries ls" read blocks]
    unfolding flat_path_def by (simp add: root_path_def)
qed

lemma leads_deep:
  fixes read :: "nat \<Rightarrow> ('e ReadError, bytes) outcome"
  assumes "0 < nl"
    and "\<And>k. k < length ls \<Longrightarrow> \<exists>b. dir_block_at read blocks (of_nat (1 + div_ceil (length ls) nl + k)) = Ok (Some b)
      \<and> (\<forall>name. walk_block r (seek name) b 0 0 = (visit_all (seek name) 0 (map snd (ls ! k)) :: ('e ReadError, u32 flow) outcome))"
    and "\<And>i. i < div_ceil (length ls) nl \<Longrightarrow> \<exists>b. dir_block_at read blocks (of_nat (1 + i)) = Ok (Some b)
        \<and> read_dx_entries b DX_NODE_COUNT_OFFSET = Ok (child_entries ls nl i)"
  shows "leads r read blocks ls (deep_path ls nl)"
  unfolding leads_def
proof (intro allI impI)
  fix k
  assume k: "k < length ls"
  define n where "n = length ls"
  let ?path = "deep_path ls nl"
  have len: "length (root_entries ls nl) = div_ceil n nl" "\<And>i. length (child_entries ls nl i) = min nl (n - i * nl)"
    by (simp_all add: root_entries_def child_entries_def n_def)
  have kn: "j div nl * nl + j mod nl = j" "j < n \<Longrightarrow> j mod nl < min nl (n - j div nl * nl)" "j < n \<Longrightarrow> j div nl < div_ceil n nl" for j
    using assms(1) div_mult_mod_eq [of j nl] div_times_less_eq_dividend [of j nl]
    by (simp_all add: less_diff_conv add.commute less_div_ceil) (metis div_times_less_eq_dividend le_less_trans)
  have child: "child_entries ls nl (j div nl) ! (j mod nl) = \<lparr>dx_hash = (if j mod nl = 0 then 0 else low ls j),
      dx_block = of_nat (1 + div_ceil n nl + j)\<rparr>" if "j < n" for j
    using kn(2) [OF that] kn(1) [of j] by (simp add: child_entries_def n_def del: of_nat_Suc of_nat_add)
  have root: "dx_hash (root_entries ls nl ! (j div nl)) = low ls (j div nl * nl)" if "j < n" for j
    using kn(3) [OF that] by (simp add: root_entries_def n_def)
  have nxt: "next_leaf read blocks (?path k) =
      Ok (if Suc k < n then
          (Leaf (if Suc k mod nl = 0 then dx_hash (root_entries ls nl ! (Suc k div nl))
             else dx_hash (child_entries ls nl (k div nl) ! (Suc k mod nl))), ?path (Suc k))
        else (End, ?path k))"
    unfolding deep_path_def
  proof (rule node_path_next [OF assms(1) _ len(1)])
    show "k < n" using k by (simp add: n_def)
    fix i assume i: "i < length (root_entries ls nl)"
    show "length (child_entries ls nl i) = min nl (n - i * nl)" by (rule len(2))
    show "\<exists>b. dir_block_at read blocks (dx_block (root_entries ls nl ! i)) = Ok (Some b)
        \<and> read_dx_entries b DX_NODE_COUNT_OFFSET = Ok (child_entries ls nl i)"
      using assms(3) [of i] i by (simp add: root_entries_def)
  qed
  have hash: "(if Suc k mod nl = 0 then dx_hash (root_entries ls nl ! (Suc k div nl))
      else dx_hash (child_entries ls nl (k div nl) ! (Suc k mod nl))) = low ls (Suc k)" if "Suc k < n"
  proof (cases "Suc k mod nl = 0")
    case True
    then show ?thesis using root [OF that] kn(1) [of "Suc k"] by simp
  next
    case False
    then have "Suc k div nl = k div nl" by (simp add: div_Suc)
    then show ?thesis using False child [OF that] by simp
  qed
  show "?path k \<noteq> [] \<and> snd (last (?path k)) < length (fst (last (?path k)))
     \<and> (\<exists>b. dir_block_at read blocks (dx_block (fst (last (?path k)) ! snd (last (?path k)))) = Ok (Some b)
          \<and> (\<forall>name. walk_block r (seek name) b 0 0 =
               (visit_all (seek name) 0 (map snd (ls ! k)) :: ('e ReadError, u32 flow) outcome)))
     \<and> next_leaf read blocks (?path k) =
         Ok (if Suc k < length ls then (Leaf (low ls (Suc k)), ?path (Suc k)) else (End, ?path k))"
    using assms(2) [OF k] k hash kn(2) [of k] child [of k] len(2)
    unfolding nxt n_def [symmetric] by (simp add: deep_path_def node_path_def del: of_nat_Suc of_nat_add)
qed

section \<open>The lookup\<close>

lemma find_SomeD: "find P xs = Some x \<Longrightarrow> x \<in> set xs \<and> P x"
  by (induction xs) (auto split: if_splits)

lemma find_named:
  assumes "distinct (map de_name es)"
  shows "find (\<lambda>e. de_name e = name) es = Some e \<longleftrightarrow> e \<in> set es \<and> de_name e = name"
  using assms by (induction es) auto

text \<open>Over leaves in hash order that hold the entries \<open>es\<close>, the search answers as \<open>es\<close> does.\<close>

lemma find_leaf_correct:
  assumes "leads r read blocks ls path" "ordered_leaves ls" "ls \<noteq> []" "length ls \<le> n"
    and "concat ls = sort_by_hash h es" "distinct (map de_name es)"
    and "m = major (dir_hash name (ht_version h) (ht_signedness h) (ht_seed h))"
  shows "find_leaf r read blocks name m n (path (search_start ls m)) =
    Ok (case find (\<lambda>e. de_name e = name) es of Some e \<Rightarrow> Found (de_inode e) | None \<Rightarrow> Absent)"
proof -
  let ?find = "\<lambda>i. find (\<lambda>e. de_name e = name) (map snd (ls ! i))" and ?s = "search_start ls m"
  have s: "?s < length ls" by (rule search_start_spec(1) [OF assms(2,3)])
  have held: "e \<in> set es \<and> de_name e = name" if "i < length ls" "?find i = Some e" for i e
  proof -
    have "e \<in> set (map snd (ls ! i))" "de_name e = name"
      using find_SomeD [OF that(2)] by simp_all
    moreover from this have "e \<in> snd ` set (concat ls)" using nth_mem [OF that(1)] by auto
    ultimately show ?thesis by (auto simp: assms(5) set_sort_by_hash)
  qed
  show ?thesis
  proof (cases "find (\<lambda>e. de_name e = name) es")
    case None
    then have "?find i = None" if "i < length ls" for i
      using held [OF that] by (cases "?find i") (auto simp: find_None_iff)
    then show ?thesis using find_leaf_absent [OF assms(1) s, of n name m] assms(4) None by simp
  next
    case (Some e)
    then have e: "e \<in> set es" "de_name e = name" using find_named [OF assms(6)] by auto
    define he where "he = (dir_hash (de_name e) (ht_version h) (ht_signedness h) (ht_seed h), e)"
    have "he \<in> set (concat ls)" using e by (auto simp: assms(5) set_sort_by_hash he_def)
    then obtain j where j: "j < length ls" "he \<in> set (ls ! j)" by (auto simp: in_set_conv_nth [of _ ls])
    have m: "major_of he = m" using assms(7) e by (simp add: he_def)
    note reach = search_reaches [OF assms(2) j m]
    let ?P = "\<lambda>i. ?s \<le> i \<and> i < length ls \<and> ?find i \<noteq> None"
    have "e \<in> set (map snd (ls ! j))" using j(2) by (force simp: he_def)
    then have "?find j \<noteq> None" using e by (auto simp: find_None_iff)
    then have Pj: "?P j" using reach(1) j(1) by simp
    define i where "i = (LEAST i. ?P i)"
    have i: "?P i" "i \<le> j" unfolding i_def using LeastI [of ?P, OF Pj] Least_le [of ?P, OF Pj] by auto
    have "?find i = Some e"
    proof -
      obtain e' where e': "?find i = Some e'" using i(1) by auto
      then have "find (\<lambda>e. de_name e = name) es = Some e'" using held [of i e'] i(1) find_named [OF assms(6)] by auto
      then show ?thesis using Some e' by simp
    qed
    moreover have "?find l = None" if "?s \<le> l" "l < i" for l
      using not_less_Least [of l ?P, folded i_def] that i(1) by auto
    moreover have "low ls l = m OR DX_HASH_CONTINUED" if "?s < l" "l \<le> i" for l
      using reach(2) [of l] that i(2) by simp
    ultimately have "find_leaf r read blocks name m n (path ?s) = Ok (Found (de_inode e))"
      using i(1) assms(4) by (intro find_leaf_present [OF assms(1), of i]) auto
    then show ?thesis using Some by simp
  qed
qed

lemma dir_index_opens:
  assumes "dir_block_at read blocks 0 = Ok (Some root)" "read_dx_root_info root = Ok (version_to_u8 v, levels)"
    and "levels \<le> 1" "from_flags flags = s"
  shows "dir_index read True flags blocks = Ok (Some \<lparr>ix_blocks = blocks, ix_root = root, ix_levels = unat levels,
    ix_version = v, ix_signedness = s\<rparr>)"
  using assms by (cases v) (simp_all add: dir_index_def Let_def DX_MAX_INDIRECT_LEVELS_def word_le_nat_alt version_from_u8_def not_less)

text \<open>
  C2: A lookup through a directory's hash index answers as the directory does. The blocks built for
  an indexed directory, one level of index or two, open as an index wherever they are placed, and
  for every name the lookup finds the inode of the entry that has it, or that there is none. No name
  is lost to a hash two names share, nor to the run of such names that continues across blocks.
\<close>

theorem indexed_lookup_correct:
  fixes read :: "nat \<Rightarrow> ('e ReadError, bytes) outcome"
  assumes "htree_build_blocks h es (rd_block_size r) = Ok blocks"
    and "fits_in_one_block es (rd_block_size r) (dir_tail h) = Ok False"
    and "rd_block_size r \<le> 65536" "rd_block_size r mod 4 = 0"
    and "\<forall>e \<in> set es. length (de_name e) \<le> 255 \<and> need e + dir_tail h \<le> rd_block_size r \<and> shown r e"
    and "distinct (map de_name es)" "placed read phys blocks" "from_flags flags = ht_signedness h"
  shows "\<exists>index. dir_index read True flags phys = Ok (Some index)
    \<and> (\<forall>name. find_indexed r read (ht_seed h) index name =
         Ok (case find (\<lambda>e. de_name e = name) (drop 2 es) of Some e \<Rightarrow> Found (de_inode e) | None \<Rightarrow> Absent))"
proof -
  let ?bs = "rd_block_size r"
  have small: "\<forall>e \<in> set es. length (de_name e) \<le> 255 \<and> need e + dir_tail h \<le> ?bs" using assms(5) by blast
  obtain dot dotdot rest ls nc levels where es: "es = dot # dotdot # rest" and ls: "concat ls = sort_by_hash h rest"
      "ordered_leaves ls" "ls \<noteq> []" and len: "length blocks = 1 + nc + length ls" and shape: "index_shape ls blocks nc levels"
    and info: "read_dx_root_info (block_bytes (blocks ! 0)) = Ok (version_to_u8 (ht_version h), levels)"
    and packed: "\<forall>k < length ls. pack_one_block (map snd (ls ! k)) ?bs (dir_tail h) = Ok (block_bytes (blocks ! (1 + nc + k)))"
      "\<forall>k < length ls. total (map snd (ls ! k)) + dir_tail h \<le> ?bs"
    by (rule built_index [OF assms(1,2,3) small])
  have phys: "length phys = length blocks" using assms(7) by (simp add: placed_def)
  note at = dir_block_placed [OF assms(7)]
  let ?root = "block_bytes (blocks ! 0)"
  define index where "index = \<lparr>ix_blocks = phys, ix_root = ?root, ix_levels = unat levels,
    ix_version = ht_version h, ix_signedness = ht_signedness h\<rparr>"
  have opens: "dir_index read True flags phys = Ok (Some index)"
    unfolding index_def using at [of 0] len info shape assms(8) by (intro dir_index_opens) (auto simp: index_shape_def)
  have leaf: "\<exists>b. dir_block_at read phys (of_nat (1 + nc + k)) = Ok (Some b)
      \<and> (\<forall>name. walk_block r (seek name) b 0 0 = (visit_all (seek name) 0 (map snd (ls ! k)) :: ('e ReadError, u32 flow) outcome))"
    if k: "k < length ls" for k
  proof -
    have "snd ` set (ls ! k) \<subseteq> set rest"
      using nth_mem [OF k] arg_cong [OF ls(1), of set] by (fastforce simp: set_sort_by_hash)
    moreover have "ls ! k \<noteq> []" using ls(2) nth_mem [OF k] by (auto simp: ordered_leaves_def)
    ultimately have "\<exists>b. pack_one_block (map snd (ls ! k)) ?bs (dir_tail h) = Ok b \<and> length b = ?bs
        \<and> (\<forall>visit (s :: u32). walk_block r visit b 0 s = (visit_all visit s (map snd (ls ! k)) :: ('e ReadError, u32 flow) outcome))"
      using assms(3,4,5) packed(2) k es
      by (intro walk_packed) (auto simp: list_all_iff valid_entry_def dir_tail_def DIR_TAIL_LEN_def)
    then show ?thesis using packed(1) k at [of "1 + nc + k"] len k by auto
  qed
  have "\<exists>path. leads r read phys ls path \<and> (\<forall>m. descend read index (Some m) = Ok (Some (path (search_start ls m))))"
    using shape unfolding index_shape_def
  proof (elim disjE conjE exE)
    assume flat: "nc = 0" "levels = 0" "read_dx_entries ?root DX_ROOT_COUNT_OFFSET = Ok (flat_entries ls)"
    have "leads r read phys ls (flat_path ls)" using leaf by (intro leads_flat) (simp add: flat)
    moreover have "descend read index (Some m) = Ok (Some (flat_path ls (search_start ls m)))" for m
      using flat ls by (intro descend_flat) (simp_all add: index_def)
    ultimately show ?thesis by blast
  next
    fix nl assume nl: "0 < nl" and deep: "nc = div_ceil (length ls) nl" "levels = 1"
      "read_dx_entries ?root DX_ROOT_COUNT_OFFSET = Ok (root_entries ls nl)"
      "\<forall>i < nc. read_dx_entries (block_bytes (blocks ! (1 + i))) DX_NODE_COUNT_OFFSET = Ok (child_entries ls nl i)"
    have node: "\<exists>b. dir_block_at read phys (of_nat (1 + i)) = Ok (Some b)
        \<and> read_dx_entries b DX_NODE_COUNT_OFFSET = Ok (child_entries ls nl i)" if "i < div_ceil (length ls) nl" for i
      using at [of "1 + i"] len that deep(1,4) by auto
    have "leads r read phys ls (deep_path ls nl)" using leaf node by (intro leads_deep [OF nl]) (simp_all add: deep(1))
    moreover have "descend read index (Some m) = Ok (Some (deep_path ls nl (search_start ls m)))" for m
      using node nl deep ls by (intro descend_deep) (simp_all add: index_def)
    ultimately show ?thesis by blast
  qed
  then obtain path where path: "leads r read phys ls path"
    "\<And>m. descend read index (Some m) = Ok (Some (path (search_start ls m)))" by blast
  have "find_indexed r read (ht_seed h) index name =
      Ok (case find (\<lambda>e. de_name e = name) rest of Some e \<Rightarrow> Found (de_inode e) | None \<Rightarrow> Absent)" for name
    using find_leaf_correct [OF path(1) ls(2,3) _ ls(1), of "length phys"] assms(6) phys len es
    by (simp add: find_indexed_def Let_def path(2)) (simp add: index_def)
  then show ?thesis using opens es by auto
qed

section \<open>A small directory\<close>

text \<open>Four names over blocks of 64 bytes: too many for one block, so it is indexed.\<close>

definition small_dir :: "DirEntry list" where
  "small_dir = [\<lparr>de_inode = 2, de_type = Dir, de_name = [0x2e]\<rparr>, \<lparr>de_inode = 2, de_type = Dir, de_name = [0x2e, 0x2e]\<rparr>,
     \<lparr>de_inode = 11, de_type = RegFile, de_name = [0x61]\<rparr>, \<lparr>de_inode = 12, de_type = RegFile, de_name = [0x62]\<rparr>,
     \<lparr>de_inode = 13, de_type = RegFile, de_name = [0x63]\<rparr>, \<lparr>de_inode = 14, de_type = RegFile, de_name = [0x64]\<rparr>]"

definition small_htree :: HtreeDir where
  "small_htree = \<lparr>ht_seed = replicate 16 0, ht_version = HalfMd4, ht_signedness = Unsigned, ht_checksums = False\<rparr>"

definition small_reader :: DirReader where
  "small_reader = \<lparr>rd_block_size = 64, rd_inodes_count = 64, rd_fatal = True\<rparr>"

lemma small_entries:
  "\<forall>e \<in> set small_dir. length (de_name e) \<le> 255 \<and> need e + dir_tail small_htree \<le> 64 \<and> shown small_reader e"
  "dir_tail small_htree = 0" "total small_dir = 72" "distinct (map de_name small_dir)" "length small_dir = 6"
  by (simp_all add: small_dir_def small_htree_def small_reader_def dir_tail_def need_def rec_len_of_def next_multiple_of_def
      div_ceil_def shown_def is_hostile_entry_def)

lemma small_limits:
  "dx_limit 64 DX_ROOT_COUNT_OFFSET (ht_checksums small_htree) = 4" "dx_limit 64 DX_NODE_COUNT_OFFSET (ht_checksums small_htree) = 7"
  by (simp_all add: small_htree_def dx_limit_def dx_sizes)

lemma small_not_one_block: "fits_in_one_block small_dir 64 0 = Ok False"
  using fits_in_one_block_eq [of small_dir 64 0] small_entries by (simp add: valid_entry_def u64_max_def)

text \<open>
  C34: The hash-indexed layout is total. Given the two dot entries and entries that each fit a block, it
  neither panics nor fails to encode: it yields the blocks, or refuses the directory because it needs
  more entry blocks than two levels of index address, and then it does.
\<close>

theorem htree_build_total:
  assumes "48 \<le> bs" "bs \<le> 65536" "length (dot # dotdot # rest) < 2 ^ 32"
    and "\<forall>e \<in> set (dot # dotdot # rest). length (de_name e) \<le> 255 \<and> need e + dir_tail h \<le> bs"
    and "de_name dot = [0x2e]" "de_name dotdot = [0x2e, 0x2e]"
  shows "(\<exists>blocks. htree_build_blocks h (dot # dotdot # rest) bs = Ok blocks)
    \<or> (\<exists>n capacity. htree_build_blocks h (dot # dotdot # rest) bs = Err (IndexTooLarge n capacity)
        \<and> capacity = dx_limit bs DX_ROOT_COUNT_OFFSET (ht_checksums h) * dx_limit bs DX_NODE_COUNT_OFFSET (ht_checksums h)
        \<and> capacity < n \<and> n \<le> length rest)"
  using built_or_too_large [OF assms(1-4) refl assms(5,6)] by blast

lemma small_shape: "\<exists>rest. small_dir = \<lparr>de_inode = 2, de_type = Dir, de_name = [0x2e]\<rparr> #
    \<lparr>de_inode = 2, de_type = Dir, de_name = [0x2e, 0x2e]\<rparr> # rest \<and> length rest = 4"
  by (simp add: small_dir_def)

theorem htree_build_total_witness: "\<exists>blocks. htree_build_blocks small_htree small_dir 64 = Ok blocks"
proof -
  obtain rest where rest: "small_dir = \<lparr>de_inode = 2, de_type = Dir, de_name = [0x2e]\<rparr> #
    \<lparr>de_inode = 2, de_type = Dir, de_name = [0x2e, 0x2e]\<rparr> # rest" "length rest = 4" using small_shape by blast
  show ?thesis
    using htree_build_total [of 64 "\<lparr>de_inode = 2, de_type = Dir, de_name = [0x2e]\<rparr>"
      "\<lparr>de_inode = 2, de_type = Dir, de_name = [0x2e, 0x2e]\<rparr>" rest small_htree] small_entries(1,5) rest
    by (auto simp: rest(1) [symmetric] small_limits)
qed

text \<open>With checksums or without, under any hash, it builds to a handful of blocks.\<close>

lemma small_fits:
  "\<forall>e \<in> set small_dir. length (de_name e) \<le> 255 \<and> need e + dir_tail h \<le> 64"
  "fits_in_one_block small_dir 64 (dir_tail h) = Ok False"
proof -
  have tail: "dir_tail h \<le> 12" by (simp add: dir_tail_def DIR_TAIL_LEN_def)
  have needs: "\<forall>e \<in> set small_dir. length (de_name e) \<le> 255 \<and> need e + 12 \<le> 64"
    by (simp add: small_dir_def need_def rec_len_of_def next_multiple_of_def div_ceil_def)
  then show "\<forall>e \<in> set small_dir. length (de_name e) \<le> 255 \<and> need e + dir_tail h \<le> 64" using tail by fastforce
  have "fits_in_one_block small_dir ((64 - dir_tail h) + dir_tail h) (dir_tail h) = Ok (total small_dir \<le> 64 - dir_tail h)"
    using needs tail small_entries(3) by (intro fits_in_one_block_eq) (fastforce simp: valid_entry_def u64_max_def)+
  then show "fits_in_one_block small_dir 64 (dir_tail h) = Ok False" using tail small_entries(3) by simp
qed

lemma small_built: "\<exists>blocks. htree_build_blocks h small_dir 64 = Ok blocks \<and> length blocks < 100"
proof -
  obtain rest where rest: "small_dir = \<lparr>de_inode = 2, de_type = Dir, de_name = [0x2e]\<rparr> #
    \<lparr>de_inode = 2, de_type = Dir, de_name = [0x2e, 0x2e]\<rparr> # rest" "length rest = 4" using small_shape by blast
  have "4 \<le> dx_limit 64 DX_ROOT_COUNT_OFFSET (ht_checksums h) * dx_limit 64 DX_NODE_COUNT_OFFSET (ht_checksums h)"
    by (cases "ht_checksums h") (simp_all add: dx_limit_def dx_sizes)
  then obtain blocks where blocks: "htree_build_blocks h small_dir 64 = Ok blocks"
    using built_or_too_large [of 64 small_dir h _ _ rest, OF _ _ _ small_fits(1) rest(1)] rest(2) small_entries(5) by auto
  have "length blocks < 100"
  proof (rule built_index [OF blocks small_fits(2) _ small_fits(1)])
    fix dot dotdot rest' ls nc levels
    assume es: "small_dir = dot # dotdot # rest'" and "concat ls = sort_by_hash h rest'" "ordered_leaves ls"
      and b: "length blocks = 1 + nc + length ls" "index_shape ls blocks nc levels"
    moreover have "length rest' = 4" using small_entries(5) unfolding es by simp
    ultimately have n: "length ls \<le> 4" using length_le_concat [of ls] by (simp add: length_sort_by_hash ordered_leaves_def)
    have "nc \<le> length ls" using b(2) div_ceil_least [of "length ls" "length ls"] by (auto simp: index_shape_def)
    then show ?thesis using n b(1) by simp
  qed simp
  then show ?thesis using blocks by blast
qed

theorem indexed_lookup_correct_witness:
  "\<exists>blocks index (read :: nat \<Rightarrow> (unit ReadError, bytes) outcome). htree_build_blocks small_htree small_dir 64 = Ok blocks
    \<and> dir_index read True UNSIGNED_FLAG [1..<Suc (length blocks)] = Ok (Some index)
    \<and> find_indexed small_reader read (ht_seed small_htree) index [0x62] = Ok (Found 12)
    \<and> find_indexed small_reader read (ht_seed small_htree) index [0x7a] = Ok Absent"
proof -
  obtain blocks where built: "htree_build_blocks small_htree small_dir 64 = Ok blocks" "length blocks < 100"
    using small_built by blast
  define read :: "nat \<Rightarrow> (unit ReadError, bytes) outcome" where "read p = Ok (block_bytes (blocks ! (p - 1)))" for p
  have "placed read [1..<Suc (length blocks)] blocks"
    using built(2) by (simp add: placed_def read_def del: upt_Suc)
  moreover have "from_flags UNSIGNED_FLAG = ht_signedness small_htree"
    by (simp add: small_htree_def from_flags_def UNSIGNED_FLAG_def SIGNED_FLAG_def)
  ultimately have "\<exists>index. dir_index read True UNSIGNED_FLAG [1..<Suc (length blocks)] = Ok (Some index)
      \<and> (\<forall>name. find_indexed small_reader read (ht_seed small_htree) index name =
        Ok (case find (\<lambda>e. de_name e = name) (drop 2 small_dir) of Some e \<Rightarrow> Found (de_inode e) | None \<Rightarrow> Absent))"
    using built(1) small_entries small_not_one_block
    by (intro indexed_lookup_correct) (simp_all add: small_reader_def)
  then show ?thesis using built(1) by (fastforce simp: small_dir_def)
qed

end
