(* ===== verification/Geometry.thy ===== *)
theory Geometry
  imports Layout
begin

text \<open>
  The ext layout planner, \<^verbatim>\<open>plan_layout\<close> of \<^verbatim>\<open>crates/ferrosys/src/geometry.rs\<close>: from a size, a feature set
  and what the caller asks of growth and inodes, the groups of the filesystem and where each one's
  bitmaps and inode table sit. Every product of the source is of a block count below \<open>2 ^ 48\<close>
  and a figure of one group, or gives back bytes of the device, so none reaches \<open>2 ^ 64\<close> and the
  arithmetic here is on \<open>nat\<close>; differences that could go below zero are saturating in the source too.
\<close>

section \<open>The code\<close>

datatype GeometryError =
    TooSmall nat nat nat                       \<comment> \<open>blocks, overhead, reserved descriptor blocks\<close>
  | GrowTargetTooSmall nat nat                 \<comment> \<open>target, initial\<close>
  | GrowTargetTooLarge nat nat                 \<comment> \<open>needed, limit\<close>
  | ReservationNeeds32BitBlocks nat nat        \<comment> \<open>blocks, limit\<close>
  | GrowTargetNeedsResizeInode
  | TooManyGroups nat nat nat                  \<comment> \<open>blocks, groups, limit\<close>
  | DescriptorsExceedGroup nat nat nat nat     \<comment> \<open>blocks, groups, overhead, blocks per group\<close>
  | TooManyInodes nat nat nat                  \<comment> \<open>blocks, inodes, limit\<close>
  | InodesTooDense nat nat                     \<comment> \<open>inodes per group, limit\<close>
  | BlockCountNeeds64Bit nat nat               \<comment> \<open>blocks, limit\<close>
  | BlockCountTooLarge nat nat                 \<comment> \<open>blocks, limit\<close>
  | FinalGroupTooSmall nat nat                 \<comment> \<open>blocks, overhead\<close>
  | UnsupportedFeatures FeatureError

definition MAX_32BIT_BLOCKS :: nat where "MAX_32BIT_BLOCKS = 4294967295"
definition MAX_EXTENT_BLOCKS :: nat where "MAX_EXTENT_BLOCKS = 2 ^ 48"
definition GROW_MAX_SHARE :: nat where "GROW_MAX_SHARE = 64"
definition MIN_INODES_PER_GROUP :: nat where "MIN_INODES_PER_GROUP = 8"

text \<open>
  The loop of \<^verbatim>\<open>is_power_of\<close>. A base below two, which no caller passes, would not end the loop; here
  it is no power.
\<close>

function is_power_loop :: "nat \<Rightarrow> nat \<Rightarrow> bool" where
  "is_power_loop g base =
     (if g \<le> 1 then True else if base < 2 \<or> g mod base \<noteq> 0 then False else is_power_loop (g div base) base)"
  by pat_completeness auto
termination
  by (relation "measure fst") auto

declare is_power_loop.simps [simp del]

definition is_power_of :: "nat \<Rightarrow> nat \<Rightarrow> bool" where
  "is_power_of g base \<longleftrightarrow> g \<noteq> 0 \<and> is_power_loop g base"

definition sparse_super_has_copy :: "nat \<Rightarrow> bool" where
  "sparse_super_has_copy g \<longleftrightarrow> g = 0 \<or> g = 1 \<or> is_power_of g 3 \<or> is_power_of g 5 \<or> is_power_of g 7"

definition inode_ratio :: "nat \<Rightarrow> nat \<Rightarrow> nat" where
  "inode_ratio total_blocks block_size =
     (let meg = (1024 * 1024) div block_size in
      if total_blocks < 3 * meg then 8192
      else if total_blocks < 512 * meg then 4096
      else if total_blocks < 4 * 1024 * 1024 * meg then 16384
      else if total_blocks < 16 * 1024 * 1024 * meg then 32768
      else 65536)"

definition gdt_blocks_for :: "nat \<Rightarrow> nat \<Rightarrow> nat \<Rightarrow> nat" where
  "gdt_blocks_for groups desc block_size = div_ceil groups (block_size div desc)"

datatype GrowReservation = NoGrow | UpTo nat | MaxGrow

datatype InodeCount = Auto | BytesPerInode nat | InodeTotal nat

record ReservedRatio =
  hundredths_of_percent :: nat

definition MAX_HUNDREDTHS :: nat where "MAX_HUNDREDTHS = 5000"

definition DEFAULT_RATIO :: ReservedRatio where
  "DEFAULT_RATIO = \<lparr>hundredths_of_percent = 500\<rparr>"

definition from_hundredths_of_percent :: "nat \<Rightarrow> ReservedRatio option" where
  "from_hundredths_of_percent hundredths =
     (if hundredths \<le> MAX_HUNDREDTHS then Some \<lparr>hundredths_of_percent = hundredths\<rparr> else None)"

definition ratio_blocks :: "ReservedRatio \<Rightarrow> nat \<Rightarrow> nat" where
  "ratio_blocks r total_blocks = total_blocks * hundredths_of_percent r div 10000"

record PlanRequest =
  pr_size_bytes :: nat
  pr_feature :: FeatureSet
  pr_grow :: GrowReservation
  pr_inodes :: InodeCount
  pr_reserved :: ReservedRatio

definition new_request :: "nat \<Rightarrow> FeatureSet \<Rightarrow> PlanRequest" where
  "new_request size_bytes feature =
     \<lparr>pr_size_bytes = size_bytes, pr_feature = feature, pr_grow = MaxGrow, pr_inodes = Auto, pr_reserved = DEFAULT_RATIO\<rparr>"

text \<open>What the source computes once from the feature set, before it sizes the groups.\<close>

definition first_block_of :: "FeatureSet \<Rightarrow> nat" where
  "first_block_of f = (if fs_block_size f = 1024 then 1 else 0)"

definition group_size_of :: "FeatureSet \<Rightarrow> nat" where
  "group_size_of f = 8 * fs_block_size f"

definition FLEX_BG_SIZE :: nat where "FLEX_BG_SIZE = 16"

definition inode_count_for :: "PlanRequest \<Rightarrow> nat \<Rightarrow> nat" where
  "inode_count_for r blocks =
     (let bs = fs_block_size (pr_feature r) in
      max (case pr_inodes r of
             Auto \<Rightarrow> blocks * bs div inode_ratio blocks bs
           | BytesPerInode bytes \<Rightarrow> blocks * bs div bytes
           | InodeTotal count \<Rightarrow> count) 16)"

text \<open>The descriptor blocks to reserve past a table of \<open>gdt\<close>; \<open>asked\<close> is the block count first asked for.\<close>

definition up_to_gdt :: "PlanRequest \<Rightarrow> nat \<Rightarrow> nat" where
  "up_to_gdt r bytes =
     (let f = pr_feature r; target = bytes div fs_block_size f;
          groups = div_ceil (target - first_block_of f) (group_size_of f)
      in gdt_blocks_for groups (desc_size f) (fs_block_size f))"

definition ceiling_gdt :: "FeatureSet \<Rightarrow> nat" where
  "ceiling_gdt f =
     gdt_blocks_for (div_ceil (MAX_32BIT_BLOCKS - first_block_of f) (group_size_of f)) (desc_size f) (fs_block_size f)"

definition reserve_gdt :: "PlanRequest \<Rightarrow> nat \<Rightarrow> nat \<Rightarrow> nat \<Rightarrow> (GeometryError, nat) outcome" where
  "reserve_gdt r asked total_blocks gdt =
     (let f = pr_feature r; reserved_limit = fs_block_size f div 4; representable = (asked \<le> MAX_32BIT_BLOCKS) in
      case pr_grow r of
        NoGrow \<Rightarrow> Ok 0
      | UpTo bytes \<Rightarrow>
          let want = up_to_gdt r bytes - gdt in
          if 0 < want \<and> \<not> has_resize_inode f then Err GrowTargetNeedsResizeInode
          else if 0 < want \<and> \<not> representable then Err (ReservationNeeds32BitBlocks total_blocks MAX_32BIT_BLOCKS)
          else if reserved_limit < want then Err (GrowTargetTooLarge want reserved_limit)
          else Ok want
      | MaxGrow \<Rightarrow>
          if \<not> (has_resize_inode f \<and> representable) then Ok 0
          else Ok (min (min (min reserved_limit (ceiling_gdt f - gdt)) (total_blocks div GROW_MAX_SHARE))
                     (group_size_of f - (1 + gdt))))"

definition inodes_per_group_for :: "FeatureSet \<Rightarrow> nat \<Rightarrow> nat" where
  "inodes_per_group_for f ipg =
     (let ipb = inodes_per_block f; filled = div_ceil ipg ipb * ipb in max (filled div 8 * 8) MIN_INODES_PER_GROUP)"

text \<open>The blocks a partial final group needs before it is kept.\<close>

definition final_group_needs :: "FeatureSet \<Rightarrow> nat \<Rightarrow> nat \<Rightarrow> nat \<Rightarrow> nat \<Rightarrow> nat" where
  "final_group_needs f group_count gdt reserved itb =
     (let last = group_count - 1 in
      (if \<not> is_sparse_super f \<or> sparse_super_has_copy last then 1 + gdt + reserved else 0)
      + (if has_flex_bg f then
           if last mod FLEX_BG_SIZE = 0 then
             let members = group_count - last; slots = (if members = 1 then FLEX_BG_SIZE else members)
             in 2 * slots + members * itb
           else 0
         else 2 + itb))"

record Sizes =
  sz_total_blocks :: nat
  sz_group_count :: nat
  sz_gdt :: nat
  sz_reserved :: nat
  sz_ipg :: nat
  sz_itb :: nat

text \<open>One turn of the sizing loop: the sizes, or the block count left once a partial final group is dropped.\<close>

definition size_turn :: "PlanRequest \<Rightarrow> nat \<Rightarrow> nat \<Rightarrow> (GeometryError, nat + Sizes) outcome" where
  "size_turn r asked total_blocks =
     (let f = pr_feature r; bs = fs_block_size f; bpg = group_size_of f;
          addressable = total_blocks - first_block_of f;
          group_count = max (div_ceil addressable bpg) 1;
          gdt = gdt_blocks_for group_count (desc_size f) bs;
          inode_cap = 8 * bs
      in
      if 4294967295 < group_count then Err (TooManyGroups total_blocks group_count 4294967295)
      else
      andThen (reserve_gdt r asked total_blocks gdt) (\<lambda>reserved.
      if 2 \<le> group_count \<and> bpg < 1 + gdt + reserved
      then Err (DescriptorsExceedGroup total_blocks group_count (1 + gdt + reserved) bpg)
      else
      let ipg = div_ceil (inode_count_for r total_blocks) group_count in
      if inode_cap < ipg then Err (InodesTooDense ipg inode_cap)
      else
      let ipg = inodes_per_group_for f ipg;
          itb = ipg div inodes_per_block f;
          rem = addressable mod bpg
      in
      if 2 \<le> group_count \<and> rem \<noteq> 0 \<and> rem < final_group_needs f group_count gdt reserved itb + 1
      then Ok (Inl (total_blocks - rem))
      else Ok (Inr \<lparr>sz_total_blocks = total_blocks, sz_group_count = group_count, sz_gdt = gdt, sz_reserved = reserved,
                    sz_ipg = ipg, sz_itb = itb\<rparr>)))"

lemma size_turn_drops: "size_turn r asked t = Ok (Inl t') \<Longrightarrow> t' < t"
  by (auto simp: size_turn_def Let_def split: if_splits intro!: diff_less gr0I)

function size_groups :: "PlanRequest \<Rightarrow> nat \<Rightarrow> nat \<Rightarrow> (GeometryError, Sizes) outcome" where
  "size_groups r asked total_blocks =
     andThen (size_turn r asked total_blocks) (\<lambda>turn.
     case turn of
       Inl total_blocks \<Rightarrow> size_groups r asked total_blocks
     | Inr s \<Rightarrow> Ok s)"
  by pat_completeness auto
termination
  by (relation "measure (\<lambda>(r, asked, total_blocks). total_blocks)") (auto dest: size_turn_drops)

declare size_groups.simps [simp del]

definition max_grow_blocks_for :: "PlanRequest \<Rightarrow> nat \<Rightarrow> nat \<Rightarrow> nat \<Rightarrow> nat" where
  "max_grow_blocks_for r total_blocks gdt_blocks reserved_gdt_blocks =
     (let f = pr_feature r in
      case pr_grow r of
        NoGrow \<Rightarrow> total_blocks
      | UpTo bytes \<Rightarrow> bytes div fs_block_size f
      | MaxGrow \<Rightarrow>
          let per_block = fs_block_size f div desc_size f; describable = (gdt_blocks + reserved_gdt_blocks) * per_block
          in max (min (describable * group_size_of f + first_block_of f) MAX_32BIT_BLOCKS) total_blocks)"

definition group0_overhead :: "FeatureSet \<Rightarrow> Sizes \<Rightarrow> nat" where
  "group0_overhead f s =
     super_overhead (sz_gdt s) (sz_reserved s)
     + (if has_flex_bg f then
          let members = min (sz_group_count s) FLEX_BG_SIZE; slots = (if members = 1 then FLEX_BG_SIZE else members)
          in 2 * slots + members * sz_itb s
        else 2 + sz_itb s)
     + 1"

text \<open>The first pass: each group's run of blocks, and whether it carries a copy of the superblock.\<close>

definition plan_group :: "FeatureSet \<Rightarrow> nat \<Rightarrow> nat \<Rightarrow> GroupLayout" where
  "plan_group f total_blocks index =
     (let bpg = group_size_of f; start_block = first_block_of f + index * bpg;
          end_block = min (start_block + bpg) total_blocks
      in \<lparr>gl_index = index, gl_start_block = start_block, gl_block_count = end_block - start_block,
          gl_has_super = (if is_sparse_super f then sparse_super_has_copy index else True),
          gl_block_bitmap = 0, gl_inode_bitmap = 0, gl_inode_table = 0\<rparr>)"

definition unplaced_layout :: "PlanRequest \<Rightarrow> Sizes \<Rightarrow> Layout" where
  "unplaced_layout r s =
     (let f = pr_feature r in
      \<lparr>l_feature = f, l_block_size = fs_block_size f, l_total_blocks = sz_total_blocks s,
       l_blocks_per_group = group_size_of f, l_first_data_block = first_block_of f, l_group_count = sz_group_count s,
       l_inodes_per_group = sz_ipg s, l_inode_table_blocks = sz_itb s, l_total_inodes = sz_ipg s * sz_group_count s,
       l_gdt_blocks = sz_gdt s, l_reserved_gdt_blocks = sz_reserved s, l_flex_bg_size = FLEX_BG_SIZE,
       l_max_grow_blocks = max_grow_blocks_for r (sz_total_blocks s) (sz_gdt s) (sz_reserved s),
       l_reserved_blocks = ratio_blocks (pr_reserved r) (sz_total_blocks s),
       l_groups = map (plan_group f (sz_total_blocks s)) [0..<sz_group_count s]\<rparr>)"

text \<open>The first position from \<open>from\<close> at which a run of \<open>len\<close> blocks meets no window.\<close>

function first_fit :: "nat \<Rightarrow> nat \<Rightarrow> BlockRange list \<Rightarrow> nat" where
  "first_fit start len windows =
     (case find (\<lambda>w. br_start w < start + len \<and> start < range_end w) windows of
        None \<Rightarrow> start
      | Some w \<Rightarrow> first_fit (range_end w) len windows)"
  by pat_completeness auto
termination
proof (relation "measure (\<lambda>(start, len, windows). sum_list (map range_end windows) - start)", goal_cases)
  case (2 start len windows w)
  then have "w \<in> set windows" "start < range_end w" by (auto simp: find_Some_iff)
  moreover from this have "range_end w \<le> sum_list (map range_end windows)" by (intro member_le_sum_list) auto
  ultimately show ?case by auto
qed simp

declare first_fit.simps [simp del]

text \<open>A run of \<open>n\<close> placements of \<open>len\<close> blocks each, from \<open>at\<close> on, and where the next may begin.\<close>

fun place_run :: "nat \<Rightarrow> nat \<Rightarrow> nat \<Rightarrow> BlockRange list \<Rightarrow> nat list \<times> nat" where
  "place_run 0 at len windows = ([], at)"
| "place_run (Suc n) at len windows =
     (let b = first_fit at len windows; (bs, after) = place_run n (b + len) len windows in (b # bs, after))"

fun set_places :: "nat \<Rightarrow> nat list \<Rightarrow> nat list \<Rightarrow> nat list \<Rightarrow> GroupLayout list \<Rightarrow> GroupLayout list" where
  "set_places i (bb # bbs) (ib # ibs) (t # ts) groups =
     set_places (i + 1) bbs ibs ts
       (groups[i := (groups ! i)\<lparr>gl_block_bitmap := bb, gl_inode_bitmap := ib, gl_inode_table := t\<rparr>])"
| "set_places i _ _ _ groups = groups"

text \<open>One flex block group, headed by \<open>head\<close>.\<close>

definition place_flex_group ::
  "BlockRange list \<Rightarrow> nat \<Rightarrow> Layout \<Rightarrow> nat \<Rightarrow> (GeometryError, Layout \<times> nat) outcome" where
  "place_flex_group backups head l placed_end =
     andThen (flex_members l head) (\<lambda>members.
     andThen (flex_slots l head) (\<lambda>slots.
     andThen (idx_at (l_groups l) head) (\<lambda>g.
     let overhead = (case super_overhead_region l head of Some r \<Rightarrow> br_len r | None \<Rightarrow> 0);
         cursor = max (gl_start_block g + overhead) placed_end;
         block_bitmaps = place_run members cursor 1 backups
     in
     andThen (idx_at (fst block_bitmaps) 0) (\<lambda>first.
     let cursor = max (snd block_bitmaps) (first + slots);
         inode_bitmaps = place_run members cursor 1 backups
     in
     andThen (idx_at (fst inode_bitmaps) 0) (\<lambda>first.
     let cursor = max (snd inode_bitmaps) (first + slots);
         tables = place_run members cursor (l_inode_table_blocks l) backups
     in Ok (l\<lparr>l_groups := set_places head (fst block_bitmaps) (fst inode_bitmaps) (fst tables) (l_groups l)\<rparr>,
            snd tables))))))"

lemma place_flex_group_frame:
  assumes "place_flex_group backups head l p = Ok (l', p')"
  shows "l' = l\<lparr>l_groups := l_groups l'\<rparr>"
  using assms by (auto simp: place_flex_group_def Let_def)

text \<open>The loop over the flex heads. The flex size of a planned layout is sixteen, so the loop ends.\<close>

function place_flex :: "BlockRange list \<Rightarrow> nat \<Rightarrow> Layout \<Rightarrow> nat \<Rightarrow> (GeometryError, Layout \<times> nat) outcome" where
  "place_flex backups head l placed_end =
     (if head < l_group_count l \<and> 0 < l_flex_bg_size l then
        andThen (place_flex_group backups head l placed_end) (\<lambda>(l', placed_end).
        place_flex backups (head + l_flex_bg_size l) l' placed_end)
      else Ok (l, placed_end))"
  by pat_completeness auto
termination
  by (relation "measure (\<lambda>(backups, head, l, placed_end). l_group_count l - head)")
    (auto dest!: place_flex_group_frame dest: arg_cong [where f = l_group_count])

declare place_flex.simps [simp del]

text \<open>The block-mapped family's placement of one group, and of all of them in turn.\<close>

definition place_own :: "nat \<Rightarrow> Layout \<times> nat \<Rightarrow> Layout \<times> nat" where
  "place_own index = (\<lambda>(l, placed_end).
     let overhead = (case super_overhead_region l index of Some r \<Rightarrow> br_len r | None \<Rightarrow> 0);
         base = gl_start_block (l_groups l ! index) + overhead
     in (l\<lparr>l_groups := (l_groups l)[index := (l_groups l ! index)
           \<lparr>gl_block_bitmap := base, gl_inode_bitmap := base + 1, gl_inode_table := base + 2\<rparr>]\<rparr>,
         base + 2 + l_inode_table_blocks l))"

definition place_groups :: "Layout \<Rightarrow> (GeometryError, Layout \<times> nat) outcome" where
  "place_groups l =
     (if has_flex_bg (l_feature l) then
        let backups = List.map_filter (super_overhead_region l) [0..<l_group_count l]
        in place_flex backups 0 l 0
      else Ok (foldl (\<lambda>s index. place_own index s) (l, 0) [0..<l_group_count l]))"

definition last_overhead :: "Layout \<Rightarrow> (GeometryError, nat) outcome" where
  "last_overhead l =
     (let last = l_group_count l - 1;
          copy = (case super_overhead_region l last of Some r \<Rightarrow> br_len r | None \<Rightarrow> 0)
      in
      if has_flex_bg (l_feature l) then
        if is_flex_head l last then andThen (flex_meta_span l last) (\<lambda>span. Ok (copy + span)) else Ok copy
      else Ok (copy + (2 + l_inode_table_blocks l)))"

definition plan_layout :: "PlanRequest \<Rightarrow> (GeometryError, Layout) outcome" where
  "plan_layout r =
     (let f = pr_feature r in
      andThen (mapErr UnsupportedFeatures (validate f)) (\<lambda>_.
      let bs = fs_block_size f; asked = pr_size_bytes r div bs in
      andThen (case pr_grow r of
                 UpTo bytes \<Rightarrow> if bytes div bs < asked then Err (GrowTargetTooSmall (bytes div bs) asked) else Ok ()
               | _ \<Rightarrow> Ok ()) (\<lambda>_.
      if \<not> is_64bit f \<and> MAX_32BIT_BLOCKS < asked then Err (BlockCountNeeds64Bit asked MAX_32BIT_BLOCKS)
      else if MAX_EXTENT_BLOCKS < asked then Err (BlockCountTooLarge asked MAX_EXTENT_BLOCKS)
      else
      andThen (size_groups r asked asked) (\<lambda>s.
      if 4294967295 < sz_ipg s * sz_group_count s
      then Err (TooManyInodes (sz_total_blocks s) (sz_ipg s * sz_group_count s) 4294967295)
      else if sz_total_blocks s < group0_overhead f s
      then Err (TooSmall (sz_total_blocks s) (group0_overhead f s) (sz_reserved s))
      else
      andThen (place_groups (unplaced_layout r s)) (\<lambda>(l, placed_end).
      andThen (last_overhead l) (\<lambda>overhead.
      andThen (idx_at (l_groups l) (l_group_count l - 1)) (\<lambda>last_group.
      if gl_block_count last_group < overhead + 1 \<or> l_total_blocks l < placed_end
      then Err (FinalGroupTooSmall (gl_block_count last_group) overhead)
      else Ok l)))))))"

end
