(* ===== verification/GeometrySound.thy ===== *)
theory GeometrySound
  imports Geometry "HOL-Library.Multiset"
begin

text \<open>
  What a planned layout promises, for \<^verbatim>\<open>plan_layout\<close> of \<^verbatim>\<open>geometry.rs\<close>: its groups tile the filesystem
  and no block holds two pieces of fixed metadata, and where the planner does not keep that promise.
\<close>

section \<open>Runs of blocks in order\<close>

fun chained :: "nat \<Rightarrow> BlockRange list \<Rightarrow> nat \<Rightarrow> bool" where
  "chained a [] b \<longleftrightarrow> a \<le> b"
| "chained a (r # rs) b \<longleftrightarrow> a \<le> br_start r \<and> chained (range_end r) rs b"

lemma chained_le: "chained a rs b \<Longrightarrow> a \<le> b"
  by (induction rs arbitrary: a) (auto simp: range_end_def, fastforce)

lemma chained_append: "chained a (xs @ ys) b \<longleftrightarrow> (\<exists>m. chained a xs m \<and> chained m ys b)"
proof (induction xs arbitrary: a)
  case Nil
  have "chained a ys b" if "a \<le> m" "chained m ys b" for m
    using that by (cases ys) auto
  then show ?case by auto
qed auto

lemma chained_weaken: "chained a rs b \<Longrightarrow> a' \<le> a \<Longrightarrow> b \<le> b' \<Longrightarrow> chained a' rs b'"
proof (induction rs arbitrary: a a')
  case (Cons r rs)
  then show ?case by auto
qed simp

lemma chained_blocks:
  "chained a rs b \<Longrightarrow> distinct (concat (map range_blocks rs)) \<and> set (concat (map range_blocks rs)) \<subseteq> {a..<b}"
proof (induction rs arbitrary: a)
  case (Cons r rs)
  then have c: "chained (range_end r) rs b" "a \<le> br_start r" by auto
  from Cons.IH [OF c(1)] have rs: "distinct (concat (map range_blocks rs))"
    "set (concat (map range_blocks rs)) \<subseteq> {range_end r..<b}" by auto
  have "br_start r \<le> range_end r" by (simp add: range_end_def)
  moreover have "range_end r \<le> b" by (rule chained_le [OF c(1)])
  ultimately have "set (range_blocks r) \<subseteq> {a..<b}" "set (concat (map range_blocks rs)) \<subseteq> {a..<b}"
    using rs(2) c(2) by auto
  moreover have "set (range_blocks r) \<inter> set (concat (map range_blocks rs)) = {}" using rs(2) by auto
  moreover have "distinct (range_blocks r)" by (simp add: range_blocks_def)
  ultimately show ?case using rs(1) by simp
qed simp

lemma mset_distinct_blocks:
  assumes "mset xs = mset ys"
  shows "distinct (concat (map range_blocks xs)) = distinct (concat (map range_blocks ys))"
    "set (concat (map range_blocks xs)) = set (concat (map range_blocks ys))"
proof -
  have "mset (concat (map range_blocks zs)) = sum_mset (image_mset (\<lambda>r. mset (range_blocks r)) (mset zs))" for zs
    by (induction zs) simp_all
  then have "mset (concat (map range_blocks xs)) = mset (concat (map range_blocks ys))" using assms by simp
  then show "distinct (concat (map range_blocks xs)) = distinct (concat (map range_blocks ys))"
    by (rule mset_eq_imp_distinct_iff)
  show "set (concat (map range_blocks xs)) = set (concat (map range_blocks ys))"
    using mset_eq_setD [OF assms] by simp
qed

section \<open>Placement\<close>

definition clear_of :: "BlockRange list \<Rightarrow> BlockRange \<Rightarrow> bool" where
  "clear_of ws r \<longleftrightarrow> (\<forall>w \<in> set ws. range_end r \<le> br_start w \<or> range_end w \<le> br_start r)"

abbreviation run :: "nat \<Rightarrow> nat \<Rightarrow> BlockRange" where
  "run len p \<equiv> \<lparr>br_start = p, br_len = len\<rparr>"

lemma first_fit_spec: "start \<le> first_fit start len ws \<and> clear_of ws (run len (first_fit start len ws))"
proof (induction start len ws rule: first_fit.induct)
  case (1 start len ws)
  show ?case
  proof (cases "find (\<lambda>w. br_start w < start + len \<and> start < range_end w) ws")
    case None
    then have "first_fit start len ws = start" by (simp add: first_fit.simps [of start])
    moreover have "clear_of ws (run len start)"
      using None by (auto simp: find_None_iff clear_of_def range_end_def not_less)
    ultimately show ?thesis by simp
  next
    case (Some w)
    then have eq: "first_fit start len ws = first_fit (range_end w) len ws" by (simp add: first_fit.simps [of start])
    have "start < range_end w" using Some by (auto simp: find_Some_iff)
    then show ?thesis using "1.IH" [OF Some] unfolding eq by simp
  qed
qed

lemma place_run_spec:
  "place_run n c len ws = (ps, e) \<Longrightarrow>
    length ps = n \<and> chained c (map (run len) ps) e \<and> (\<forall>p \<in> set ps. clear_of ws (run len p))"
proof (induction n arbitrary: c ps)
  case (Suc n)
  define b where "b = first_fit c len ws"
  obtain qs where qs: "place_run n (b + len) len ws = (qs, e)" "ps = b # qs"
    using Suc.prems by (auto simp: Let_def b_def split: prod.splits)
  have "c \<le> b" "clear_of ws (run len b)" using first_fit_spec by (auto simp: b_def)
  then show ?case using Suc.IH [OF qs(1)] qs(2) by (auto simp: range_end_def)
qed auto

lemma set_places_spec:
  assumes "length bbs = n" "length ibs = n" "length ts = n" "i + n \<le> length gs"
  shows "length (set_places i bbs ibs ts gs) = length gs
    \<and> (\<forall>j < length gs. set_places i bbs ibs ts gs ! j =
         (if i \<le> j \<and> j < i + n
          then (gs ! j)\<lparr>gl_block_bitmap := bbs ! (j - i), gl_inode_bitmap := ibs ! (j - i), gl_inode_table := ts ! (j - i)\<rparr>
          else gs ! j))"
  using assms
proof (induction i bbs ibs ts gs arbitrary: n rule: set_places.induct)
  case (1 i bb bbs ib ibs t ts gs)
  then obtain n' where n: "n = Suc n'" by (cases n) auto
  let ?gs = "gs[i := (gs ! i)\<lparr>gl_block_bitmap := bb, gl_inode_bitmap := ib, gl_inode_table := t\<rparr>]"
  have IH: "length (set_places (i + 1) bbs ibs ts ?gs) = length ?gs
    \<and> (\<forall>j < length ?gs. set_places (i + 1) bbs ibs ts ?gs ! j =
         (if i + 1 \<le> j \<and> j < i + 1 + n'
          then (?gs ! j)\<lparr>gl_block_bitmap := bbs ! (j - (i + 1)), gl_inode_bitmap := ibs ! (j - (i + 1)), gl_inode_table := ts ! (j - (i + 1))\<rparr>
          else ?gs ! j))"
    using "1.prems" n by (intro "1.IH") auto
  show ?case
  proof (intro conjI allI impI)
    show "length (set_places i (bb # bbs) (ib # ibs) (t # ts) gs) = length gs" using IH by simp
    fix j assume j: "j < length gs"
    then show "set_places i (bb # bbs) (ib # ibs) (t # ts) gs ! j =
      (if i \<le> j \<and> j < i + n
       then (gs ! j)\<lparr>gl_block_bitmap := (bb # bbs) ! (j - i), gl_inode_bitmap := (ib # ibs) ! (j - i),
              gl_inode_table := (t # ts) ! (j - i)\<rparr>
       else gs ! j)"
    proof (cases "i < j")
      case True
      then obtain k where k: "j = i + 1 + k" by (metis Suc_eq_plus1 less_iff_Suc_add add.assoc plus_1_eq_Suc)
      then have "?gs ! j = gs ! j" by simp
      then show ?thesis using IH j n by (auto simp: k)
    next
      case False
      then have "set_places i (bb # bbs) (ib # ibs) (t # ts) gs ! j = ?gs ! j" using IH j by auto
      then show ?thesis using False j n by (cases "i = j") auto
    qed
  qed
qed auto

text \<open>Placement changes only where a group's bitmaps and table sit.\<close>

definition same_groups :: "GroupLayout list \<Rightarrow> GroupLayout list \<Rightarrow> bool" where
  "same_groups gs gs' \<longleftrightarrow> length gs' = length gs \<and> (\<forall>j < length gs. gl_index (gs' ! j) = gl_index (gs ! j)
     \<and> gl_start_block (gs' ! j) = gl_start_block (gs ! j) \<and> gl_block_count (gs' ! j) = gl_block_count (gs ! j)
     \<and> gl_has_super (gs' ! j) = gl_has_super (gs ! j))"

lemma same_groups_trans: "same_groups a b \<Longrightarrow> same_groups b c \<Longrightarrow> same_groups a c"
  by (auto simp: same_groups_def)

lemma super_region_same:
  "same_groups (l_groups l) gs \<Longrightarrow> super_overhead_region (l\<lparr>l_groups := gs\<rparr>) i = super_overhead_region l i"
  by (auto simp: super_overhead_region_def same_groups_def Let_def)

definition own :: "nat \<Rightarrow> GroupLayout \<Rightarrow> BlockRange list" where
  "own itb g = [run 1 (gl_block_bitmap g), run 1 (gl_inode_bitmap g), run itb (gl_inode_table g)]"

lemma mset_triples:
  "mset (concat (map (\<lambda>k. [a k, b k, c k]) xs)) = mset (map a xs @ map b xs @ map c xs)"
  by (induction xs) simp_all

lemma map_run_nth: "length ps = n \<Longrightarrow> map (\<lambda>k. run len (ps ! k)) [0..<n] = map (run len) ps"
  by (rule nth_equalityI) simp_all

lemma chain_pause: "chained a xs b \<Longrightarrow> b \<le> b' \<Longrightarrow> chained b' ys c \<Longrightarrow> chained a (xs @ ys) c"
  using chained_append chained_weaken by blast

lemma place_flex_group_spec:
  assumes "place_flex_group ws head l p = Ok (l', p')" "head < l_group_count l" "length (l_groups l) = l_group_count l"
    and n: "n = min (l_group_count l - head) (l_flex_bg_size l)"
  shows "same_groups (l_groups l) (l_groups l')"
    and "\<forall>j < l_group_count l. j < head \<or> head + n \<le> j \<longrightarrow> l_groups l' ! j = l_groups l ! j"
    and "\<exists>P. chained (max (gl_start_block (l_groups l ! head)) p) P p' \<and> (\<forall>r \<in> set P. clear_of ws r)
      \<and> mset P = mset (concat (map (\<lambda>j. own (l_inode_table_blocks l) (l_groups l' ! j)) [head..<head + n]))"
proof -
  define itb where "itb = l_inode_table_blocks l"
  have members: "flex_members l head = (Ok n :: (GeometryError, nat) outcome)"
    using assms(2) by (simp add: flex_members_def sub64_def n)
  obtain slots where slots: "flex_slots l head = (Ok slots :: (GeometryError, nat) outcome)"
    using members by (simp add: flex_slots_def)
  define c1 where "c1 = max (gl_start_block (l_groups l ! head)
    + (case super_overhead_region l head of Some r \<Rightarrow> br_len r | None \<Rightarrow> 0)) p"
  obtain bbs e1 where bbs: "place_run n c1 1 ws = (bbs, e1)" by (cases "place_run n c1 1 ws")
  define c2 where "c2 = max e1 (bbs ! 0 + slots)"
  obtain ibs e2 where ibs: "place_run n c2 1 ws = (ibs, e2)" by (cases "place_run n c2 1 ws")
  define c3 where "c3 = max e2 (ibs ! 0 + slots)"
  obtain ts e3 where ts': "place_run n c3 itb ws = (ts, e3)" by (cases "place_run n c3 itb ws")
  have lens: "length bbs = n" "length ibs = n" using place_run_spec [OF bbs] place_run_spec [OF ibs] by auto
  have l': "l\<lparr>l_groups := set_places head bbs ibs ts (l_groups l)\<rparr> = l' \<and> e3 = p'"
    using assms(1) unfolding place_flex_group_def members slots Let_def andThen.simps idx_at_def itb_def [symmetric]
    by (simp only: assms(2,3) if_True andThen.simps c1_def [symmetric] bbs fst_conv snd_conv c2_def [symmetric] ibs
        c3_def [symmetric] ts' lens outcome.inject prod.inject split: if_splits) simp_all
  note ts = ts' [unfolded conjunct2 [OF l']]
  have c: "max (gl_start_block (l_groups l ! head)) p \<le> c1" "e1 \<le> c2" "e2 \<le> c3"
    by (auto simp: c1_def c2_def c3_def)
  note places = place_run_spec [OF bbs] place_run_spec [OF ibs] place_run_spec [OF ts]
  have "head + n \<le> length (l_groups l)" using assms(2,3) n by simp
  note set = set_places_spec [of bbs n ibs ts head "l_groups l", OF _ _ _ this]
  have groups: "length (l_groups l') = length (l_groups l)"
    "\<And>j. j < length (l_groups l) \<Longrightarrow> l_groups l' ! j = (if head \<le> j \<and> j < head + n
       then (l_groups l ! j)\<lparr>gl_block_bitmap := bbs ! (j - head), gl_inode_bitmap := ibs ! (j - head), gl_inode_table := ts ! (j - head)\<rparr>
       else l_groups l ! j)"
    using set places by (simp_all flip: conjunct1 [OF l'])
  show "same_groups (l_groups l) (l_groups l')" using groups by (auto simp: same_groups_def)
  show "\<forall>j < l_group_count l. j < head \<or> head + n \<le> j \<longrightarrow> l_groups l' ! j = l_groups l ! j"
    using groups assms(3) by auto
  let ?P = "map (run 1) bbs @ map (run 1) ibs @ map (run itb) ts"
  have "chained (max (gl_start_block (l_groups l ! head)) p) ?P p'"
    using places c chain_pause chained_weaken by (meson order_refl)
  moreover have "\<forall>r \<in> set ?P. clear_of ws r" using places by auto
  moreover have "mset (concat (map (\<lambda>j. own itb (l_groups l' ! j)) [head..<head + n])) = mset ?P"
  proof -
    have eq: "map (\<lambda>j. own itb (l_groups l' ! j)) [head..<head + n] =
        map (\<lambda>k. [run 1 (bbs ! k), run 1 (ibs ! k), run itb (ts ! k)]) [0..<n]"
      using groups(2) \<open>head + n \<le> length (l_groups l)\<close> by (intro nth_equalityI) (simp_all add: own_def)
    then show ?thesis using places by (simp only: mset_triples map_run_nth)
  qed
  ultimately show "\<exists>P. chained (max (gl_start_block (l_groups l ! head)) p) P p' \<and> (\<forall>r \<in> set P. clear_of ws r)
      \<and> mset P = mset (concat (map (\<lambda>j. own (l_inode_table_blocks l) (l_groups l' ! j)) [head..<head + n]))"
    unfolding itb_def [symmetric] by metis
qed

lemma place_flex_spec:
  assumes "place_flex ws head l p = Ok (l', p')" "length (l_groups l) = l_group_count l" "0 < l_flex_bg_size l"
    and "\<forall>j < l_group_count l. b \<le> gl_start_block (l_groups l ! j)"
  shows "l' = l\<lparr>l_groups := l_groups l'\<rparr> \<and> same_groups (l_groups l) (l_groups l')
    \<and> (\<forall>j < l_group_count l. j < head \<longrightarrow> l_groups l' ! j = l_groups l ! j)
    \<and> (\<exists>P. chained (if head < l_group_count l then max b p else p) P p' \<and> (\<forall>r \<in> set P. clear_of ws r)
         \<and> mset P = mset (concat (map (\<lambda>j. own (l_inode_table_blocks l) (l_groups l' ! j)) [head..<l_group_count l])))"
  using assms
proof (induction "l_group_count l - head" arbitrary: head l p rule: less_induct)
  case less
  define gc fx itb where "gc = l_group_count l" and "fx = l_flex_bg_size l" and "itb = l_inode_table_blocks l"
  note names = gc_def fx_def itb_def
  note defs = names [symmetric]
  show ?case
  proof (cases "head < gc")
    case False
    then have "l' = l \<and> p' = p" using less.prems(1) by (simp add: place_flex.simps [of ws] defs)
    then show ?thesis using False by (auto simp: same_groups_def defs intro!: exI [of _ "[]"])
  next
    case True
    obtain m q where m: "place_flex_group ws head l p = Ok (m, q)" and rest: "place_flex ws (head + fx) m q = Ok (l', p')"
      using less.prems(1,3) True by (auto simp: place_flex.simps [of ws head] defs)
    define n where "n = min (gc - head) fx"
    note one = place_flex_group_spec [OF m, folded names, OF True less.prems(2) [folded names] n_def]
    have frame: "m = l\<lparr>l_groups := l_groups m\<rparr>" by (rule place_flex_group_frame [OF m])
    have fields: "l_group_count m = gc" "l_flex_bg_size m = fx" "l_inode_table_blocks m = itb"
      by (subst frame, simp add: defs)+
    have len: "length (l_groups m) = gc" using one(1) less.prems(2) by (simp add: same_groups_def defs)
    have "l' = m\<lparr>l_groups := l_groups l'\<rparr> \<and> same_groups (l_groups m) (l_groups l')
      \<and> (\<forall>j < gc. j < head + fx \<longrightarrow> l_groups l' ! j = l_groups m ! j)
      \<and> (\<exists>P. chained (if head + fx < gc then max b q else q) P p' \<and> (\<forall>r \<in> set P. clear_of ws r)
         \<and> mset P = mset (concat (map (\<lambda>j. own itb (l_groups l' ! j)) [head + fx..<gc])))"
    proof (rule less.hyps [of m "head + fx" q, unfolded fields])
      show "gc - (head + fx) < l_group_count l - head" using True less.prems(3) by (simp add: defs)
      show "place_flex ws (head + fx) m q = Ok (l', p')" by (rule rest)
      show "length (l_groups m) = gc" by (rule len)
      show "0 < fx" using less.prems(3) by (simp add: defs)
      show "\<forall>j < gc. b \<le> gl_start_block (l_groups m ! j)"
        using less.prems(2,4) one(1) by (auto simp: same_groups_def defs)
    qed
    then obtain P2 where l': "l' = m\<lparr>l_groups := l_groups l'\<rparr>" "same_groups (l_groups m) (l_groups l')"
        "\<forall>j < gc. j < head + fx \<longrightarrow> l_groups l' ! j = l_groups m ! j"
      and P2: "chained (if head + fx < gc then max b q else q) P2 p'" "\<forall>r \<in> set P2. clear_of ws r"
        "mset P2 = mset (concat (map (\<lambda>j. own itb (l_groups l' ! j)) [head + fx..<gc]))" by blast
    obtain P1 where P1: "chained (max (gl_start_block (l_groups l ! head)) p) P1 q" "\<forall>r \<in> set P1. clear_of ws r"
        "mset P1 = mset (concat (map (\<lambda>j. own itb (l_groups m ! j)) [head..<head + n]))"
      using one(3) by blast
    have "b \<le> gl_start_block (l_groups l ! head)" using less.prems(4) True by (simp add: defs)
    then have "chained (max b p) P1 q" using P1(1) by (elim chained_weaken) auto
    then have chain: "chained (max b p) (P1 @ P2) p'"
      by (rule chain_pause [OF _ _ P2(1)]) simp
    have split: "[head..<gc] = [head..<head + n] @ [head + fx..<gc]"
    proof (cases "head + fx \<le> gc")
      case True
      then have "n = fx" by (simp add: n_def)
      then show ?thesis using upt_add_eq_append [of head "head + fx" "gc - (head + fx)"] True by simp
    qed (use True in \<open>simp add: n_def\<close>)
    have first: "l_groups l' ! j = l_groups m ! j" if "j \<in> set [head..<head + n]" for j
    proof -
      have "j < gc" "j < head + fx" using that True by (auto simp: n_def min_def split: if_splits)
      then show ?thesis using l'(3) by blast
    qed
    have eq: "map (\<lambda>j. own itb (l_groups l' ! j)) [head..<head + n] = map (\<lambda>j. own itb (l_groups m ! j)) [head..<head + n]"
      using first by simp
    have "mset (P1 @ P2) = mset (concat (map (\<lambda>j. own itb (l_groups l' ! j)) [head..<gc]))"
      unfolding split map_append concat_append eq mset_append P1(3) P2(3) ..
    moreover have "l' = l\<lparr>l_groups := l_groups l'\<rparr>" by (subst l'(1), subst frame) simp
    moreover have "same_groups (l_groups l) (l_groups l')" using one(1) l'(2) by (rule same_groups_trans)
    moreover have "\<forall>j < gc. j < head \<longrightarrow> l_groups l' ! j = l_groups l ! j" using one(2) l'(3) by simp
    ultimately show ?thesis
      using chain True P1(2) P2(2) unfolding defs by (auto intro!: exI [of _ "P1 @ P2"])
  qed
qed

section \<open>The sizes\<close>

lemma size_turn_sizes:
  assumes "size_turn r asked t = Ok (Inr s)"
  shows "sz_total_blocks s = t"
    and "sz_group_count s = max (div_ceil (t - first_block_of (pr_feature r)) (group_size_of (pr_feature r))) 1"
    and "sz_group_count s < 2 ^ 32"
    and "2 \<le> sz_group_count s \<Longrightarrow> super_overhead (sz_gdt s) (sz_reserved s) \<le> group_size_of (pr_feature r)"
    and "\<exists>n > 0. n \<le> 8 * fs_block_size (pr_feature r) \<and> sz_ipg s = inodes_per_group_for (pr_feature r) n"
    and "sz_itb s = sz_ipg s div inodes_per_block (pr_feature r)"
proof -
  define gc where "gc = max (div_ceil (t - first_block_of (pr_feature r)) (group_size_of (pr_feature r))) 1"
  have "0 < inode_count_for r t" by (simp add: inode_count_for_def Let_def)
  then have pos: "0 < div_ceil (inode_count_for r t) gc" by (intro div_ceil_pos) (simp_all add: gc_def)
  note turn = assms [unfolded size_turn_def Let_def, folded gc_def]
  show "sz_total_blocks s = t" using turn by (auto split: if_splits)
  show "sz_group_count s = max (div_ceil (t - first_block_of (pr_feature r)) (group_size_of (pr_feature r))) 1"
    unfolding gc_def [symmetric] using turn by (auto split: if_splits)
  show "sz_group_count s < 2 ^ 32" using turn by (auto split: if_splits)
  show "super_overhead (sz_gdt s) (sz_reserved s) \<le> group_size_of (pr_feature r)" if "2 \<le> sz_group_count s"
    using turn that by (auto simp: super_overhead_def split: if_splits)
  show "\<exists>n > 0. n \<le> 8 * fs_block_size (pr_feature r) \<and> sz_ipg s = inodes_per_group_for (pr_feature r) n"
    using turn pos by (intro exI [of _ "div_ceil (inode_count_for r t) gc"]) (auto split: if_splits)
  show "sz_itb s = sz_ipg s div inodes_per_block (pr_feature r)" using turn by (auto split: if_splits)
qed

lemma size_groups_turn: "size_groups r asked t = Ok s \<Longrightarrow> \<exists>t' \<le> t. size_turn r asked t' = Ok (Inr s)"
proof (induction r asked t rule: size_groups.induct)
  case (1 r asked t)
  obtain turn where turn: "size_turn r asked t = Ok turn" using "1.prems" by (auto simp: size_groups.simps [of r asked t])
  show ?case
  proof (cases turn)
    case (Inl t')
    then have "\<exists>u \<le> t'. size_turn r asked u = Ok (Inr s)"
      using "1.IH" [OF turn Inl] "1.prems" turn by (simp add: size_groups.simps [of r asked t])
    then show ?thesis using size_turn_drops turn Inl by (metis less_imp_le order_trans)
  next
    case (Inr s')
    then show ?thesis using "1.prems" turn by (auto simp: size_groups.simps [of r asked t])
  qed
qed

lemma inodes_per_group_whole:
  assumes "validate f = Ok ()" "0 < n" "n \<le> 8 * fs_block_size f"
  shows "inodes_per_block f dvd inodes_per_group_for f n" "inodes_per_group_for f n \<le> 8 * fs_block_size f"
    "0 < inodes_per_group_for f n" "0 < inodes_per_block f"
proof -
  define q where "q = inodes_per_block f"
  have "fs_inode_size f \<in> {128, 256, 512, 1024, 2048, 4096}" "fs_block_size f \<in> {1024, 2048, 4096}" "fs_inode_size f \<le> fs_block_size f"
    using valid_sizes [OF assms(1)] by blast+
  then have q: "q \<in> {1, 2, 4, 8, 16, 32}" "q dvd 8 * fs_block_size f" "8 dvd 8 * fs_block_size f" "8 \<le> 8 * fs_block_size f"
    by (auto simp: q_def inodes_per_block_def)
  define filled where "filled = div_ceil n q * q"
  have pos: "0 < q" using q(1) by auto
  obtain c where c: "8 * fs_block_size f = c * q" using q(2) by (metis dvd_def mult.commute)
  have filled: "filled \<le> 8 * fs_block_size f" "0 < filled" "q dvd filled"
    using div_ceil_least [of n c q] assms(3) c pos div_ceil_pos [OF pos assms(2)] by (auto simp: filled_def)
  have ipg: "inodes_per_group_for f n = max (filled div 8 * 8) 8"
    by (simp add: inodes_per_group_for_def Let_def filled_def q_def MIN_INODES_PER_GROUP_def)
  have "q dvd filled div 8 * 8" "q dvd 8 \<or> filled div 8 * 8 = filled \<and> 8 < filled"
  proof -
    have "q dvd 8 \<or> 8 dvd q \<and> 8 < q" using q(1) by auto
    moreover have "q \<le> filled" using filled(2,3) by (rule dvd_imp_le [rotated])
    ultimately show "q dvd 8 \<or> filled div 8 * 8 = filled \<and> 8 < filled"
      using filled(3) by (metis dvd_trans dvd_div_mult_self less_le_trans)
    then show "q dvd filled div 8 * 8" using filled(3) by (metis dvd_mult)
  qed
  then show "inodes_per_block f dvd inodes_per_group_for f n"
    unfolding ipg q_def [symmetric] by (auto simp: max_def)
  have "filled div 8 * 8 \<le> 8 * fs_block_size f" using filled(1) by (meson div_times_less_eq_dividend le_trans)
  then show "inodes_per_group_for f n \<le> 8 * fs_block_size f" using q(4) by (simp add: ipg)
  show "0 < inodes_per_group_for f n" by (simp add: ipg)
  show "0 < inodes_per_block f" using pos by (simp add: q_def)
qed

section \<open>The plan\<close>

lemma tile_upt:
  assumes "f \<le> t"
  shows "concat (map (\<lambda>i. [f + i * b..<min (f + i * b + b) t]) [0..<n]) = [f..<min (f + n * b) t]"
proof (induction n)
  case 0
  then show ?case using assms by simp
next
  case (Suc n)
  show ?case
  proof (cases "f + n * b \<le> t")
    case True
    then have "[f..<min (f + n * b + b) t] = [f..<f + n * b] @ [f + n * b..<min (f + n * b + b) t]"
      using upt_add_eq_append [of f "f + n * b" "min (f + n * b + b) t - (f + n * b)"] by simp
    then show ?thesis using Suc.IH True by (simp add: add.assoc add.commute [of b])
  next
    case False
    then have "min (f + n * b) t = t" "min (f + Suc n * b) t = t" "[f + n * b..<min (f + n * b + b) t] = []" by auto
    then show ?thesis using Suc.IH by simp
  qed
qed

lemma same_groups_refl: "same_groups gs gs"
  by (simp add: same_groups_def)

text \<open>The block-mapped family: each group's own run, after its copy of the superblock.\<close>

definition copy_len :: "Layout \<Rightarrow> nat \<Rightarrow> nat" where
  "copy_len l i = (case super_overhead_region l i of Some r \<Rightarrow> br_len r | None \<Rightarrow> 0)"

definition own_base :: "Layout \<Rightarrow> nat \<Rightarrow> nat" where
  "own_base l i = gl_start_block (l_groups l ! i) + copy_len l i"

lemma place_own_spec:
  assumes "foldl (\<lambda>s index. place_own index s) (u, 0) [0..<n] = (l, e)" "n \<le> length (l_groups u)"
  shows "l = u\<lparr>l_groups := l_groups l\<rparr> \<and> same_groups (l_groups u) (l_groups l)
    \<and> (\<forall>j < length (l_groups u). l_groups l ! j =
         (if j < n then (l_groups u ! j)\<lparr>gl_block_bitmap := own_base u j, gl_inode_bitmap := own_base u j + 1,
            gl_inode_table := own_base u j + 2\<rparr>
          else l_groups u ! j))
    \<and> e = (if n = 0 then 0 else own_base u (n - 1) + 2 + l_inode_table_blocks u)"
  using assms
proof (induction n arbitrary: l e)
  case 0
  then show ?case by (simp add: same_groups_refl)
next
  case (Suc n)
  obtain m d where m: "foldl (\<lambda>s index. place_own index s) (u, 0) [0..<n] = (m, d)" by fastforce
  have IH: "m = u\<lparr>l_groups := l_groups m\<rparr>" "same_groups (l_groups u) (l_groups m)"
    "\<And>j. j < length (l_groups u) \<Longrightarrow> l_groups m ! j =
         (if j < n then (l_groups u ! j)\<lparr>gl_block_bitmap := own_base u j, gl_inode_bitmap := own_base u j + 1,
            gl_inode_table := own_base u j + 2\<rparr>
          else l_groups u ! j)"
    using Suc.IH [OF m] Suc.prems(2) by auto
  have copy: "super_overhead_region m n = super_overhead_region u n"
    by (subst IH(1)) (rule super_region_same [OF IH(2)])
  have itb: "l_inode_table_blocks m = l_inode_table_blocks u" by (subst IH(1)) simp
  have n: "n < length (l_groups u)" "length (l_groups m) = length (l_groups u)"
    using Suc.prems(2) IH(2) by (auto simp: same_groups_def)
  have "place_own n (m, d) = (l, e)" using Suc.prems(1) m by simp
  then have l: "l = m\<lparr>l_groups := (l_groups m)[n := (l_groups u ! n)
           \<lparr>gl_block_bitmap := own_base u n, gl_inode_bitmap := own_base u n + 1, gl_inode_table := own_base u n + 2\<rparr>]\<rparr>"
    and e: "e = own_base u n + 2 + l_inode_table_blocks u"
    using IH(3) [OF n(1)] by (auto simp: place_own_def Let_def copy itb own_base_def copy_len_def)
  have frame: "l = u\<lparr>l_groups := l_groups l\<rparr>" by (subst l, subst (1) IH(1)) (simp add: l)
  have nth: "l_groups l ! j = (if j < Suc n then (l_groups u ! j)\<lparr>gl_block_bitmap := own_base u j,
      gl_inode_bitmap := own_base u j + 1, gl_inode_table := own_base u j + 2\<rparr> else l_groups u ! j)"
    if "j < length (l_groups u)" for j
    using IH(3) [OF that] that n by (cases "j = n") (auto simp: l)
  have "same_groups (l_groups u) (l_groups l)"
    using nth n by (auto simp: same_groups_def) (simp add: l)
  then show ?case using frame nth e by simp
qed

text \<open>What \<open>plan_layout\<close> has established when it answers with a layout.\<close>

lemma plan_steps:
  assumes "plan_layout r = Ok l"
  obtains s e overhead where "validate (pr_feature r) = Ok ()"
    "size_groups r (pr_size_bytes r div fs_block_size (pr_feature r)) (pr_size_bytes r div fs_block_size (pr_feature r)) = Ok s"
    "sz_ipg s * sz_group_count s < 2 ^ 32" "group0_overhead (pr_feature r) s \<le> sz_total_blocks s"
    "place_groups (unplaced_layout r s) = Ok (l, e)" "last_overhead l = Ok overhead"
    "overhead < gl_block_count (l_groups l ! (l_group_count l - 1))" "e \<le> l_total_blocks l"
  using assms unfolding plan_layout_def Let_def
  by (auto simp: idx_at_def not_less split: if_splits)

lemma unplaced_frame:
  assumes "place_groups (unplaced_layout r s) = Ok (l, e)"
  shows "l = (unplaced_layout r s)\<lparr>l_groups := l_groups l\<rparr>" "same_groups (l_groups (unplaced_layout r s)) (l_groups l)"
proof -
  let ?u = "unplaced_layout r s"
  have u: "length (l_groups ?u) = l_group_count ?u" "0 < l_flex_bg_size ?u"
    by (simp_all add: unplaced_layout_def Let_def FLEX_BG_SIZE_def)
  have "l = ?u\<lparr>l_groups := l_groups l\<rparr> \<and> same_groups (l_groups ?u) (l_groups l)"
  proof (cases "has_flex_bg (l_feature ?u)")
    case True
    then have "place_flex (List.map_filter (super_overhead_region ?u) [0..<l_group_count ?u]) 0 ?u 0 = Ok (l, e)"
      using assms by (simp add: place_groups_def Let_def)
    then show ?thesis using place_flex_spec [OF _ u, of _ 0 0 l e 0] by blast
  next
    case False
    then have "foldl (\<lambda>s index. place_own index s) (?u, 0) [0..<l_group_count ?u] = (l, e)"
      using assms by (simp add: place_groups_def)
    from place_own_spec [OF this] show ?thesis using u by simp
  qed
  then show "l = ?u\<lparr>l_groups := l_groups l\<rparr>" "same_groups (l_groups ?u) (l_groups l)" by blast+
qed

lemma planned_groups:
  assumes "place_groups (unplaced_layout r s) = Ok (l, e)"
  shows "l_feature l = pr_feature r" "l_total_blocks l = sz_total_blocks s" "l_group_count l = sz_group_count s"
    "l_blocks_per_group l = group_size_of (pr_feature r)" "l_first_data_block l = first_block_of (pr_feature r)"
    "l_inodes_per_group l = sz_ipg s" "l_inode_table_blocks l = sz_itb s" "l_total_inodes l = sz_ipg s * sz_group_count s"
    "l_gdt_blocks l = sz_gdt s" "l_reserved_gdt_blocks l = sz_reserved s" "l_block_size l = fs_block_size (pr_feature r)"
    "length (l_groups l) = sz_group_count s"
    "i < sz_group_count s \<Longrightarrow> gl_index (l_groups l ! i) = i"
    "i < sz_group_count s \<Longrightarrow> gl_start_block (l_groups l ! i) = first_block_of (pr_feature r) + i * group_size_of (pr_feature r)"
    "i < sz_group_count s \<Longrightarrow> gl_start_block (l_groups l ! i) + gl_block_count (l_groups l ! i) =
       max (first_block_of (pr_feature r) + i * group_size_of (pr_feature r))
         (min (first_block_of (pr_feature r) + i * group_size_of (pr_feature r) + group_size_of (pr_feature r)) (sz_total_blocks s))"
proof -
  note frame = unplaced_frame [OF assms]
  have u: "l_groups (unplaced_layout r s) = map (plan_group (pr_feature r) (sz_total_blocks s)) [0..<sz_group_count s]"
    by (simp add: unplaced_layout_def Let_def)
  show "l_feature l = pr_feature r" "l_total_blocks l = sz_total_blocks s" "l_group_count l = sz_group_count s"
    "l_blocks_per_group l = group_size_of (pr_feature r)" "l_first_data_block l = first_block_of (pr_feature r)"
    "l_inodes_per_group l = sz_ipg s" "l_inode_table_blocks l = sz_itb s" "l_total_inodes l = sz_ipg s * sz_group_count s"
    "l_gdt_blocks l = sz_gdt s" "l_reserved_gdt_blocks l = sz_reserved s" "l_block_size l = fs_block_size (pr_feature r)"
    by (subst frame(1), simp add: unplaced_layout_def Let_def)+
  show "length (l_groups l) = sz_group_count s"
    "i < sz_group_count s \<Longrightarrow> gl_index (l_groups l ! i) = i"
    "i < sz_group_count s \<Longrightarrow> gl_start_block (l_groups l ! i) = first_block_of (pr_feature r) + i * group_size_of (pr_feature r)"
    "i < sz_group_count s \<Longrightarrow> gl_start_block (l_groups l ! i) + gl_block_count (l_groups l ! i) =
       max (first_block_of (pr_feature r) + i * group_size_of (pr_feature r))
         (min (first_block_of (pr_feature r) + i * group_size_of (pr_feature r) + group_size_of (pr_feature r)) (sz_total_blocks s))"
    using frame(2) by (auto simp: same_groups_def u plan_group_def Let_def)
qed

lemma planned_extent:
  assumes "size_groups r a a = Ok s" "group0_overhead (pr_feature r) s \<le> sz_total_blocks s" "validate (pr_feature r) = Ok ()"
  defines "fdb \<equiv> first_block_of (pr_feature r)" and "bpg \<equiv> group_size_of (pr_feature r)" and "gc \<equiv> sz_group_count s"
    and "t \<equiv> sz_total_blocks s"
  shows "fdb < t" "0 < gc" "t \<le> fdb + gc * bpg" "i < gc \<Longrightarrow> fdb + i * bpg < t" "Suc i < gc \<Longrightarrow> fdb + i * bpg + bpg < t"
    "t \<le> a" "0 < bpg"
proof -
  obtain t' where t': "t' \<le> a" "size_turn r a t' = Ok (Inr s)" using size_groups_turn [OF assms(1)] by blast
  note sizes = size_turn_sizes [OF t'(2), folded fdb_def bpg_def gc_def]
  have t: "t = t'" using sizes(1) by (simp add: t_def)
  show "t \<le> a" using t' t by simp
  show fdb: "fdb < t" using assms(2) by (simp add: group0_overhead_def super_overhead_def fdb_def first_block_of_def t_def)
  show bpg: "0 < bpg" using valid_sizes(1) [OF assms(3)] by (auto simp: bpg_def group_size_of_def)
  have gc: "gc = div_ceil (t - fdb) bpg"
    using sizes(2) div_ceil_pos [OF bpg, of "t - fdb"] fdb by (simp add: t)
  show "0 < gc" unfolding gc using fdb by (intro div_ceil_pos bpg) simp
  have "t - fdb \<le> gc * bpg" unfolding gc using div_ceil_le [OF bpg, of "t - fdb"] by (simp add: mult.commute)
  then show "t \<le> fdb + gc * bpg" by simp
  show start: "fdb + i * bpg < t" if "i < gc" for i
    using that unfolding gc less_div_ceil [OF bpg] by simp
  show "fdb + i * bpg + bpg < t" if "Suc i < gc" using start [OF that] by simp
qed

lemma chained_steps:
  "(\<And>i. i < n \<Longrightarrow> chained (f i) (xs i) (f (Suc i))) \<Longrightarrow> chained (f 0) (concat (map xs [0..<n])) (f n)"
  by (induction n) (auto simp: chained_append)

definition copies :: "Layout \<Rightarrow> nat \<Rightarrow> BlockRange list" where
  "copies l i = (case super_overhead_region l i of Some r \<Rightarrow> [r] | None \<Rightarrow> [])"

lemma map_filter_copies: "List.map_filter (super_overhead_region l) is = concat (map (copies l) is)"
  by (induction "is") (auto simp: List.map_filter_def copies_def split: option.splits)

lemma mset_metadata_regions:
  assumes "\<And>i. i < n \<Longrightarrow> gl_index (l_groups l ! i) = i" "length (l_groups l) = n"
  shows "mset (metadata_regions l) = mset (concat (map (\<lambda>i. copies l i @ own (l_inode_table_blocks l) (l_groups l ! i)) [0..<n]))"
proof -
  have "map (group_regions l) (l_groups l) = map (\<lambda>i. copies l i @ own (l_inode_table_blocks l) (l_groups l ! i)) [0..<n]"
    using assms by (intro nth_equalityI) (simp_all add: group_regions_def copies_def own_def)
  then show ?thesis by (simp add: metadata_regions_def)
qed

lemma mset_concat_append:
  "mset (concat (map (\<lambda>i. xs i @ ys i) is)) = mset (concat (map xs is) @ concat (map ys is))"
  by (induction "is") simp_all

lemma clear_of_disjoint: "clear_of ws r \<Longrightarrow> w \<in> set ws \<Longrightarrow> set (range_blocks r) \<inter> set (range_blocks w) = {}"
  by (auto simp: clear_of_def)

text \<open>A copy of the superblock and its descriptors, at the start of its group.\<close>

lemma copies_cases:
  assumes "i < length (l_groups l)"
  shows "copies l i = (if gl_has_super (l_groups l ! i)
      then [run (super_overhead (l_gdt_blocks l) (l_reserved_gdt_blocks l)) (gl_start_block (l_groups l ! i))] else [])"
    "copy_len l i = (if gl_has_super (l_groups l ! i) then super_overhead (l_gdt_blocks l) (l_reserved_gdt_blocks l) else 0)"
  using assms by (simp_all add: copies_def copy_len_def super_overhead_region_def Let_def)

lemma last_overhead_copy: "last_overhead l = Ok n \<Longrightarrow> copy_len l (l_group_count l - 1) \<le> n"
  by (auto simp: last_overhead_def copy_len_def Let_def split: if_splits)

lemma last_overhead_own:
  "last_overhead l = Ok n \<Longrightarrow> \<not> has_flex_bg (l_feature l) \<Longrightarrow> n = copy_len l (l_group_count l - 1) + 2 + l_inode_table_blocks l"
  by (auto simp: last_overhead_def copy_len_def Let_def)

text \<open>
  A planned layout, as its metadata is proved apart: the start of each group, what a copy needs of its
  group, and the length of the last.
\<close>

lemma planned_facts:
  assumes "plan_layout r = Ok l"
  defines "f \<equiv> l_feature l" and "fdb \<equiv> l_first_data_block l" and "bpg \<equiv> l_blocks_per_group l"
    and "gc \<equiv> l_group_count l" and "t \<equiv> l_total_blocks l"
  obtains u e overhead where
    "place_groups u = Ok (l, e)" "e \<le> t" "l = u\<lparr>l_groups := l_groups l\<rparr>" "same_groups (l_groups u) (l_groups l)"
    "length (l_groups l) = gc" "0 < l_flex_bg_size u"
    "\<And>i. i < gc \<Longrightarrow> gl_index (l_groups l ! i) = i \<and> gl_start_block (l_groups l ! i) = fdb + i * bpg
       \<and> gl_block_count (l_groups l ! i) = min (fdb + Suc i * bpg) t - (fdb + i * bpg)"
    "\<And>i. i < gc \<Longrightarrow> fdb + i * bpg < t" "t \<le> fdb + gc * bpg" "fdb < t" "0 < gc"
    "last_overhead l = Ok overhead" "fdb + (gc - 1) * bpg + overhead < t"
    "2 \<le> gc \<Longrightarrow> super_overhead (l_gdt_blocks l) (l_reserved_gdt_blocks l) \<le> bpg"
proof -
  let ?a = "pr_size_bytes r div fs_block_size (pr_feature r)"
  obtain s e overhead where plan: "validate (pr_feature r) = Ok ()" "size_groups r ?a ?a = Ok s"
    "group0_overhead (pr_feature r) s \<le> sz_total_blocks s" "place_groups (unplaced_layout r s) = Ok (l, e)"
    "last_overhead l = Ok overhead" "overhead < gl_block_count (l_groups l ! (l_group_count l - 1))" "e \<le> l_total_blocks l"
    by (rule plan_steps [OF assms(1)])
  let ?u = "unplaced_layout r s"
  note fields = planned_groups [OF plan(4)]
  note extent = planned_extent [OF plan(2,3,1), folded fields(2,3,4,5), folded fdb_def bpg_def gc_def t_def]
  obtain t' where "size_turn r ?a t' = Ok (Inr s)" using size_groups_turn [OF plan(2)] by blast
  note sizes = size_turn_sizes [OF this, folded fields(2,3,4,5,9,10), folded fdb_def bpg_def gc_def t_def]
  have groups: "gl_index (l_groups l ! i) = i \<and> gl_start_block (l_groups l ! i) = fdb + i * bpg
      \<and> gl_block_count (l_groups l ! i) = min (fdb + Suc i * bpg) t - (fdb + i * bpg)" if "i < gc" for i
    using fields(13-15) [of i, folded fields(2,3,4,5), folded fdb_def bpg_def gc_def t_def] that extent(4) [OF that]
    by (auto simp: add.assoc add.commute [of bpg] max_def)
  show thesis
  proof (rule that [OF plan(4)])
    show "e \<le> t" using plan(7) by (simp add: t_def)
    show "l = ?u\<lparr>l_groups := l_groups l\<rparr>" "same_groups (l_groups ?u) (l_groups l)" by (rule unplaced_frame [OF plan(4)])+
    show "length (l_groups l) = gc" using fields(3,12) by (simp add: gc_def)
    show "0 < l_flex_bg_size ?u" by (simp add: unplaced_layout_def Let_def FLEX_BG_SIZE_def)
    show "fdb + (gc - 1) * bpg + overhead < t"
      using plan(6) groups [of "gc - 1"] extent(2) by (auto simp: gc_def)
    show "last_overhead l = Ok overhead" by (rule plan(5))
  qed (use groups extent sizes(4) in auto)
qed

section \<open>What a plan promises\<close>

lemma metadata_apart:
  assumes "plan_layout r = Ok l"
    and "has_flex_bg (l_feature l)
      \<or> super_overhead (l_gdt_blocks l) (l_reserved_gdt_blocks l) + 2 + l_inode_table_blocks l \<le> l_blocks_per_group l"
  shows "distinct (concat (map range_blocks (metadata_regions l)))
    \<and> set (concat (map range_blocks (metadata_regions l))) \<subseteq> {l_first_data_block l..<l_total_blocks l}"
proof -
  define fdb bpg gc t itb so where "fdb = l_first_data_block l" and "bpg = l_blocks_per_group l" and "gc = l_group_count l"
    and "t = l_total_blocks l" and "itb = l_inode_table_blocks l" and "so = super_overhead (l_gdt_blocks l) (l_reserved_gdt_blocks l)"
  note names = fdb_def bpg_def gc_def t_def so_def
  obtain u e overhead where plan: "place_groups u = Ok (l, e)" "e \<le> t" "l = u\<lparr>l_groups := l_groups l\<rparr>"
      "same_groups (l_groups u) (l_groups l)" "length (l_groups l) = gc" "0 < l_flex_bg_size u"
    and groups: "\<And>i. i < gc \<Longrightarrow> gl_index (l_groups l ! i) = i \<and> gl_start_block (l_groups l ! i) = fdb + i * bpg
       \<and> gl_block_count (l_groups l ! i) = min (fdb + Suc i * bpg) t - (fdb + i * bpg)"
    and start: "\<And>i. i < gc \<Longrightarrow> fdb + i * bpg < t" and ends: "t \<le> fdb + gc * bpg" "fdb < t" "0 < gc"
    and last: "last_overhead l = Ok overhead" "fdb + (gc - 1) * bpg + overhead < t" and fit: "2 \<le> gc \<Longrightarrow> so \<le> bpg"
    using planned_facts [OF assms(1), folded names] by metis
  let ?f = "\<lambda>i. min (fdb + i * bpg) t"
  have f: "?f 0 = fdb" "?f gc = t" using ends by simp_all
  have f': "?f i = fdb + i * bpg" if "i < gc" for i using start [OF that] by simp
  have f_next: "?f (Suc i) = fdb + i * bpg + bpg" if "Suc i < gc" for i using start [OF that] by simp
  have f_last: "i = gc - 1 \<and> ?f (Suc i) = t" if "i < gc" "\<not> Suc i < gc" for i
  proof -
    have "Suc i = gc" using that by simp
    then show ?thesis using f(2) by (metis diff_Suc_1)
  qed
  have copies: "copies l i = (if gl_has_super (l_groups l ! i) then [run so (fdb + i * bpg)] else [])"
    "copy_len l i = (if gl_has_super (l_groups l ! i) then so else 0)" if "i < gc" for i
    using copies_cases [of i l] groups [OF that] that plan(5) by (simp_all add: so_def)
  have "mset (metadata_regions l) = mset (concat (map (\<lambda>i. copies l i @ own itb (l_groups l ! i)) [0..<gc]))"
    using mset_metadata_regions [of gc l] groups plan(5) by (simp add: itb_def)
  note regions = mset_distinct_blocks [OF this]
  have u: "l_feature u = l_feature l" "l_inode_table_blocks u = itb" "l_group_count u = gc"
    by (simp_all add: itb_def gc_def) (subst plan(3), simp)+
  have lenu: "length (l_groups u) = gc" using plan(4,5) by (simp add: same_groups_def)
  have region: "super_overhead_region l i = super_overhead_region u i" for i
    by (subst plan(3)) (rule super_region_same [OF plan(4)])
  show ?thesis
  proof (cases "has_flex_bg (l_feature l)")
    case True
    let ?S = "concat (map (copies l) [0..<gc])"
    have "chained (?f 0) ?S (?f gc)"
    proof (rule chained_steps)
      fix i assume i: "i < gc"
      show "chained (?f i) (copies l i) (?f (Suc i))"
      proof (cases "Suc i < gc")
        case True
        then show ?thesis using copies(1) [OF i] f' [OF i] f_next [OF True] fit by (simp add: range_end_def)
      next
        case False
        then show ?thesis using copies [OF i] f' [OF i] f_last [OF i False] last last_overhead_copy [OF last(1)]
          by (auto simp: range_end_def gc_def)
      qed
    qed
    then have S: "chained fdb ?S t" unfolding f .
    have "place_flex ?S 0 u 0 = Ok (l, e)"
    proof -
      have "copies l = copies u" by (rule ext) (simp add: copies_def region)
      then show ?thesis using plan(1) True by (simp add: place_groups_def u Let_def map_filter_copies)
    qed
    moreover have "\<forall>j < l_group_count u. fdb \<le> gl_start_block (l_groups u ! j)"
      using groups plan(4,5) by (auto simp: u same_groups_def)
    ultimately obtain P where P: "chained (if 0 < gc then max fdb 0 else 0) P e" "\<forall>r \<in> set P. clear_of ?S r"
        "mset P = mset (concat (map (\<lambda>j. own itb (l_groups l ! j)) [0..<gc]))"
      using place_flex_spec [of ?S 0 u 0 l e fdb] lenu plan(6) unfolding u by blast
    have "chained fdb P t" using P(1) ends(3) plan(2) by (elim chained_weaken) auto
    note blocks = chained_blocks [OF this] chained_blocks [OF S]
    have "mset (concat (map (\<lambda>i. copies l i @ own itb (l_groups l ! i)) [0..<gc])) = mset (?S @ P)"
      by (simp add: mset_concat_append P(3))
    note all = mset_distinct_blocks [OF this]
    have "set (concat (map range_blocks ?S)) \<inter> set (concat (map range_blocks P)) = {}"
      using P(2) clear_of_disjoint by fastforce
    then show ?thesis
      unfolding regions all using blocks by (auto simp: fdb_def t_def)
  next
    case False
    then have room: "so + 2 + itb \<le> bpg" using assms(2) by (simp add: names itb_def)
    have "foldl (\<lambda>s index. place_own index s) (u, 0) [0..<gc] = (l, e)" using plan(1) False by (simp add: place_groups_def u)
    note own = place_own_spec [OF this, unfolded lenu u]
    have base: "own_base u i = fdb + i * bpg + copy_len l i" if "i < gc" for i
      using groups [OF that] plan(4,5) that by (auto simp: own_base_def copy_len_def region same_groups_def)
    have "chained (?f 0) (concat (map (\<lambda>i. copies l i @ own itb (l_groups l ! i)) [0..<gc])) (?f gc)"
    proof (rule chained_steps)
      fix i assume i: "i < gc"
      have "l_groups l ! i = (l_groups u ! i)\<lparr>gl_block_bitmap := own_base u i, gl_inode_bitmap := own_base u i + 1,
          gl_inode_table := own_base u i + 2\<rparr>" using own i by simp
      then have blocks: "own itb (l_groups l ! i) = [run 1 (own_base u i), run 1 (own_base u i + 1), run itb (own_base u i + 2)]"
        by (simp add: own_def)
      have "own_base u i + 2 + itb \<le> ?f (Suc i)"
      proof (cases "Suc i < gc")
        case True
        then show ?thesis using base [OF i] copies(2) [OF i] f_next [OF True] room by auto
      next
        case last_group: False
        have at: "i = gc - 1" "?f (Suc i) = t" using f_last [OF i last_group] by auto
        have "own_base u i + 2 + itb = fdb + (gc - 1) * bpg + overhead"
          using base [OF i] at(1) last_overhead_own [OF last(1) False] by (simp add: gc_def itb_def)
        then show ?thesis unfolding at(2) using last(2) by linarith
      qed
      then show "chained (?f i) (copies l i @ own itb (l_groups l ! i)) (?f (Suc i))"
        using copies [OF i] base [OF i] f' [OF i] by (cases "gl_has_super (l_groups l ! i)") (simp_all add: blocks range_end_def)
    qed
    from chained_blocks [OF this [unfolded f]] show ?thesis unfolding regions by (simp add: fdb_def t_def)
  qed
qed

lemma plan_bounds:
  assumes "plan_layout r = Ok l"
  shows "l_block_size l \<in> {1024, 2048, 4096}" "l_blocks_per_group l = 8 * l_block_size l" "l_group_count l < 2 ^ 32"
    "l_total_blocks l * l_block_size l \<le> pr_size_bytes r"
    "l_total_inodes l = l_inodes_per_group l * l_group_count l" "l_total_inodes l < 2 ^ 32"
    "0 < l_inodes_per_group l" "l_inodes_per_group l \<le> 8 * l_block_size l"
    "l_inode_table_blocks l * inodes_per_block (l_feature l) = l_inodes_per_group l"
proof -
  let ?a = "pr_size_bytes r div fs_block_size (pr_feature r)" and ?f = "pr_feature r"
  obtain s e overhead where plan: "validate ?f = Ok ()" "size_groups r ?a ?a = Ok s" "sz_ipg s * sz_group_count s < 2 ^ 32"
    "group0_overhead ?f s \<le> sz_total_blocks s" "place_groups (unplaced_layout r s) = Ok (l, e)"
    by (rule plan_steps [OF assms])
  note fields = planned_groups [OF plan(5)]
  note extent = planned_extent [OF plan(2,4,1)]
  obtain t' where "size_turn r ?a t' = Ok (Inr s)" using size_groups_turn [OF plan(2)] by blast
  note sizes = size_turn_sizes [OF this]
  obtain n where n: "0 < n" "n \<le> 8 * fs_block_size ?f" "sz_ipg s = inodes_per_group_for ?f n" using sizes(5) by blast
  note ipg = inodes_per_group_whole [OF plan(1) n(1,2), folded n(3)]
  show "l_block_size l \<in> {1024, 2048, 4096}" using valid_sizes(1) [OF plan(1)] by (simp add: fields(11))
  show "l_blocks_per_group l = 8 * l_block_size l" by (simp add: fields(4,11) group_size_of_def)
  show "l_group_count l < 2 ^ 32" using sizes(3) by (simp add: fields(3))
  show "l_total_blocks l * l_block_size l \<le> pr_size_bytes r"
  proof -
    have "sz_total_blocks s * fs_block_size ?f \<le> ?a * fs_block_size ?f" using extent(6) by (rule mult_le_mono1)
    also have "\<dots> \<le> pr_size_bytes r" by simp
    finally show ?thesis by (simp add: fields(2,11))
  qed
  show "l_total_inodes l = l_inodes_per_group l * l_group_count l" by (simp add: fields)
  show "l_total_inodes l < 2 ^ 32" using plan(3) by (simp add: fields)
  show "0 < l_inodes_per_group l" "l_inodes_per_group l \<le> 8 * l_block_size l" using ipg by (simp_all add: fields(6,11))
  show "l_inode_table_blocks l * inodes_per_block (l_feature l) = l_inodes_per_group l"
    using ipg(1) by (simp add: fields(1,6,7) sizes(6))
qed

lemma plan_tiles:
  assumes "plan_layout r = Ok l"
  shows "length (l_groups l) = l_group_count l"
    "concat (map (\<lambda>g. [gl_start_block g..<gl_start_block g + gl_block_count g]) (l_groups l)) =
       [l_first_data_block l..<l_total_blocks l]"
proof -
  define fdb bpg gc t where "fdb = l_first_data_block l" and "bpg = l_blocks_per_group l" and "gc = l_group_count l"
    and "t = l_total_blocks l"
  note names = fdb_def bpg_def gc_def t_def
  obtain u where len: "length (l_groups l) = gc"
    and groups: "\<And>i. i < gc \<Longrightarrow> gl_index (l_groups l ! i) = i \<and> gl_start_block (l_groups l ! i) = fdb + i * bpg
       \<and> gl_block_count (l_groups l ! i) = min (fdb + Suc i * bpg) t - (fdb + i * bpg)"
    and start: "\<And>i. i < gc \<Longrightarrow> fdb + i * bpg < t" and ends: "t \<le> fdb + gc * bpg" "fdb < t"
    using planned_facts [OF assms, folded names] by metis
  show "length (l_groups l) = l_group_count l" using len by (simp add: gc_def)
  have "map (\<lambda>g. [gl_start_block g..<gl_start_block g + gl_block_count g]) (l_groups l) =
      map (\<lambda>i. [fdb + i * bpg..<min (fdb + i * bpg + bpg) t]) [0..<gc]"
  proof (rule nth_equalityI)
    fix i assume "i < length (map (\<lambda>g. [gl_start_block g..<gl_start_block g + gl_block_count g]) (l_groups l))"
    then have i: "i < gc" using len by simp
    have "fdb + i * bpg + (min (fdb + Suc i * bpg) t - (fdb + i * bpg)) = min (fdb + i * bpg + bpg) t"
      using start [OF i] by (simp add: min_def)
    then show "map (\<lambda>g. [gl_start_block g..<gl_start_block g + gl_block_count g]) (l_groups l) ! i =
        map (\<lambda>i. [fdb + i * bpg..<min (fdb + i * bpg + bpg) t]) [0..<gc] ! i"
      using i len groups [OF i] by simp
  qed (simp add: len)
  then have "concat (map (\<lambda>g. [gl_start_block g..<gl_start_block g + gl_block_count g]) (l_groups l)) = [fdb..<min (fdb + gc * bpg) t]"
    using tile_upt [of fdb t bpg gc] ends by simp
  then show "concat (map (\<lambda>g. [gl_start_block g..<gl_start_block g + gl_block_count g]) (l_groups l)) =
       [l_first_data_block l..<l_total_blocks l]" using ends by (simp add: fdb_def t_def min_absorb2)
qed

section \<open>Two requests\<close>

text \<open>A filesystem of one group and sixteen inodes.\<close>

definition small_request :: PlanRequest where
  "small_request = \<lparr>pr_size_bytes = 1048576, pr_feature = with_block_size EXT2 1024, pr_grow = NoGrow,
     pr_inodes = InodeTotal 16, pr_reserved = DEFAULT_RATIO\<rparr>"

text \<open>
  A block-mapped filesystem of three groups whose inode tables nearly fill a group: 1024-byte blocks,
  1024-byte inodes, and an inode count a caller may ask for.
\<close>

definition crowded_request :: PlanRequest where
  "crowded_request = \<lparr>pr_size_bytes = 24577 * 1024, pr_feature = with_inode_size (with_block_size EXT2 1024) 1024,
     pr_grow = MaxGrow, pr_inodes = InodeTotal 24552, pr_reserved = DEFAULT_RATIO\<rparr>"

lemmas ext2_eval = EXT2_def with_block_size_def with_inode_size_def feature_tests contains_def compat_flags incompat_flags
  ro_compat_flags desc_size_def inodes_per_block_def first_block_of_def group_size_of_def

lemmas plan_eval = size_groups.simps size_turn_def Let_def reserve_gdt_def gdt_blocks_for_def div_ceil_def
  inode_count_for_def inodes_per_group_for_def MIN_INODES_PER_GROUP_def final_group_needs_def
  sparse_super_has_copy_def is_power_of_def is_power_loop.simps group0_overhead_def super_overhead_def
  plan_layout_def validate_def unplaced_layout_def MAX_EXTENT_BLOCKS_def MAX_32BIT_BLOCKS_def GROW_MAX_SHARE_def
  place_groups_def plan_group_def place_own_def super_overhead_region_def last_overhead_def idx_at_def upt_rec
  ceiling_gdt_def resize_inode_size_def LARGE_FILE_MIN_SIZE_def

lemma power_256: "is_power_of_two 256" "is_power_of_two 1024"
  using is_power_of_two_pow [of 8] is_power_of_two_pow [of 10] by simp_all

lemma small_planned: "\<exists>l. plan_layout small_request = Ok l \<and> \<not> has_flex_bg (l_feature l) \<and> l_gdt_blocks l = 1
    \<and> l_reserved_gdt_blocks l = 0 \<and> l_inode_table_blocks l = 4 \<and> l_blocks_per_group l = 8192 \<and> l_total_blocks l = 1024"
  by (simp add: small_request_def plan_eval ext2_eval power_256)

lemma crowded_planned: "\<exists>l. plan_layout crowded_request = Ok l \<and> length (l_groups l) = 3 \<and> l_inode_table_blocks l = 8184
    \<and> gl_inode_table (l_groups l ! 0) = 261 \<and> gl_start_block (l_groups l ! 1) = 8193 \<and> gl_has_super (l_groups l ! 1)"
  by (simp add: crowded_request_def plan_eval ext2_eval power_256)

section \<open>The properties\<close>

text \<open>
  C9: The groups of a planned layout tile the filesystem: in order, they are exactly the blocks from the
  first data block to the end, and the filesystem is no larger than the device. A group's inodes fit
  its one-block bitmap and fill whole blocks of its table, and the inode count is 32 bits wide.
\<close>

theorem plan_layout_tiles:
  assumes "plan_layout r = Ok l"
  shows "length (l_groups l) = l_group_count l
    \<and> concat (map (\<lambda>g. [gl_start_block g..<gl_start_block g + gl_block_count g]) (l_groups l)) =
        [l_first_data_block l..<l_total_blocks l]
    \<and> l_total_blocks l * l_block_size l \<le> pr_size_bytes r
    \<and> 0 < l_inodes_per_group l \<and> l_inodes_per_group l \<le> 8 * l_block_size l
    \<and> l_inode_table_blocks l * inodes_per_block (l_feature l) = l_inodes_per_group l
    \<and> l_total_inodes l = l_inodes_per_group l * l_group_count l \<and> l_total_inodes l < 2 ^ 32"
  using plan_tiles [OF assms] plan_bounds [OF assms] by blast

theorem plan_layout_tiles_witness:
  "\<exists>l. plan_layout small_request = Ok l \<and> l_total_blocks l * l_block_size l \<le> 1048576 \<and> l_total_inodes l < 2 ^ 32"
proof -
  obtain l where l: "plan_layout small_request = Ok l" using small_planned by blast
  from plan_layout_tiles [OF this] show ?thesis using l by (auto simp: small_request_def)
qed

text \<open>
  C1: No block of a planned layout holds two pieces of fixed metadata. The copies of the superblock and
  descriptors, the bitmaps and the inode tables of every group are blocks of the filesystem, no two of
  them the same, whenever the groups are packed by flex block group, or a group has room for a copy,
  its two bitmaps and its table.
\<close>

theorem plan_metadata_apart:
  assumes "plan_layout r = Ok l"
    and "has_flex_bg (l_feature l)
      \<or> super_overhead (l_gdt_blocks l) (l_reserved_gdt_blocks l) + 2 + l_inode_table_blocks l \<le> l_blocks_per_group l"
  shows "distinct (concat (map range_blocks (metadata_regions l)))
    \<and> set (concat (map range_blocks (metadata_regions l))) \<subseteq> {l_first_data_block l..<l_total_blocks l}"
  by (rule metadata_apart [OF assms])

theorem plan_metadata_apart_witness:
  "\<exists>l. plan_layout small_request = Ok l \<and> distinct (concat (map range_blocks (metadata_regions l)))"
proof -
  obtain l where l: "plan_layout small_request = Ok l" "l_gdt_blocks l = 1" "l_reserved_gdt_blocks l = 0"
    "l_inode_table_blocks l = 4" "l_blocks_per_group l = 8192" using small_planned by blast
  then have "super_overhead (l_gdt_blocks l) (l_reserved_gdt_blocks l) + 2 + l_inode_table_blocks l \<le> l_blocks_per_group l"
    by (simp add: super_overhead_def)
  from plan_metadata_apart [OF l(1) disjI2 [OF this]] show ?thesis using l(1) by blast
qed

text \<open>
  C11: Without that room the planner still answers with a layout: for a block-mapped filesystem whose
  inode tables nearly fill a group, the table of group 0 runs over the copy of the superblock that
  opens group 1.
\<close>

theorem planned_table_overruns_group:
  "\<exists>l. plan_layout crowded_request = Ok l \<and> gl_has_super (l_groups l ! 1)
    \<and> gl_inode_table (l_groups l ! 0) \<le> gl_start_block (l_groups l ! 1)
    \<and> gl_start_block (l_groups l ! 1) < gl_inode_table (l_groups l ! 0) + l_inode_table_blocks l"
proof -
  obtain l where "plan_layout crowded_request = Ok l" "gl_has_super (l_groups l ! 1)"
    "gl_inode_table (l_groups l ! 0) = 261" "gl_start_block (l_groups l ! 1) = 8193" "l_inode_table_blocks l = 8184"
    using crowded_planned by blast
  then show ?thesis by (intro exI [of _ l]) simp
qed

end
