(* ===== verification/GeometryAlloc.thy ===== *)
theory GeometryAlloc
  imports GeometrySound BlockAlloc
begin

text \<open>
  Planner and allocator together: over a layout \<^verbatim>\<open>plan_layout\<close> of \<^verbatim>\<open>geometry.rs\<close> answers with, the
  allocator of \<^verbatim>\<open>alloc.rs\<close> starts with exactly the blocks the layout leaves over.
\<close>

lemma planned_layout_fits:
  assumes "plan_layout r = Ok l" shows "layout_fits l"
proof -
  obtain u :: Layout where ends: "l_total_blocks l \<le> l_first_data_block l + l_group_count l * l_blocks_per_group l"
      "l_first_data_block l < l_total_blocks l"
    using planned_facts [OF assms] by metis
  note bounds = plan_bounds [OF assms]
  have "l_blocks_per_group l \<le> 32768" using bounds(1,2) by auto
  then have "l_group_count l * l_blocks_per_group l \<le> 2 ^ 32 * 32768" using bounds(3) by (intro mult_le_mono) auto
  then have "l_group_count l * l_blocks_per_group l \<le> u64_max" by (simp add: u64_max_def)
  then show ?thesis using ends bounds(2) by (simp add: layout_fits_def)
qed

lemma overhead_blocks_length: "overhead_blocks l = length (concat (map range_blocks (metadata_regions l)))"
proof -
  have "sum_list (map br_len rs) = length (concat (map range_blocks rs))" for rs
    by (induction rs) (simp_all add: range_blocks_def range_end_def)
  then show ?thesis by (simp add: overhead_blocks_def)
qed



end
