(* ===== verification/FieldRuns.thy ===== *)
theory FieldRuns
  imports OnDisk
begin

text \<open>
  Runs of field writes. A record is serialized by writing its fields one after the other, each into
  a place of its own; what the buffer then holds is settled once here, for a list of places in
  ascending order, so that a record's round trip is a check of its places and one read per field.
  A place is an offset, a width and the bytes written, the empty list for a field left out.
\<close>

context scalar_field begin

lemma get_at: "take width (drop off b) = enc v \<Longrightarrow> get b off = Ok v"
proof -
  assume eq: "take width (drop off b) = enc v"
  then have "min (length b - off) width = width" using length_enc [of v] by (metis length_drop length_take)
  then have "off + width \<le> length b" using width_pos by linarith
  then show ?thesis using eq by (simp add: get_law dec_enc)
qed

lemma get_held: "enc v = [] \<or> take width (drop off b) = enc v \<Longrightarrow> get b off = Ok v"
  using get_at length_enc [of v] width_pos by auto

lemma get_Ok_take: "get b off = Ok v \<Longrightarrow> take width (drop off b) = enc v"
  by (auto simp: get_law enc_dec split: if_splits)

lemma get_append: "off + width \<le> length b \<Longrightarrow> get (b @ r) off = get b off"
  by (simp add: get_law)

end

lemma get_arr_at: "take n (drop off b) = v \<Longrightarrow> length v = n \<Longrightarrow> 0 < n \<Longrightarrow> get_arr n b off = Ok v"
  by (auto simp: get_arr_def slice_def)

lemma get_arr_held: "v = [] \<or> take n (drop off b) = v \<Longrightarrow> length v = n \<Longrightarrow> 0 < n \<Longrightarrow> get_arr n b off = Ok v"
  by (auto intro: get_arr_at)

lemma nth_to_le: "k < n \<Longrightarrow> to_le n v ! k = ucast (drop_bit (8 * k) v)"
  by (induction n v arbitrary: k rule: to_le.induct) (auto simp: nth_Cons drop_bit_drop_bit add.commute split: nat.split)

type_synonym place = "nat \<times> nat \<times> bytes"

fun put_fields :: "bytes \<Rightarrow> place list \<Rightarrow> ('e, bytes) outcome" where
  "put_fields b [] = Ok b"
| "put_fields b ((off, w, v) # ps) =
     andThen (if v = [] then Ok b else put_arr b off v) (\<lambda>b. put_fields b ps)"

fun splices :: "bytes \<Rightarrow> place list \<Rightarrow> bytes" where
  "splices b [] = b"
| "splices b ((off, w, v) # ps) = splices (splice b off v) ps"

fun ascending :: "nat \<Rightarrow> place list \<Rightarrow> nat \<Rightarrow> bool" where
  "ascending lo [] hi = True"
| "ascending lo ((off, w, v) # ps) hi =
     (lo \<le> off \<and> (v = [] \<or> length v = w \<and> off + w \<le> hi) \<and> ascending (off + w) ps hi)"

lemma splices_append: "splices b (ps @ qs) = splices (splices b ps) qs"
  by (induction b ps rule: splices.induct) auto

lemma put_fields_eq:
  "ascending lo ps (length b) \<Longrightarrow> put_fields b ps = Ok (splices b ps)"
  by (induction b ps arbitrary: lo rule: splices.induct) (auto simp: put_arr_def)

lemma length_splices: "ascending lo ps (length b) \<Longrightarrow> length (splices b ps) = length b"
  by (induction b ps arbitrary: lo rule: splices.induct) auto

lemma put_fields_Ok:
  "put_fields b ps = Ok b' \<Longrightarrow> ascending lo ps (length b) \<Longrightarrow> b' = splices b ps \<and> length b' = length b"
  using length_splices by (metis put_fields_eq outcome.inject(1))

lemma put_fields_no_Err: "ascending lo ps (length b) \<Longrightarrow> put_fields b ps \<noteq> Err e"
  by (simp add: put_fields_eq)

lemma splices_below:
  "ascending lo ps (length b) \<Longrightarrow> off + n \<le> lo \<Longrightarrow> take n (drop off (splices b ps)) = take n (drop off b)"
proof (induction b ps arbitrary: lo rule: splices.induct)
  case (2 b o' w v ps)
  then have "take n (drop off (splices (splice b o' v) ps)) = take n (drop off (splice b o' v))"
    by (cases "v = []") auto
  then show ?case using 2 by (cases "v = []") (auto simp: take_drop_splice_other)
qed simp

lemma andThen_assoc: "andThen (andThen m f) g = andThen m (\<lambda>x. andThen (f x) g)"
  by (cases m) simp_all

lemma put_fields_append: "put_fields b (ps @ qs) = andThen (put_fields b ps) (\<lambda>b. put_fields b qs)"
proof (induction ps arbitrary: b)
  case (Cons p ps)
  then show ?case by (cases p) (simp add: andThen_assoc)
qed simp

lemma ascending_mono: "ascending lo ps hi \<Longrightarrow> lo' \<le> lo \<Longrightarrow> hi \<le> hi' \<Longrightarrow> ascending lo' ps hi'"
proof (induction ps arbitrary: lo lo')
  case (Cons p ps)
  then show ?case by (cases p) fastforce
qed simp

lemma ascending_append:
  "ascending lo ps mid \<Longrightarrow> ascending mid qs hi \<Longrightarrow> lo \<le> mid \<Longrightarrow> mid \<le> hi \<Longrightarrow>
    list_all (\<lambda>(off, w, v). off + w \<le> mid) ps \<Longrightarrow> ascending lo (ps @ qs) hi"
proof (induction ps arbitrary: lo)
  case Nil
  then show ?case by (auto intro: ascending_mono)
next
  case (Cons p ps)
  then show ?case by (cases p) (auto intro: Cons.IH)
qed

lemma ascending_append_left: "ascending lo (ps @ qs) hi \<Longrightarrow> ascending lo ps hi"
  by (induction lo ps hi rule: ascending.induct) auto

text \<open>Every place holds what was written there.\<close>

definition place_held :: "bytes \<Rightarrow> place \<Rightarrow> bool" where
  "place_held b p = (case p of (off, w, v) \<Rightarrow> v = [] \<or> take w (drop off b) = v)"

lemma place_held_simps [simp]:
  "place_held b (off, w, v) \<longleftrightarrow> v = [] \<or> take w (drop off b) = v"
  by (simp add: place_held_def)

lemma splices_hold: "ascending lo ps (length b) \<Longrightarrow> list_all (place_held (splices b ps)) ps"
proof (induction b ps arbitrary: lo rule: splices.induct)
  case (2 b off w v ps)
  then have asc: "ascending (off + w) ps (length (splice b off v))" by (cases "v = []") auto
  have "v = [] \<or> take w (drop off (splices (splice b off v) ps)) = v"
    using splices_below [OF asc, of off w] 2 by (auto simp: take_drop_splice_same)
  then show ?case using "2.IH" [OF asc] by simp
qed simp

lemma held_frame:
  "list_all (place_held b) ps \<Longrightarrow> ascending lo ps hi \<Longrightarrow>
    (\<And>off w. off + w \<le> hi \<Longrightarrow> take w (drop off b') = take w (drop off b)) \<Longrightarrow> list_all (place_held b') ps"
proof (induction ps arbitrary: lo)
  case (Cons p ps)
  then show ?case by (cases p) auto
qed simp

text \<open>A byte that lies in no place keeps its value.\<close>

lemma splices_nth:
  "ascending lo ps (length b) \<Longrightarrow> k < length b \<Longrightarrow>
    list_all (\<lambda>(off, w, v). v = [] \<or> k < off \<or> off + w \<le> k) ps \<Longrightarrow> splices b ps ! k = b ! k"
proof (induction b ps arbitrary: lo rule: splices.induct)
  case (2 b off w v ps)
  then have asc: "ascending (off + w) ps (length (splice b off v))" "k < length (splice b off v)"
    by (cases "v = []"; simp)+
  then show ?case using 2 by (cases "v = []") (auto simp: nth_splice_out)
qed simp

lemma splices_after:
  "ascending lo ps (length b) \<Longrightarrow> list_all (\<lambda>(off, w, v). v = [] \<or> off + w \<le> n) ps \<Longrightarrow>
    drop n (splices b ps) = drop n b"
proof (induction b ps arbitrary: lo rule: splices.induct)
  case (2 b off w v ps)
  then have "ascending (off + w) ps (length (splice b off v))" by (cases "v = []") auto
  then show ?case using 2 by (cases "v = []") (auto simp: drop_splice_after)
qed simp

text \<open>The writes of the code are such a run.\<close>

lemma andThen_Ok_right [simp]: "andThen m Ok = m"
  by (cases m) simp_all

lemma to_le_ne [simp]: "to_le (Suc n) v \<noteq> []" "to_le (numeral k) v \<noteq> []"
  by (simp_all add: numeral_eq_Suc)

lemma put_u8_field: "put_u8 b off v = put_arr b off [v]"
  by (auto simp: put_u8_def put_arr_def splice_def upd_conv_take_nth_drop)

lemmas field_puts = put_u8_field put_u16_def put_u32_def put_u64_def

text \<open>A field filled in after the record was written: the record written with it.\<close>

lemma splice_commute:
  "off + length v \<le> off' \<Longrightarrow> off' + length v' \<le> length b \<Longrightarrow>
    splice (splice b off' v') off v = splice (splice b off v) off' v'"
  by (rule nth_equalityI) (auto simp: nth_splice)

lemma splice_splice_same:
  "length v = length v' \<Longrightarrow> off + length v \<le> length b \<Longrightarrow> splice (splice b off v) off v' = splice b off v'"
  by (simp add: splice_def)

lemma splices_splice:
  "ascending lo ps (length b) \<Longrightarrow> off + length v \<le> lo \<Longrightarrow> off + length v \<le> length b \<Longrightarrow>
    splice (splices b ps) off v = splices (splice b off v) ps"
proof (induction b ps arbitrary: lo rule: splices.induct)
  case (2 b o' w v' ps)
  then show ?case using splice_commute [of off v o' v' b] by (cases "v' = []") auto
qed simp

lemma ascending_middle:
  "ascending lo (ps @ (off, w, v) # qs) hi \<Longrightarrow> v \<noteq> [] \<Longrightarrow> length v = w \<and> off + w \<le> hi \<and> ascending (off + w) qs hi"
  by (induction lo ps hi rule: ascending.induct) auto

lemma splices_restamp:
  assumes "ascending lo (ps @ (off, w, v) # qs) (length b)" "v \<noteq> []" "length v' = length v"
  shows "splice (splices b (ps @ (off, w, v) # qs)) off v' = splices b (ps @ (off, w, v') # qs)"
proof -
  have len: "length (splices b ps) = length b" by (rule length_splices [OF ascending_append_left [OF assms(1)]])
  then show ?thesis
    using ascending_middle [OF assms(1,2)] assms(3)
    by (simp add: splices_append splices_splice [of "off + w"] splice_splice_same)
qed

section \<open>Halves\<close>

text \<open>A 32-bit value from the two 16-bit halves a record splits it into.\<close>

definition join32 :: "u16 \<Rightarrow> u16 \<Rightarrow> u32" where
  "join32 lo hi = ucast lo OR push_bit 16 (ucast hi)"

lemma join32_halves: "join32 (ucast v) (ucast (drop_bit 16 v)) = v" "join32 (ucast v) 0 = take_bit 16 v"
  by (rule bit_word_eqI; auto simp: join32_def bit_simps)+

end
