(* ===== verification/Csum.thy ===== *)
theory Csum
  imports Crc32c FieldRuns
begin

text \<open>
  The metadata checksums of \<^verbatim>\<open>crates/ferrosys/src/csum.rs\<close>: which checksums a filesystem carries, the
  two checksummers behind the sealed trait, and the recipe of every metadata object, the one
  function a writer stamping the object and a reader verifying it both call.
\<close>

section \<open>The seam\<close>

datatype CsumScheme = Scheme_None | Scheme_Crc32c

fun writes_object_checksums :: "CsumScheme \<Rightarrow> bool" where
  "writes_object_checksums Scheme_None = False"
| "writes_object_checksums Scheme_Crc32c = True"

fun uninit_bg_semantics :: "CsumScheme \<Rightarrow> bool" where
  "uninit_bg_semantics Scheme_None = False"
| "uninit_bg_semantics Scheme_Crc32c = True"

text \<open>The trait has two implementations and is sealed: \<^verbatim>\<open>Crc32c\<close> carries its base seed.\<close>

datatype Checksummer = NullCsum | Crc32cSum u32

fun scheme :: "Checksummer \<Rightarrow> CsumScheme" where
  "scheme NullCsum = Scheme_None"
| "scheme (Crc32cSum seed) = Scheme_Crc32c"

fun base_seed :: "Checksummer \<Rightarrow> u32" where
  "base_seed NullCsum = 0"
| "base_seed (Crc32cSum seed) = seed"

fun csum_crc32c :: "Checksummer \<Rightarrow> u32 \<Rightarrow> bytes \<Rightarrow> u32" where
  "csum_crc32c NullCsum seed data = 0"
| "csum_crc32c (Crc32cSum _) seed data = crc32c seed data"

definition new_crc32c :: "bytes \<Rightarrow> Checksummer" where
  "new_crc32c uuid = Crc32cSum (crc32c (NOT 0) uuid)"

definition with_seed :: "u32 \<Rightarrow> Checksummer" where
  "with_seed seed = Crc32cSum seed"

section \<open>The recipes\<close>

definition inode_seed :: "Checksummer \<Rightarrow> u32 \<Rightarrow> u32 \<Rightarrow> u32" where
  "inode_seed csum ino generation =
     (let c = csum_crc32c csum (base_seed csum) (to_le 4 ino)
      in csum_crc32c csum c (to_le 4 generation))"

definition group_descriptor_csum :: "Checksummer \<Rightarrow> u32 \<Rightarrow> bytes \<Rightarrow> u16" where
  "group_descriptor_csum csum g bs =
     (let c = csum_crc32c csum (base_seed csum) (to_le 4 g)
      in ucast (csum_crc32c csum c bs AND 0xffff))"

definition inode_csum :: "Checksummer \<Rightarrow> u32 \<Rightarrow> u32 \<Rightarrow> bytes \<Rightarrow> bool \<Rightarrow> u32" where
  "inode_csum csum number generation bs has_hi =
     (let c = csum_crc32c csum (inode_seed csum number generation) bs
      in if has_hi then c else c AND 0xffff)"

definition bitmap_csum :: "Checksummer \<Rightarrow> bytes \<Rightarrow> u32" where
  "bitmap_csum csum covered = csum_crc32c csum (base_seed csum) covered"

definition block_bitmap_len :: "nat \<Rightarrow> nat" where
  "block_bitmap_len blocks_per_group = blocks_per_group div 8"

definition inode_bitmap_len :: "nat \<Rightarrow> nat" where
  "inode_bitmap_len inodes_per_group = div_ceil inodes_per_group 8"

definition orphan_block_csum :: "Checksummer \<Rightarrow> u32 \<Rightarrow> u32 \<Rightarrow> u64 \<Rightarrow> bytes \<Rightarrow> u32" where
  "orphan_block_csum csum ino generation block entries =
     (let c = csum_crc32c csum (inode_seed csum ino generation) (to_le 8 block)
      in csum_crc32c csum c entries)"

definition xattr_block_csum :: "Checksummer \<Rightarrow> u64 \<Rightarrow> bytes \<Rightarrow> u32" where
  "xattr_block_csum csum block bs =
     (let c = csum_crc32c csum (base_seed csum) (to_le 8 block)
      in csum_crc32c csum c bs)"

section \<open>Identity\<close>

lemma crc32c_inj_seed: "crc32c s data = crc32c t data \<longleftrightarrow> s = t"
  using bitwise_inj_seed by (auto simp: crc32c_bitwise)

lemma to_le4_inj: "to_le 4 v = to_le 4 w \<Longrightarrow> v = (w :: u32)"
  using from_le_to_le32 by metis

lemma crc32c_word_inj: "crc32c s (to_le 4 v) = crc32c s (to_le 4 w) \<longleftrightarrow> v = (w :: u32)"
  using crc32c_four_inj [of "to_le 4 v" "to_le 4 w" s] to_le4_inj by auto

text \<open>Four bytes overwritten anywhere move the checksum, unless they were those four already.\<close>

lemma crc32c_splice:
  assumes "length v = 4" "off + 4 \<le> length b"
  shows "crc32c s (splice b off v) = crc32c s b \<longleftrightarrow> splice b off v = b"
proof -
  have b: "b = take off b @ take 4 (drop off b) @ drop (off + 4) b"
    by (metis append_take_drop_id drop_drop add.commute)
  have "crc32c s (splice b off v) = crc32c s b \<Longrightarrow> v = take 4 (drop off b)"
    using crc32c_four_inj [of v "take 4 (drop off b)" "crc32c s (take off b)"] assms
    by (subst (asm) (2) b) (auto simp: splice_def crc32c_append crc32c_inj_seed)
  then show ?thesis using assms by (metis splice_same_value)
qed

lemma inode_seed_inj:
  "inode_seed (Crc32cSum seed) ino gen = inode_seed (Crc32cSum seed) ino' gen \<longleftrightarrow> ino = ino'"
  "inode_seed (Crc32cSum seed) ino gen = inode_seed (Crc32cSum seed) ino gen' \<longleftrightarrow> gen = gen'"
  "inode_seed (Crc32cSum seed) ino gen = inode_seed (Crc32cSum seed') ino gen \<longleftrightarrow> seed = seed'"
  by (simp_all add: inode_seed_def crc32c_inj_seed crc32c_word_inj del: to_le.simps)

text \<open>A block number below \<open>2 ^ 32\<close> differs from another such one in its low four bytes.\<close>

lemma to_le8_small:
  assumes "unat b < 2 ^ 32" shows "to_le 8 (b :: u64) = to_le 4 (ucast b :: u32) @ replicate 4 0"
proof (rule nth_equalityI)
  fix k assume "k < length (to_le 8 b)"
  then have k: "k < 8" by simp
  have "unat (take_bit 32 b) = unat b" using assms by (simp add: unsigned_take_bit_eq take_bit_nat_eq_self)
  then have "take_bit 32 b = b" by (simp only: word_unat_eq_iff)
  then have high: "bit b j \<Longrightarrow> j < 32" for j by (metis bit_take_bit_iff)
  show "to_le 8 b ! k = (to_le 4 (ucast b :: u32) @ replicate 4 0) ! k"
  proof (rule bit_word_eqI)
    fix j assume "j < LENGTH(8)"
    then show "bit (to_le 8 b ! k) j = bit ((to_le 4 (ucast b :: u32) @ replicate 4 0) ! k) j"
      using k high [of "j + 8 * k"] high [of "8 * k + j"] by (auto simp: nth_append nth_to_le bit_simps)
  qed
qed simp

end
