(* ===== verification/Inode.thy ===== *)
theory Inode
  imports FieldRuns Time
begin

text \<open>
  The inode record of \<^verbatim>\<open>crates/ferrosys/src/ondisk/inode.rs\<close>: the instants it stores in split fields,
  the device numbers it packs into its block words, which fields an inode of a given size and extra
  area carries, and the two directions of the codec. An \<^verbatim>\<open>u32\<close> of nanoseconds is a natural number,
  as in the calendar.
\<close>

section \<open>Sizes and flags\<close>

definition ROOT_INODE_MODE :: u16 where "ROOT_INODE_MODE = 0x41ed"
definition GOOD_OLD_SIZE :: nat where "GOOD_OLD_SIZE = 128"
definition GOOD_OLD_FIRST_INODE :: u32 where "GOOD_OLD_FIRST_INODE = 11"

definition extra_isize_for :: "nat \<Rightarrow> u16" where
  "extra_isize_for inode_size = (if GOOD_OLD_SIZE < inode_size then 32 else 0)"

definition EXTENTS_FL :: u32 where "EXTENTS_FL = 0x00080000"
definition HUGE_FILE_FL :: u32 where "HUGE_FILE_FL = 0x00040000"
definition INDEX_FL :: u32 where "INDEX_FL = 0x00001000"

section \<open>Instants\<close>

definition NANOS_PER_SEC :: nat where "NANOS_PER_SEC = 1000000000"

definition TIME_SECS_MIN :: int where "TIME_SECS_MIN = - (2 ^ 31)"
definition TIME_SECS_MAX :: int where "TIME_SECS_MAX = (2 ^ 31 - 1) + 3 * 2 ^ 32"

definition has_proper_fraction :: "Timestamp \<Rightarrow> bool" where
  "has_proper_fraction t \<longleftrightarrow> ts_nanos t < NANOS_PER_SEC"

definition time_is_representable :: "Timestamp \<Rightarrow> nat \<Rightarrow> bool" where
  "time_is_representable t inode_size =
     (if GOOD_OLD_SIZE < inode_size
      then TIME_SECS_MIN \<le> ts_secs t \<and> ts_secs t \<le> TIME_SECS_MAX \<and> has_proper_fraction t
      else TIME_SECS_MIN \<le> ts_secs t \<and> ts_secs t \<le> 2 ^ 31 - 1 \<and> ts_nanos t = 0)"

text \<open>The difference is an \<^verbatim>\<open>i64\<close>, so it can leave the range on an instant at the far end of it.\<close>

definition encode_time :: "Timestamp \<Rightarrow> (ParseError, u32 \<times> u32) outcome" where
  "encode_time t =
     (let field = word_of_int (ts_secs t);
          low = sint field
      in if i64_range (ts_secs t - low)
         then let epoch = word_of_int ((ts_secs t - low) div 2 ^ 32);
                  extra = (epoch AND 3) OR push_bit 2 (of_nat (ts_nanos t))
              in Ok (field, extra)
         else Panic)"

definition decode_time :: "u32 \<Rightarrow> u32 \<Rightarrow> Timestamp" where
  "decode_time field extra =
     \<lparr>ts_secs = sint field + int (unat (extra AND 3)) * 2 ^ 32, ts_nanos = unat (drop_bit 2 extra)\<rparr>"

section \<open>Devices\<close>

definition encode_device :: "u32 \<Rightarrow> u32 \<Rightarrow> u32 \<times> u32" where
  "encode_device major minor =
     (if major < 256 \<and> minor < 256 then (push_bit 8 major OR minor, 0)
      else (0, (minor AND 0xff) OR push_bit 8 major OR push_bit 12 (minor AND NOT 0xff)))"

definition decode_device :: "u32 \<Rightarrow> u32 \<Rightarrow> u32 \<times> u32" where
  "decode_device block0 block1 =
     (if block0 \<noteq> 0 then (drop_bit 8 block0 AND 0xff, block0 AND 0xff)
      else (drop_bit 8 (block1 AND 0x000fff00), (block1 AND 0xff) OR (drop_bit 12 block1 AND 0x000fff00)))"

section \<open>The record\<close>

definition BLOCK_BYTES :: nat where "BLOCK_BYTES = 60"
definition BLOCK_OFFSET :: nat where "BLOCK_OFFSET = 0x28"
definition EXTRA_ISIZE_OFFSET :: nat where "EXTRA_ISIZE_OFFSET = 0x80"
definition CHECKSUM_LO_OFFSET :: nat where "CHECKSUM_LO_OFFSET = 0x7c"
definition CHECKSUM_HI_OFFSET :: nat where "CHECKSUM_HI_OFFSET = 0x82"
definition CRTIME_OFFSET :: nat where "CRTIME_OFFSET = 0x90"
definition XATTR_MAGIC :: u32 where "XATTR_MAGIC = 0xEA020000"

lemmas inode_offsets = BLOCK_BYTES_def BLOCK_OFFSET_def EXTRA_ISIZE_OFFSET_def CHECKSUM_LO_OFFSET_def
  CHECKSUM_HI_OFFSET_def CRTIME_OFFSET_def GOOD_OLD_SIZE_def

record Inode =
  in_mode :: u16
  in_uid :: u32
  in_gid :: u32
  in_size :: u64
  in_links_count :: u16
  in_blocks :: u64
  in_flags :: u32
  in_atime :: Timestamp
  in_ctime :: Timestamp
  in_mtime :: Timestamp
  in_crtime :: Timestamp
  in_dtime :: u32
  in_generation :: u32
  in_file_acl :: u64
  in_extra_isize :: u16
  in_block :: bytes
  in_checksum :: u32
  in_inline_xattr :: bytes

definition inode_fits :: "nat \<Rightarrow> u16 \<Rightarrow> nat \<Rightarrow> nat \<Rightarrow> bool" where
  "inode_fits inode_size extra_isize off width \<longleftrightarrow>
     off + width \<le> inode_size \<and> off + width \<le> GOOD_OLD_SIZE + unat extra_isize"

definition has_checksum_hi :: "nat \<Rightarrow> u16 \<Rightarrow> bool" where
  "has_checksum_hi inode_size extra_isize = inode_fits inode_size extra_isize CHECKSUM_HI_OFFSET 2"

definition has_crtime :: "nat \<Rightarrow> u16 \<Rightarrow> bool" where
  "has_crtime inode_size extra_isize = inode_fits inode_size extra_isize CRTIME_OFFSET 4"

definition empty_inode :: "nat \<Rightarrow> Inode" where
  "empty_inode inode_size =
     (let epoch = \<lparr>ts_secs = 0, ts_nanos = 0\<rparr> in
      \<lparr>in_mode = 0, in_uid = 0, in_gid = 0, in_size = 0, in_links_count = 0, in_blocks = 0, in_flags = 0,
       in_atime = epoch, in_ctime = epoch, in_mtime = epoch, in_crtime = epoch, in_dtime = 0, in_generation = 0,
       in_file_acl = 0, in_extra_isize = extra_isize_for inode_size, in_block = replicate BLOCK_BYTES 0,
       in_checksum = 0, in_inline_xattr = []\<rparr>)"

definition inline_xattr_capacity :: "Inode \<Rightarrow> nat \<Rightarrow> nat" where
  "inline_xattr_capacity i inode_size = inode_size - (GOOD_OLD_SIZE + unat (in_extra_isize i))"

definition inline_xattr_capacity_for :: "nat \<Rightarrow> nat" where
  "inline_xattr_capacity_for inode_size = inode_size - (GOOD_OLD_SIZE + unat (extra_isize_for inode_size))"

definition check_inode_size :: "nat \<Rightarrow> nat \<Rightarrow> (ParseError, nat) outcome" where
  "check_inode_size inode_size available =
     (if inode_size < GOOD_OLD_SIZE then Err (InvalidField ''Inode'' ''s_inode_size'' inode_size)
      else if available < inode_size then Err (TooShort ''Inode'' inode_size available)
      else Ok inode_size)"

section \<open>Writing\<close>

definition put_classic :: "Inode \<Rightarrow> u32 \<Rightarrow> u32 \<Rightarrow> u32 \<Rightarrow> bytes \<Rightarrow> (ParseError, bytes) outcome" where
  "put_classic i atime ctime mtime b =
     andThen (put_u16 b 0x00 (in_mode i)) (\<lambda>b.
     andThen (put_u16 b 0x02 (ucast (in_uid i))) (\<lambda>b.
     andThen (put_u32 b 0x04 (ucast (in_size i))) (\<lambda>b.
     andThen (put_u32 b 0x08 atime) (\<lambda>b.
     andThen (put_u32 b 0x0c ctime) (\<lambda>b.
     andThen (put_u32 b 0x10 mtime) (\<lambda>b.
     andThen (put_u32 b 0x14 (in_dtime i)) (\<lambda>b.
     andThen (put_u16 b 0x18 (ucast (in_gid i))) (\<lambda>b.
     andThen (put_u16 b 0x1a (in_links_count i)) (\<lambda>b.
     andThen (put_u32 b 0x1c (ucast (in_blocks i))) (\<lambda>b.
     andThen (put_u32 b 0x20 (in_flags i)) (\<lambda>b.
     andThen (put_arr b BLOCK_OFFSET (in_block i)) (\<lambda>b.
     andThen (put_u32 b 0x64 (in_generation i)) (\<lambda>b.
     andThen (put_u32 b 0x68 (ucast (in_file_acl i))) (\<lambda>b.
     andThen (put_u32 b 0x6c (ucast (drop_bit 32 (in_size i)))) (\<lambda>b.
     andThen (put_u16 b 0x74 (ucast (drop_bit 32 (in_blocks i)))) (\<lambda>b.
     andThen (put_u16 b 0x76 (ucast (drop_bit 32 (in_file_acl i)))) (\<lambda>b.
     andThen (put_u16 b 0x78 (ucast (drop_bit 16 (in_uid i)))) (\<lambda>b.
     andThen (put_u16 b 0x7a (ucast (drop_bit 16 (in_gid i)))) (\<lambda>b.
     put_u16 b CHECKSUM_LO_OFFSET (ucast (in_checksum i)))))))))))))))))))))"

definition put_u16_if :: "bool \<Rightarrow> bytes \<Rightarrow> nat \<Rightarrow> u16 \<Rightarrow> (ParseError, bytes) outcome" where
  "put_u16_if c b off v = (if c then put_u16 b off v else Ok b)"

definition put_u32_if :: "bool \<Rightarrow> bytes \<Rightarrow> nat \<Rightarrow> u32 \<Rightarrow> (ParseError, bytes) outcome" where
  "put_u32_if c b off v = (if c then put_u32 b off v else Ok b)"

definition put_extended ::
  "Inode \<Rightarrow> nat \<Rightarrow> u32 \<Rightarrow> u32 \<Rightarrow> u32 \<Rightarrow> u32 \<Rightarrow> u32 \<Rightarrow> bytes \<Rightarrow> (ParseError, bytes) outcome" where
  "put_extended i sz atime_x ctime_x mtime_x crtime crtime_x b =
     (let fits = inode_fits sz (in_extra_isize i) in
      andThen (put_u16_if (EXTRA_ISIZE_OFFSET + 2 \<le> sz) b EXTRA_ISIZE_OFFSET (in_extra_isize i)) (\<lambda>b.
      andThen (put_u16_if (fits CHECKSUM_HI_OFFSET 2) b CHECKSUM_HI_OFFSET (ucast (drop_bit 16 (in_checksum i)))) (\<lambda>b.
      andThen (put_u32_if (fits 0x84 4) b 0x84 ctime_x) (\<lambda>b.
      andThen (put_u32_if (fits 0x88 4) b 0x88 mtime_x) (\<lambda>b.
      andThen (put_u32_if (fits 0x8c 4) b 0x8c atime_x) (\<lambda>b.
      andThen (put_u32_if (fits CRTIME_OFFSET 4) b CRTIME_OFFSET crtime) (\<lambda>b.
      put_u32_if (fits 0x94 4) b 0x94 crtime_x)))))))"

text \<open>The assertion that the inline region fits is a debug one; the clamp below it is the release path.\<close>

definition put_inline :: "Inode \<Rightarrow> nat \<Rightarrow> bytes \<Rightarrow> (ParseError, bytes) outcome" where
  "put_inline i sz b =
     (let xoff = GOOD_OLD_SIZE + unat (in_extra_isize i);
          region = in_inline_xattr i
      in if region \<noteq> [] \<and> xoff < sz
         then if xoff + length region \<le> sz
              then put_arr b xoff (take (min (length region) (sz - xoff)) region)
              else Panic
         else Ok b)"

definition inode_write_to :: "Inode \<Rightarrow> bytes \<Rightarrow> nat \<Rightarrow> (ParseError, bytes) outcome" where
  "inode_write_to i buf inode_size =
     andThen (check_inode_size inode_size (length buf)) (\<lambda>sz.
     andThen (encode_time (in_atime i)) (\<lambda>(atime, atime_x).
     andThen (encode_time (in_ctime i)) (\<lambda>(ctime, ctime_x).
     andThen (encode_time (in_mtime i)) (\<lambda>(mtime, mtime_x).
     andThen (encode_time (in_crtime i)) (\<lambda>(crtime, crtime_x).
     andThen (put_classic i atime ctime mtime (replicate sz 0)) (\<lambda>b.
     andThen (put_extended i sz atime_x ctime_x mtime_x crtime crtime_x b) (\<lambda>b.
     andThen (put_inline i sz b) (\<lambda>b.
     Ok (b @ drop sz buf)))))))))"

definition inode_to_bytes :: "Inode \<Rightarrow> nat \<Rightarrow> (ParseError, bytes) outcome" where
  "inode_to_bytes i inode_size = inode_write_to i (replicate inode_size 0) inode_size"

section \<open>Reading\<close>

definition get_u16_if :: "bool \<Rightarrow> bytes \<Rightarrow> nat \<Rightarrow> (ParseError, u16) outcome" where
  "get_u16_if c buf off = (if c then get_u16 buf off else Ok 0)"

definition get_u32_if :: "bool \<Rightarrow> bytes \<Rightarrow> nat \<Rightarrow> (ParseError, u32) outcome" where
  "get_u32_if c buf off = (if c then get_u32 buf off else Ok 0)"

definition inline_region :: "bytes \<Rightarrow> nat \<Rightarrow> nat \<Rightarrow> (ParseError, bytes) outcome" where
  "inline_region buf xoff sz =
     (if xoff \<le> sz \<and> sz \<le> length buf \<and> 4 \<le> sz - xoff
      then let region = take (sz - xoff) (drop xoff buf) in
           andThen (get_u32 region 0) (\<lambda>magic. Ok (if magic = XATTR_MAGIC then region else []))
      else Ok [])"

definition inode_read_from :: "bytes \<Rightarrow> nat \<Rightarrow> (ParseError, Inode) outcome" where
  "inode_read_from buf inode_size =
     andThen (check_inode_size inode_size (length buf)) (\<lambda>sz.
     andThen (get_arr BLOCK_BYTES buf BLOCK_OFFSET) (\<lambda>block.
     andThen (get_u16_if (EXTRA_ISIZE_OFFSET + 2 \<le> sz) buf EXTRA_ISIZE_OFFSET) (\<lambda>extra_isize.
     let fits = inode_fits inode_size extra_isize in
     andThen (inline_region buf (GOOD_OLD_SIZE + unat extra_isize) sz) (\<lambda>inline_xattr.
     andThen (get_u16 buf CHECKSUM_LO_OFFSET) (\<lambda>lo.
     andThen (get_u16_if (has_checksum_hi inode_size extra_isize) buf CHECKSUM_HI_OFFSET) (\<lambda>hi.
     andThen (get_u16 buf 0x00) (\<lambda>mode.
     andThen (get_u32_if (mode AND 0xF000 = 0x8000) buf 0x6c) (\<lambda>size_hi.
     andThen (get_u16 buf 0x02) (\<lambda>uid_lo. andThen (get_u16 buf 0x78) (\<lambda>uid_hi.
     andThen (get_u16 buf 0x18) (\<lambda>gid_lo. andThen (get_u16 buf 0x7a) (\<lambda>gid_hi.
     andThen (get_u32 buf 0x04) (\<lambda>size_lo.
     andThen (get_u16 buf 0x1a) (\<lambda>links_count.
     andThen (get_u32 buf 0x1c) (\<lambda>blocks_lo. andThen (get_u16 buf 0x74) (\<lambda>blocks_hi.
     andThen (get_u32 buf 0x20) (\<lambda>flags.
     andThen (get_u32 buf 0x08) (\<lambda>atime. andThen (get_u32_if (fits 0x8c 4) buf 0x8c) (\<lambda>atime_x.
     andThen (get_u32 buf 0x0c) (\<lambda>ctime. andThen (get_u32_if (fits 0x84 4) buf 0x84) (\<lambda>ctime_x.
     andThen (get_u32 buf 0x10) (\<lambda>mtime. andThen (get_u32_if (fits 0x88 4) buf 0x88) (\<lambda>mtime_x.
     andThen (get_u32_if (fits CRTIME_OFFSET 4) buf CRTIME_OFFSET) (\<lambda>crtime.
     andThen (get_u32_if (fits 0x94 4) buf 0x94) (\<lambda>crtime_x.
     andThen (get_u32 buf 0x14) (\<lambda>dtime.
     andThen (get_u32 buf 0x64) (\<lambda>generation.
     andThen (get_u32 buf 0x68) (\<lambda>acl_lo. andThen (get_u16 buf 0x76) (\<lambda>acl_hi.
     Ok \<lparr>in_mode = mode, in_uid = join32 uid_lo uid_hi, in_gid = join32 gid_lo gid_hi,
         in_size = join64 size_lo size_hi, in_links_count = links_count,
         in_blocks = join64 blocks_lo (ucast blocks_hi), in_flags = flags,
         in_atime = decode_time atime atime_x, in_ctime = decode_time ctime ctime_x,
         in_mtime = decode_time mtime mtime_x, in_crtime = decode_time crtime crtime_x,
         in_dtime = dtime, in_generation = generation,
         in_file_acl = join64 acl_lo (ucast acl_hi), in_extra_isize = extra_isize,
         in_block = block, in_checksum = join32 lo hi, in_inline_xattr = inline_xattr\<rparr>)))))))))))))))))))))))))))))"

section \<open>Instants come back\<close>

lemma mask2: "(3 :: u32) = mask 2"
  by (simp add: mask_eq_exp_minus_1)

lemma extra_word:
  fixes e w :: u32
  shows "(e AND 3 OR push_bit 2 w) AND 3 = e AND 3" "drop_bit 2 (e AND 3 OR push_bit 2 w) = take_bit 30 w"
  unfolding mask2 by (rule bit_word_eqI; auto simp: bit_simps)+

lemma sint_word_of_int32: "sint (word_of_int s :: u32) = (s + 2 ^ 31) mod 2 ^ 32 - 2 ^ 31"
  by (simp add: signed_take_bit_eq_take_bit_shift take_bit_eq_mod sint_uint uint_word_of_int_eq mod_simps)

text \<open>The field is the nearest residue, the epoch the number of whole steps left over.\<close>

lemma field_residue:
  "s - sint (word_of_int s :: u32) = 2 ^ 32 * ((s + 2 ^ 31) div 2 ^ 32)"
proof -
  have "2 ^ 32 * ((s + 2 ^ 31) div 2 ^ 32) + (s + 2 ^ 31) mod 2 ^ 32 = s + 2 ^ 31" by (rule mult_div_mod_eq)
  then show ?thesis unfolding sint_word_of_int32 by linarith
qed

lemma epoch_bits: "int (unat (word_of_int d AND 3 :: u32)) = d mod 4"
proof -
  have "uint (word_of_int d AND 3 :: u32) = take_bit 2 (take_bit 32 d)"
    unfolding mask2 by (simp only: take_bit_eq_mask [symmetric] unsigned_take_bit_eq uint_word_of_int_eq) simp
  then show ?thesis by (simp add: take_bit_eq_mod mod_mod_cancel)
qed

lemma encode_time_eq:
  "encode_time t =
     (if i64_range (2 ^ 32 * ((ts_secs t + 2 ^ 31) div 2 ^ 32))
      then Ok (word_of_int (ts_secs t),
        (word_of_int ((ts_secs t + 2 ^ 31) div 2 ^ 32) AND 3) OR push_bit 2 (of_nat (ts_nanos t)))
      else Panic)"
  unfolding encode_time_def Let_def field_residue by simp

lemma decode_encoded:
  "encode_time t = Ok (field, extra) \<Longrightarrow>
    decode_time field extra = \<lparr>ts_secs = (ts_secs t + 2 ^ 31) mod 2 ^ 34 - 2 ^ 31, ts_nanos = ts_nanos t mod 2 ^ 30\<rparr>
    \<and> decode_time field 0 = \<lparr>ts_secs = (ts_secs t + 2 ^ 31) mod 2 ^ 32 - 2 ^ 31, ts_nanos = 0\<rparr>"
proof -
  assume ok: "encode_time t = Ok (field, extra)"
  then have field: "field = word_of_int (ts_secs t)"
    and extra: "extra = (word_of_int ((ts_secs t + 2 ^ 31) div 2 ^ 32) AND 3) OR push_bit 2 (of_nat (ts_nanos t))"
    by (auto simp: encode_time_eq split: if_splits)
  have "(x :: int) mod 2 ^ 34 = 2 ^ 32 * (x div 2 ^ 32 mod 4) + x mod 2 ^ 32" for x
    using mod_mult2_eq' [of x "2 ^ 32" 4] zmod_zmult2_eq [of 4 x "2 ^ 32"] by simp
  from this [of "ts_secs t + 2 ^ 31"]
  have secs: "sint field + int (unat (extra AND 3)) * 2 ^ 32 = (ts_secs t + 2 ^ 31) mod 2 ^ 34 - 2 ^ 31"
    unfolding field extra extra_word epoch_bits sint_word_of_int32 by (simp only: mult.commute)
  have "unat (drop_bit 2 extra) = ts_nanos t mod 2 ^ 30"
    unfolding extra extra_word
    by (simp only: unsigned_take_bit_eq unsigned_of_nat) (simp add: take_bit_eq_mod mod_mod_cancel)
  then show ?thesis
    using secs unfolding decode_time_def by (simp add: field sint_word_of_int32)
qed

lemma mod_shift_fixed: "(s + 2 ^ 31) mod m - 2 ^ 31 = s \<longleftrightarrow> - (2 ^ 31) \<le> s \<and> s < m - 2 ^ 31"
  if "0 < m" for s m :: int
proof -
  have "(s + 2 ^ 31) mod m = s + 2 ^ 31 \<longleftrightarrow> 0 \<le> s + 2 ^ 31 \<and> s + 2 ^ 31 < m"
    using that mod_pos_pos_trivial [of "s + 2 ^ 31" m] pos_mod_sign [of m "s + 2 ^ 31"] pos_mod_bound [of m "s + 2 ^ 31"]
    by linarith
  then show ?thesis by linarith
qed

lemma encode_time_in_range:
  assumes "- (2 ^ 31) \<le> ts_secs t" "ts_secs t < 2 ^ 34 - 2 ^ 31"
  shows "\<exists>field extra. encode_time t = Ok (field, extra)"
proof -
  have "0 \<le> (ts_secs t + 2 ^ 31) div 2 ^ 32" using assms by (simp add: pos_imp_zdiv_nonneg_iff)
  moreover have "(ts_secs t + 2 ^ 31) div 2 ^ 32 < 4" using assms by (simp add: div_less_iff_less_mult)
  ultimately have "i64_range (2 ^ 32 * ((ts_secs t + 2 ^ 31) div 2 ^ 32))" by (simp add: i64_range_def)
  then show ?thesis by (simp add: encode_time_eq)
qed

text \<open>The fraction field is thirty bits wide, which is wider than a second divides.\<close>

lemma stored_iff:
  "(\<exists>field extra. encode_time t = Ok (field, extra) \<and> decode_time field (if wide then extra else 0) = t) \<longleftrightarrow>
    TIME_SECS_MIN \<le> ts_secs t
    \<and> (if wide then ts_secs t \<le> TIME_SECS_MAX \<and> ts_nanos t < 2 ^ 30 else ts_secs t \<le> 2 ^ 31 - 1 \<and> ts_nanos t = 0)"
    (is "?stored \<longleftrightarrow> ?fits")
proof
  assume ?stored
  then obtain field extra where enc: "encode_time t = Ok (field, extra)"
    and dec: "decode_time field (if wide then extra else 0) = t" by blast
  show ?fits
  proof (cases wide)
    case True
    then have "t = \<lparr>ts_secs = (ts_secs t + 2 ^ 31) mod 2 ^ 34 - 2 ^ 31, ts_nanos = ts_nanos t mod 2 ^ 30\<rparr>"
      using decode_encoded [OF enc] dec by simp
    then have "(ts_secs t + 2 ^ 31) mod 2 ^ 34 - 2 ^ 31 = ts_secs t" "ts_nanos t mod 2 ^ 30 = ts_nanos t"
      by (metis Timestamp.select_convs(1)) (metis \<open>t = _\<close> Timestamp.select_convs(2))
    then show ?thesis using True mod_shift_fixed [of "2 ^ 34" "ts_secs t"] mod_less_divisor [of "2 ^ 30" "ts_nanos t"]
      by (simp add: TIME_SECS_MIN_def TIME_SECS_MAX_def)
  next
    case False
    then have t: "t = \<lparr>ts_secs = (ts_secs t + 2 ^ 31) mod 2 ^ 32 - 2 ^ 31, ts_nanos = 0\<rparr>"
      using decode_encoded [OF enc] dec by simp
    then have "(ts_secs t + 2 ^ 31) mod 2 ^ 32 - 2 ^ 31 = ts_secs t" "ts_nanos t = 0"
      by (metis Timestamp.select_convs(1)) (metis t Timestamp.select_convs(2))
    then show ?thesis using False mod_shift_fixed [of "2 ^ 32" "ts_secs t"]
      by (simp add: TIME_SECS_MIN_def)
  qed
next
  assume fits: ?fits
  then have "- (2 ^ 31) \<le> ts_secs t" "ts_secs t < 2 ^ 34 - 2 ^ 31"
    by (auto simp: TIME_SECS_MIN_def TIME_SECS_MAX_def split: if_splits)
  then obtain field extra where enc: "encode_time t = Ok (field, extra)" using encode_time_in_range by blast
  have "decode_time field (if wide then extra else 0) = t"
  proof (cases wide)
    case True
    then show ?thesis using fits decode_encoded [OF enc] mod_shift_fixed [of "2 ^ 34" "ts_secs t"]
      by (cases t) (simp add: TIME_SECS_MIN_def TIME_SECS_MAX_def)
  next
    case False
    then show ?thesis using fits decode_encoded [OF enc] mod_shift_fixed [of "2 ^ 32" "ts_secs t"]
      by (cases t) (simp add: TIME_SECS_MIN_def)
  qed
  then show ?stored using enc by blast
qed

section \<open>Devices come back\<close>

lemma bit_less_pow: "x < 2 ^ n \<Longrightarrow> bit (x :: u32) i \<Longrightarrow> i < n"
  using less_mask_eq [of x n] by (metis bit_take_bit_iff take_bit_eq_mask)

lemma bit_masks32: "(0xff :: u32) = mask 8" "(0x000fff00 :: u32) = push_bit 8 (mask 12)"
  by (simp_all add: mask_eq_exp_minus_1 push_bit_eq_mult)

lemma and_mask_less: "x AND mask n < (2 :: u32) ^ n" if "n < 32"
  using that by (simp add: and_mask_less')

lemma device_old: "major < 256 \<Longrightarrow> minor < 256 \<Longrightarrow>
    drop_bit 8 (push_bit 8 major OR minor) AND 0xff = (major :: u32) \<and> (push_bit 8 major OR minor) AND 0xff = minor"
  unfolding bit_masks32
  using bit_less_pow [of major 8] bit_less_pow [of minor 8]
  by (auto intro!: bit_word_eqI simp: bit_simps) fastforce+

lemma device_new:
  fixes major minor :: u32
  assumes "major < 2 ^ 12" "minor < 2 ^ 20"
  defines "word \<equiv> (minor AND 0xff) OR push_bit 8 major OR push_bit 12 (minor AND NOT 0xff)"
  shows "drop_bit 8 (word AND 0x000fff00) = major"
    "(word AND 0xff) OR (drop_bit 12 word AND 0x000fff00) = minor"
proof -
  note bits = bit_less_pow [OF assms(1)] bit_less_pow [OF assms(2)]
  show "drop_bit 8 (word AND 0x000fff00) = major"
    "(word AND 0xff) OR (drop_bit 12 word AND 0x000fff00) = minor"
    unfolding bit_masks32 word_def by (rule bit_word_eqI; auto simp: bit_simps dest: bits)+
qed

lemma device_round_trip:
  "(case encode_device major minor of (b0, b1) \<Rightarrow> decode_device b0 b1) = (major, minor)
    \<longleftrightarrow> major < 2 ^ 12 \<and> minor < 2 ^ 20"
proof (cases "major < 256 \<and> minor < 256")
  case True
  then have "push_bit 8 major OR minor = 0 \<Longrightarrow> major = 0 \<and> minor = 0" using device_old [of major minor] by auto
  then show ?thesis
    using True device_old [of major minor] by (auto simp: encode_device_def decode_device_def word_less_nat_alt)
next
  case False
  have wide: "drop_bit 8 (w AND 0x000fff00) < (2 :: u32) ^ 12" for w :: u32
  proof -
    have "drop_bit 8 (w AND 0x000fff00) = drop_bit 8 w AND mask 12"
      unfolding bit_masks32 by (rule bit_word_eqI) (auto simp: bit_simps)
    then show ?thesis using and_mask_less [of 12] by simp
  qed
  have deep: "(w AND 0xff) OR (drop_bit 12 w AND 0x000fff00) < (2 :: u32) ^ 20" for w :: u32
  proof -
    have "(w AND 0xff) OR (drop_bit 12 w AND 0x000fff00) = ((w AND 0xff) OR (drop_bit 12 w AND 0x000fff00)) AND mask 20"
      unfolding bit_masks32 by (rule bit_word_eqI) (auto simp: bit_simps)
    then show ?thesis by (rule ssubst) (rule and_mask_less, simp)
  qed
  have "(case encode_device major minor of (b0, b1) \<Rightarrow> decode_device b0 b1) =
      (let word = (minor AND 0xff) OR push_bit 8 major OR push_bit 12 (minor AND NOT 0xff) in
       (drop_bit 8 (word AND 0x000fff00), (word AND 0xff) OR (drop_bit 12 word AND 0x000fff00)))"
    unfolding encode_device_def decode_device_def if_not_P [OF False] by (simp only: prod.case Let_def if_False simp_thms)
  then show ?thesis
    using device_new [of major minor] wide deep unfolding Let_def by (metis prod.inject)
qed

section \<open>The record comes back\<close>

definition classic_places :: "Inode \<Rightarrow> u32 \<Rightarrow> u32 \<Rightarrow> u32 \<Rightarrow> place list" where
  "classic_places i atime ctime mtime =
     [(0x00, 2, to_le 2 (in_mode i)), (0x02, 2, to_le 2 (ucast (in_uid i) :: u16)), (0x04, 4, to_le 4 (ucast (in_size i) :: u32)),
      (0x08, 4, to_le 4 atime), (0x0c, 4, to_le 4 ctime), (0x10, 4, to_le 4 mtime), (0x14, 4, to_le 4 (in_dtime i)),
      (0x18, 2, to_le 2 (ucast (in_gid i) :: u16)), (0x1a, 2, to_le 2 (in_links_count i)),
      (0x1c, 4, to_le 4 (ucast (in_blocks i) :: u32)), (0x20, 4, to_le 4 (in_flags i)), (0x28, 60, in_block i),
      (0x64, 4, to_le 4 (in_generation i)), (0x68, 4, to_le 4 (ucast (in_file_acl i) :: u32)),
      (0x6c, 4, to_le 4 (ucast (drop_bit 32 (in_size i)) :: u32)), (0x74, 2, to_le 2 (ucast (drop_bit 32 (in_blocks i)) :: u16)),
      (0x76, 2, to_le 2 (ucast (drop_bit 32 (in_file_acl i)) :: u16)), (0x78, 2, to_le 2 (ucast (drop_bit 16 (in_uid i)) :: u16)),
      (0x7a, 2, to_le 2 (ucast (drop_bit 16 (in_gid i)) :: u16)), (0x7c, 2, to_le 2 (ucast (in_checksum i) :: u16))]"

definition extended_places :: "Inode \<Rightarrow> nat \<Rightarrow> u32 \<Rightarrow> u32 \<Rightarrow> u32 \<Rightarrow> u32 \<Rightarrow> u32 \<Rightarrow> place list" where
  "extended_places i sz atime_x ctime_x mtime_x crtime crtime_x =
     (let fits = inode_fits sz (in_extra_isize i) in
      [(0x80, 2, if 130 \<le> sz then to_le 2 (in_extra_isize i) else []),
       (0x82, 2, if fits 0x82 2 then to_le 2 (ucast (drop_bit 16 (in_checksum i)) :: u16) else []),
       (0x84, 4, if fits 0x84 4 then to_le 4 ctime_x else []), (0x88, 4, if fits 0x88 4 then to_le 4 mtime_x else []),
       (0x8c, 4, if fits 0x8c 4 then to_le 4 atime_x else []), (0x90, 4, if fits 0x90 4 then to_le 4 crtime else []),
       (0x94, 4, if fits 0x94 4 then to_le 4 crtime_x else [])])"

lemma put_classic_fields:
  assumes "in_block i \<noteq> []"
  shows "put_classic i atime ctime mtime b = put_fields b (classic_places i atime ctime mtime)"
  using assms by (simp add: put_classic_def classic_places_def field_puts inode_offsets del: andThen_Ok_iff to_le.simps)

lemma put_if_field: "put_u16_if c b off v16 = (if (if c then to_le 2 v16 else []) = [] then Ok b else put_arr b off (if c then to_le 2 v16 else []))"
  "put_u32_if c b off v32 = (if (if c then to_le 4 v32 else []) = [] then Ok b else put_arr b off (if c then to_le 4 v32 else []))"
  by (simp_all add: put_u16_if_def put_u32_if_def field_puts)

lemma put_extended_fields:
  "put_extended i sz atime_x ctime_x mtime_x crtime crtime_x b =
    put_fields b (extended_places i sz atime_x ctime_x mtime_x crtime crtime_x)"
  by (simp only: put_extended_def extended_places_def Let_def put_fields.simps put_if_field andThen_Ok_right inode_offsets
      numeral_plus_numeral add_num_simps)

lemma ascending_classic:
  "length (in_block i) = 60 \<Longrightarrow> 128 \<le> n \<Longrightarrow> ascending 0 (classic_places i atime ctime mtime) n"
  by (simp add: classic_places_def del: to_le.simps)

lemma ascending_extended:
  "hi = sz \<or> 2 \<le> unat (in_extra_isize i) \<and> hi = min sz (128 + unat (in_extra_isize i)) \<Longrightarrow>
    ascending 128 (extended_places i sz atime_x ctime_x mtime_x crtime crtime_x) hi"
  by (auto simp: extended_places_def Let_def inode_fits_def GOOD_OLD_SIZE_def simp del: to_le.simps)

text \<open>
  What an inode of \<open>sz\<close> bytes can hold of a record: the fields its size and extra area reach, each
  narrowed to the bits the format gives it.
\<close>

definition stored_time :: "bool \<Rightarrow> Timestamp \<Rightarrow> Timestamp" where
  "stored_time wide t =
     (if wide then \<lparr>ts_secs = (ts_secs t + 2 ^ 31) mod 2 ^ 34 - 2 ^ 31, ts_nanos = ts_nanos t mod 2 ^ 30\<rparr>
      else \<lparr>ts_secs = (ts_secs t + 2 ^ 31) mod 2 ^ 32 - 2 ^ 31, ts_nanos = 0\<rparr>)"

definition stored_region :: "nat \<Rightarrow> bytes \<Rightarrow> bytes" where
  "stored_region room region =
     (let bs = region @ replicate (room - length region) 0 in
      if 4 \<le> room \<and> from_le (take 4 bs) = XATTR_MAGIC then bs else [])"

definition carried :: "nat \<Rightarrow> Inode \<Rightarrow> Inode" where
  "carried sz i =
     (let fits = inode_fits sz (in_extra_isize i);
          extra_isize = (if 130 \<le> sz then in_extra_isize i else 0)
      in i\<lparr>in_size := if in_mode i AND 0xF000 = 0x8000 then in_size i else take_bit 32 (in_size i),
           in_blocks := take_bit 48 (in_blocks i), in_file_acl := take_bit 48 (in_file_acl i),
           in_atime := stored_time (fits 0x8c 4) (in_atime i), in_ctime := stored_time (fits 0x84 4) (in_ctime i),
           in_mtime := stored_time (fits 0x88 4) (in_mtime i),
           in_crtime := if fits 0x90 4 then stored_time (fits 0x94 4) (in_crtime i) else \<lparr>ts_secs = 0, ts_nanos = 0\<rparr>,
           in_extra_isize := extra_isize,
           in_checksum := if fits 0x82 2 then in_checksum i else take_bit 16 (in_checksum i),
           in_inline_xattr := stored_region (sz - (128 + unat extra_isize)) (in_inline_xattr i)\<rparr>)"

lemma join64_halves:
  "join64 (ucast v) (ucast (drop_bit 32 v)) = v" "join64 (ucast v) 0 = take_bit 32 v"
  "join64 (ucast v) (ucast (ucast (drop_bit 32 v) :: u16)) = take_bit 48 v"
  by (rule bit_word_eqI; auto simp: join64_def bit_simps)+

lemma decode_stored:
  "encode_time t = Ok (field, extra) \<Longrightarrow> decode_time field (if wide then extra else 0) = stored_time wide t"
  using decode_encoded [of t field extra] by (simp add: stored_time_def)

lemma decode_time_zero [simp]: "decode_time 0 0 = \<lparr>ts_secs = 0, ts_nanos = 0\<rparr>"
  by (simp add: decode_time_def)

lemma get_u16_if_at:
  "(if c then to_le 2 v else []) = [] \<or> take 2 (drop off b) = (if c then to_le 2 v else []) \<Longrightarrow>
    get_u16_if c b off = Ok (if c then v else 0)"
  by (auto simp: get_u16_if_def intro: f16.get_at simp del: to_le.simps)

lemma get_u32_if_at:
  "(if c then to_le 4 v else []) = [] \<or> take 4 (drop off b) = (if c then to_le 4 v else []) \<Longrightarrow>
    get_u32_if c b off = Ok (if c then v else 0)"
  by (auto simp: get_u32_if_def intro: f32.get_at simp del: to_le.simps)

text \<open>The record's fields, in a buffer that holds its places.\<close>

lemma read_held:
  assumes "128 \<le> sz" "sz \<le> length b" "length (in_block i) = 60"
    and held: "list_all (place_held b) (classic_places i atime ctime mtime)"
      "list_all (place_held b) (extended_places i sz atime_x ctime_x mtime_x crtime crtime_x)"
    and times: "encode_time (in_atime i) = Ok (atime, atime_x)" "encode_time (in_ctime i) = Ok (ctime, ctime_x)"
      "encode_time (in_mtime i) = Ok (mtime, mtime_x)" "encode_time (in_crtime i) = Ok (crtime, crtime_x)"
    and region: "inline_region b (128 + unat (in_extra_isize (carried sz i))) sz = Ok (in_inline_xattr (carried sz i))"
  shows "inode_read_from b sz = Ok (carried sz i)"
proof -
  note at16 = f16.get_at and at32 = f32.get_at
  have classic: "(get_u16 b 0x00 :: (ParseError, u16) outcome) = Ok (in_mode i)" "(get_u16 b 0x02 :: (ParseError, u16) outcome) = Ok (ucast (in_uid i))"
    "(get_u32 b 0x04 :: (ParseError, u32) outcome) = Ok (ucast (in_size i))" "(get_u32 b 0x08 :: (ParseError, u32) outcome) = Ok atime" "(get_u32 b 0x0c :: (ParseError, u32) outcome) = Ok ctime"
    "(get_u32 b 0x10 :: (ParseError, u32) outcome) = Ok mtime" "(get_u32 b 0x14 :: (ParseError, u32) outcome) = Ok (in_dtime i)" "(get_u16 b 0x18 :: (ParseError, u16) outcome) = Ok (ucast (in_gid i))"
    "(get_u16 b 0x1a :: (ParseError, u16) outcome) = Ok (in_links_count i)" "(get_u32 b 0x1c :: (ParseError, u32) outcome) = Ok (ucast (in_blocks i))"
    "(get_u32 b 0x20 :: (ParseError, u32) outcome) = Ok (in_flags i)" "(get_arr 60 b 0x28 :: (ParseError, bytes) outcome) = Ok (in_block i)"
    "(get_u32 b 0x64 :: (ParseError, u32) outcome) = Ok (in_generation i)" "(get_u32 b 0x68 :: (ParseError, u32) outcome) = Ok (ucast (in_file_acl i))"
    "(get_u32 b 0x6c :: (ParseError, u32) outcome) = Ok (ucast (drop_bit 32 (in_size i)))" "(get_u16 b 0x74 :: (ParseError, u16) outcome) = Ok (ucast (drop_bit 32 (in_blocks i)))"
    "(get_u16 b 0x76 :: (ParseError, u16) outcome) = Ok (ucast (drop_bit 32 (in_file_acl i)))" "(get_u16 b 0x78 :: (ParseError, u16) outcome) = Ok (ucast (drop_bit 16 (in_uid i)))"
    "(get_u16 b 0x7a :: (ParseError, u16) outcome) = Ok (ucast (drop_bit 16 (in_gid i)))" "(get_u16 b 0x7c :: (ParseError, u16) outcome) = Ok (ucast (in_checksum i))"
    using held(1) assms(3)
    by (auto simp: classic_places_def simp del: to_le.simps intro!: at16 at32 get_arr_at)
  have ex: "in_extra_isize (carried sz i) = (if 130 \<le> sz then in_extra_isize i else 0)"
    by (simp add: carried_def Let_def)
  have extended: "get_u16_if (130 \<le> sz) b 0x80 = Ok (in_extra_isize (carried sz i))"
    "get_u16_if (inode_fits sz (in_extra_isize i) 0x82 2) b 0x82 =
      Ok (if inode_fits sz (in_extra_isize i) 0x82 2 then ucast (drop_bit 16 (in_checksum i)) else 0)"
    "get_u32_if (inode_fits sz (in_extra_isize i) 0x84 4) b 0x84 = Ok (if inode_fits sz (in_extra_isize i) 0x84 4 then ctime_x else 0)"
    "get_u32_if (inode_fits sz (in_extra_isize i) 0x88 4) b 0x88 = Ok (if inode_fits sz (in_extra_isize i) 0x88 4 then mtime_x else 0)"
    "get_u32_if (inode_fits sz (in_extra_isize i) 0x8c 4) b 0x8c = Ok (if inode_fits sz (in_extra_isize i) 0x8c 4 then atime_x else 0)"
    "get_u32_if (inode_fits sz (in_extra_isize i) 0x90 4) b 0x90 = Ok (if inode_fits sz (in_extra_isize i) 0x90 4 then crtime else 0)"
    "get_u32_if (inode_fits sz (in_extra_isize i) 0x94 4) b 0x94 = Ok (if inode_fits sz (in_extra_isize i) 0x94 4 then crtime_x else 0)"
    using held(2) unfolding ex
    by (simp_all only: extended_places_def Let_def list.pred_inject place_held_simps get_u16_if_at get_u32_if_at)
  have fits: "inode_fits sz (in_extra_isize (carried sz i)) off w = inode_fits sz (in_extra_isize i) off w"
    if "130 \<le> off" "0 < w" for off w
    using that unfolding ex by (auto simp: inode_fits_def)
  have high: "get_u32_if (in_mode i AND 0xF000 = 0x8000) b 0x6c =
      Ok (if in_mode i AND 0xF000 = 0x8000 then ucast (drop_bit 32 (in_size i)) else 0)"
    using classic(15) by (simp add: get_u32_if_def)
  let ?fits = "inode_fits sz (in_extra_isize i)"
  have times': "decode_time atime (if ?fits 0x8c 4 then atime_x else 0) = stored_time (?fits 0x8c 4) (in_atime i)"
    "decode_time ctime (if ?fits 0x84 4 then ctime_x else 0) = stored_time (?fits 0x84 4) (in_ctime i)"
    "decode_time mtime (if ?fits 0x88 4 then mtime_x else 0) = stored_time (?fits 0x88 4) (in_mtime i)"
    by (rule decode_stored, rule times)+
  have crtime': "decode_time (if ?fits 0x90 4 then crtime else 0) (if ?fits 0x94 4 then crtime_x else 0) =
      (if ?fits 0x90 4 then stored_time (?fits 0x94 4) (in_crtime i) else \<lparr>ts_secs = 0, ts_nanos = 0\<rparr>)"
    using decode_stored [OF times(4), of "?fits 0x94 4"] by (auto simp: inode_fits_def)
  have sizes: "join64 (ucast (in_size i)) (if c then ucast (drop_bit 32 (in_size i)) else 0) =
      (if c then in_size i else take_bit 32 (in_size i))"
    "join32 (ucast (in_checksum i)) (if c then ucast (drop_bit 16 (in_checksum i)) else 0) =
      (if c then in_checksum i else take_bit 16 (in_checksum i))" for c
    by (simp_all add: join64_halves join32_halves)
  have "inode_read_from b sz = Ok \<lparr>in_mode = in_mode i, in_uid = in_uid i, in_gid = in_gid i,
      in_size = (if in_mode i AND 0xF000 = 0x8000 then in_size i else take_bit 32 (in_size i)),
      in_links_count = in_links_count i, in_blocks = take_bit 48 (in_blocks i), in_flags = in_flags i,
      in_atime = stored_time (?fits 0x8c 4) (in_atime i), in_ctime = stored_time (?fits 0x84 4) (in_ctime i),
      in_mtime = stored_time (?fits 0x88 4) (in_mtime i),
      in_crtime = (if ?fits 0x90 4 then stored_time (?fits 0x94 4) (in_crtime i) else \<lparr>ts_secs = 0, ts_nanos = 0\<rparr>),
      in_dtime = in_dtime i, in_generation = in_generation i, in_file_acl = take_bit 48 (in_file_acl i),
      in_extra_isize = in_extra_isize (carried sz i), in_block = in_block i,
      in_checksum = (if ?fits 0x82 2 then in_checksum i else take_bit 16 (in_checksum i)),
      in_inline_xattr = in_inline_xattr (carried sz i)\<rparr>"
  proof -
    have check: "check_inode_size sz (length b) = Ok sz"
      using assms(1,2) by (simp add: check_inode_size_def GOOD_OLD_SIZE_def)
    have le: "130 \<le> (0x82 :: nat)" "130 \<le> (0x84 :: nat)" "130 \<le> (0x88 :: nat)" "130 \<le> (0x8c :: nat)"
      "130 \<le> (0x90 :: nat)" "130 \<le> (0x94 :: nat)" "0 < (2 :: nat)" "0 < (4 :: nat)" "0x80 + 2 = (130 :: nat)"
      by simp_all
    note fits' = fits [OF le(1) le(7)] fits [OF le(2) le(8)] fits [OF le(3) le(8)] fits [OF le(4) le(8)]
      fits [OF le(5) le(8)] fits [OF le(6) le(8)]
    show ?thesis
      unfolding inode_read_from_def inode_offsets has_checksum_hi_def check andThen.simps classic le extended Let_def
        region fits' high join32_halves join64_halves times' crtime' sizes ..
  qed
  also have "\<dots> = Ok (carried sz i)"
    by (simp add: carried_def Let_def)
  finally show ?thesis .
qed

text \<open>The inline region: past every field, so it holds what was written there and zeros after it.\<close>

lemma no_magic: "4 \<le> length bs \<Longrightarrow> bs ! 3 = 0 \<Longrightarrow> from_le (take 4 bs) \<noteq> XATTR_MAGIC"
proof
  assume len: "4 \<le> length bs" and top: "bs ! 3 = 0" and magic: "from_le (take 4 bs) = XATTR_MAGIC"
  have "to_le 4 (from_le (take 4 bs) :: u32) = take 4 bs" using len by (intro to_from_le_n) simp_all
  then have "to_le 4 XATTR_MAGIC = take 4 bs" unfolding magic .
  then have "to_le 4 XATTR_MAGIC ! 3 = 0" using len top by simp
  then have "ucast (drop_bit 24 XATTR_MAGIC) = (0 :: u8)" by (simp add: nth_to_le)
  then show False by (simp add: XATTR_MAGIC_def)
qed

lemma written_zeros:
  assumes "128 \<le> sz" "length (in_block i) = 60" "130 \<le> k" "128 + unat (in_extra_isize i) \<le> k" "k < sz"
  shows "splices (splices (replicate sz 0) (classic_places i atime ctime mtime))
    (extended_places i sz atime_x ctime_x mtime_x crtime crtime_x) ! k = 0"
proof -
  note asc = ascending_classic [OF assms(2), of sz atime ctime mtime]
  have len: "length (splices (replicate sz 0) (classic_places i atime ctime mtime)) = sz"
    using length_splices [of 0 _ "replicate sz 0"] asc assms(1) by simp
  have "splices (splices (replicate sz 0) (classic_places i atime ctime mtime))
      (extended_places i sz atime_x ctime_x mtime_x crtime crtime_x) ! k =
    splices (replicate sz 0) (classic_places i atime ctime mtime) ! k"
    using assms len ascending_extended [of sz sz i atime_x ctime_x mtime_x crtime crtime_x]
    by (intro splices_nth [of 128])
      (auto simp: extended_places_def Let_def inode_fits_def GOOD_OLD_SIZE_def simp del: to_le.simps)
  also have "\<dots> = replicate sz 0 ! k"
    using assms asc by (intro splices_nth [of 0]) (auto simp: classic_places_def simp del: to_le.simps)
  finally show ?thesis using assms by simp
qed

lemma region_read:
  assumes "xoff \<le> sz" "sz \<le> length b"
  shows "inline_region b xoff sz =
    Ok (let bs = take (sz - xoff) (drop xoff b) in if 4 \<le> sz - xoff \<and> from_le (take 4 bs) = XATTR_MAGIC then bs else [])"
  using assms by (simp add: inline_region_def f32.get_law Let_def)

lemma region_stored:
  assumes "xoff \<le> sz" "sz \<le> length b" "130 \<le> xoff \<or> region = []" "xoff + length region \<le> sz"
    and here: "take (length region) (drop xoff b) = region"
    and zeros: "\<And>k. 131 \<le> k \<or> 130 \<le> xoff \<Longrightarrow> xoff + length region \<le> k \<Longrightarrow> k < sz \<Longrightarrow> b ! k = 0" "128 \<le> xoff"
  shows "inline_region b xoff sz = Ok (stored_region (sz - xoff) region)"
proof -
  let ?bs = "take (sz - xoff) (drop xoff b)" and ?written = "region @ replicate (sz - xoff - length region) 0"
  show ?thesis
  proof (cases "130 \<le> xoff")
    case True
    have "?bs = ?written"
    proof (rule nth_equalityI)
      show "length ?bs = length ?written" using assms(1,2,4) by simp
      fix k assume k: "k < length ?bs"
      show "?bs ! k = ?written ! k"
      proof (cases "k < length region")
        case True
        then have "region ! k = take (length region) (drop xoff b) ! k" using here by simp
        then show ?thesis using True k by (simp add: nth_append)
      next
        case False
        then show ?thesis using k zeros(1) [of "xoff + k"] \<open>130 \<le> xoff\<close> assms(1,2) by (simp add: nth_append)
      qed
    qed
    then show ?thesis using assms(1,2) by (simp add: region_read stored_region_def Let_def)
  next
    case False
    then have empty: "region = []" using assms(3) by simp
    have "4 \<le> sz - xoff \<Longrightarrow> from_le (take 4 ?bs) \<noteq> XATTR_MAGIC"
      using zeros(1) [of "xoff + 3"] zeros(2) assms(1,2) empty by (intro no_magic) auto
    moreover have "4 \<le> n \<Longrightarrow> from_le (take 4 (replicate n 0)) \<noteq> XATTR_MAGIC" for n
      by (rule no_magic) auto
    ultimately show ?thesis using assms(1,2) empty by (auto simp: region_read stored_region_def Let_def)
  qed
qed

lemma inode_write_held:
  assumes block: "length (in_block i) = 60"
    and apart: "in_inline_xattr i = [] \<or> 2 \<le> unat (in_extra_isize i)"
    and written: "inode_write_to i buf sz = Ok buf'"
  shows "\<exists>atime atime_x ctime ctime_x mtime mtime_x crtime crtime_x.
    length buf' = length buf \<and> drop sz buf' = drop sz buf \<and> 128 \<le> sz \<and> sz \<le> length buf
    \<and> list_all (place_held buf') (classic_places i atime ctime mtime)
    \<and> list_all (place_held buf') (extended_places i sz atime_x ctime_x mtime_x crtime crtime_x)
    \<and> encode_time (in_atime i) = Ok (atime, atime_x) \<and> encode_time (in_ctime i) = Ok (ctime, ctime_x)
    \<and> encode_time (in_mtime i) = Ok (mtime, mtime_x) \<and> encode_time (in_crtime i) = Ok (crtime, crtime_x)
    \<and> inline_region buf' (128 + unat (in_extra_isize (carried sz i))) sz = Ok (in_inline_xattr (carried sz i))"
proof -
  let ?x = "128 + unat (in_extra_isize i)"
  obtain atime atime_x ctime ctime_x mtime mtime_x crtime crtime_x b1 b2 b3 where
    sz: "128 \<le> sz" "sz \<le> length buf"
    and times: "encode_time (in_atime i) = Ok (atime, atime_x)" "encode_time (in_ctime i) = Ok (ctime, ctime_x)"
      "encode_time (in_mtime i) = Ok (mtime, mtime_x)" "encode_time (in_crtime i) = Ok (crtime, crtime_x)"
    and b1: "put_classic i atime ctime mtime (replicate sz 0) = Ok b1"
    and b2: "put_extended i sz atime_x ctime_x mtime_x crtime crtime_x b1 = Ok b2"
    and b3: "put_inline i sz b2 = Ok b3" and buf': "buf' = b3 @ drop sz buf"
    using written by (auto simp: inode_write_to_def check_inode_size_def GOOD_OLD_SIZE_def split: if_splits)
  let ?cp = "classic_places i atime ctime mtime" and ?ep = "extended_places i sz atime_x ctime_x mtime_x crtime crtime_x"
  have "in_block i \<noteq> []" using block by auto
  note asc = ascending_classic [OF block, of _ atime ctime mtime]
    ascending_extended [of _ sz i atime_x ctime_x mtime_x crtime crtime_x]
  have b1_eq: "b1 = splices (replicate sz 0) ?cp" and len1: "length b1 = sz"
    using b1 put_fields_Ok [of "replicate sz 0" ?cp b1 0] asc(1) [OF sz(1)] \<open>in_block i \<noteq> []\<close>
    by (auto simp: put_classic_fields)
  have b2_eq: "b2 = splices b1 ?ep" and len2: "length b2 = sz"
    using b2 put_fields_Ok [of b1 ?ep b2 128] asc(2) [of sz] len1 by (auto simp: put_extended_fields)
  let ?lim = "if 2 \<le> unat (in_extra_isize i) then min sz ?x else sz"
  have b3_eq: "b3 = splice b2 ?x (in_inline_xattr i) \<and> ?x + length (in_inline_xattr i) \<le> sz
      \<or> b3 = b2 \<and> (in_inline_xattr i = [] \<or> sz \<le> ?x)"
    using b3 len2 by (auto simp: put_inline_def Let_def GOOD_OLD_SIZE_def put_arr_def split: if_splits)
  then have len3: "length b3 = sz" using len2 by auto
  have frame: "take w (drop off buf') = take w (drop off b2)" if lim: "off + w \<le> ?lim" for off w
  proof -
    have "off + w \<le> sz" using lim by (cases "2 \<le> unat (in_extra_isize i)") auto
    then have whole: "take w (drop off buf') = take w (drop off b3)" unfolding buf' using len3 by simp
    show ?thesis
    proof (cases "in_inline_xattr i = [] \<or> b3 = b2")
      case True
      then show ?thesis using whole b3_eq by auto
    next
      case False
      then have "off + w \<le> ?x" using lim apart by simp
      then have "take w (drop off (splice b2 ?x (in_inline_xattr i))) = take w (drop off b2)"
        using b3_eq len2 False by (intro take_drop_splice_other) auto
      then show ?thesis using whole b3_eq False by auto
    qed
  qed
  have held1: "list_all (place_held b1) ?cp"
    unfolding b1_eq using splices_hold [of 0 ?cp "replicate sz 0"] asc(1) [OF sz(1)] by simp
  have "list_all (place_held b2) ?ep"
    unfolding b2_eq using splices_hold [of 128 ?ep b1] asc(2) [of sz] len1 by simp
  from held_frame [OF this _ frame, of 128 ?lim] have held2: "list_all (place_held buf') ?ep"
    using asc(2) [of ?lim] by simp
  have low: "take w (drop off b2) = take w (drop off b1)" if "off + w \<le> 128" for off w
    unfolding b2_eq using that asc(2) [of sz] len1 by (intro splices_below [of 128]) simp_all
  have "128 \<le> ?lim" using sz(1) by simp
  then have "take w (drop off buf') = take w (drop off b1)" if "off + w \<le> 128" for off w
    using frame [OF order_trans [OF that \<open>128 \<le> ?lim\<close>]] low [OF that] by simp
  from held_frame [OF held1 _ this, of 0 128] have held1': "list_all (place_held buf') ?cp"
    using asc(1) [of 128] by simp
  have zeros: "b2 ! k = 0" if "130 \<le> k" "?x \<le> k" "k < sz" for k
    unfolding b2_eq b1_eq using that sz(1) block by (intro written_zeros) auto
  have region: "inline_region buf' (128 + unat (in_extra_isize (carried sz i))) sz = Ok (in_inline_xattr (carried sz i))"
  proof (cases "130 \<le> sz \<and> ?x < sz")
    case False
    then have "\<not> 4 \<le> sz - (128 + unat (in_extra_isize (carried sz i)))" by (auto simp: carried_def Let_def)
    then show ?thesis by (auto simp: inline_region_def carried_def Let_def stored_region_def)
  next
    case True
    then have b3: "b3 = splice b2 ?x (in_inline_xattr i)" and room: "?x + length (in_inline_xattr i) \<le> sz"
      using b3_eq by auto
    have "inline_region buf' ?x sz = Ok (stored_region (sz - ?x) (in_inline_xattr i))"
    proof (rule region_stored)
      show "?x \<le> sz" "130 \<le> ?x \<or> in_inline_xattr i = []" "128 \<le> ?x" using True apart by auto
      show "sz \<le> length buf'" by (simp add: buf' len3)
      show "take (length (in_inline_xattr i)) (drop ?x buf') = in_inline_xattr i"
        using take_drop_splice_same [of ?x "in_inline_xattr i" b2] room len2 len3 by (simp add: buf' flip: b3)
      show "buf' ! k = 0" if "131 \<le> k \<or> 130 \<le> ?x" "?x + length (in_inline_xattr i) \<le> k" "k < sz" for k
        using zeros [of k] that room len2 len3 by (auto simp: buf' nth_append b3 nth_splice_out)
    qed (rule room)
    then show ?thesis using True by (simp add: carried_def Let_def)
  qed
  show ?thesis
    using held1' held2 times region len3 sz by (intro exI conjI) (assumption | simp add: buf')+
qed

lemma inode_write_read:
  assumes "length (in_block i) = 60"
    and "in_inline_xattr i = [] \<or> 2 \<le> unat (in_extra_isize i)"
    and "inode_write_to i buf sz = Ok buf'"
  shows "length buf' = length buf \<and> drop sz buf' = drop sz buf \<and> inode_read_from buf' sz = Ok (carried sz i)"
proof -
  from inode_write_held [OF assms] obtain atime atime_x ctime ctime_x mtime mtime_x crtime crtime_x where
    len: "length buf' = length buf" and rest: "drop sz buf' = drop sz buf" and sz: "128 \<le> sz" "sz \<le> length buf"
    and held: "list_all (place_held buf') (classic_places i atime ctime mtime)"
      "list_all (place_held buf') (extended_places i sz atime_x ctime_x mtime_x crtime crtime_x)"
    and times: "encode_time (in_atime i) = Ok (atime, atime_x)" "encode_time (in_ctime i) = Ok (ctime, ctime_x)"
      "encode_time (in_mtime i) = Ok (mtime, mtime_x)" "encode_time (in_crtime i) = Ok (crtime, crtime_x)"
    and region: "inline_region buf' (128 + unat (in_extra_isize (carried sz i))) sz = Ok (in_inline_xattr (carried sz i))"
    by blast
  show ?thesis using read_held [OF sz(1) _ assms(1) held times region] len rest sz by simp
qed

section \<open>What the codec promises\<close>

lemma encode_time_no_Err [simp]: "encode_time t \<noteq> Err e"
  by (simp add: encode_time_eq)

lemma inode_write_Err_iff:
  assumes "length (in_block i) = 60"
  shows "(\<exists>e. inode_write_to i buf sz = Err e) \<longleftrightarrow> sz < 128 \<or> length buf < sz"
proof (cases "sz < 128 \<or> length buf < sz")
  case True
  then show ?thesis by (auto simp: inode_write_to_def check_inode_size_def GOOD_OLD_SIZE_def)
next
  case False
  have block: "in_block i \<noteq> []" using assms by auto
  have classic: "put_classic i a c m (replicate sz 0) \<noteq> Err e" for a c m e
    using False assms block put_fields_no_Err [of 0 "classic_places i a c m" "replicate sz 0"]
    by (simp add: put_classic_fields ascending_classic)
  have extended: "put_extended i sz a c m r x b \<noteq> Err e" if "length b = sz" for a c m r x b e
    unfolding put_extended_fields using that ascending_extended [of sz sz i a c m r x]
    by (intro put_fields_no_Err [of 128]) simp
  have inline: "put_inline i sz b \<noteq> Err e" for b e
    by (auto simp: put_inline_def Let_def put_arr_def)
  have len: "put_classic i a c m (replicate sz 0) = Ok b \<Longrightarrow> length b = sz" for a c m b
    using False assms block put_fields_Ok [of "replicate sz 0" "classic_places i a c m" b 0]
    by (auto simp: put_classic_fields ascending_classic)
  have "inode_write_to i buf sz \<noteq> Err e" for e
    using False classic extended inline len
    by (auto simp: inode_write_to_def check_inode_size_def GOOD_OLD_SIZE_def split: prod.splits)
  then show ?thesis using False by blast
qed

lemma inode_read_total: "inode_read_from buf sz \<noteq> Panic"
proof (cases "sz < 128 \<or> length buf < sz")
  case True
  then show ?thesis by (auto simp: inode_read_from_def check_inode_size_def GOOD_OLD_SIZE_def)
next
  case False
  then have check: "check_inode_size sz (length buf) = Ok sz" and len: "128 \<le> length buf" "sz \<le> length buf"
    by (auto simp: check_inode_size_def GOOD_OLD_SIZE_def)
  have reads: "off + 2 \<le> 128 \<Longrightarrow> get_u16 buf off \<noteq> Panic" "off + 4 \<le> 128 \<Longrightarrow> get_u32 buf off \<noteq> Panic"
    "get_u16_if (130 \<le> sz) buf 0x80 \<noteq> Panic" "get_u32_if c buf 0x6c \<noteq> Panic"
    "get_u16_if (inode_fits sz x off 2) buf off \<noteq> Panic" "get_u32_if (inode_fits sz x off 4) buf off \<noteq> Panic"
    "inline_region buf off sz \<noteq> Panic" "get_arr 60 buf 0x28 \<noteq> Panic" for off x c
    using len by (simp_all add: get_u16_if_def get_u32_if_def inode_fits_def inline_region_def f16.get_law f32.get_law
        get_arr_def slice_def Let_def)
  show ?thesis
    unfolding inode_read_from_def check andThen.simps Let_def inode_offsets has_checksum_hi_def
    by (intro andThen_no_Panic) (simp_all add: reads)
qed


text \<open>When the inode holds everything, writing succeeds and nothing is lost.\<close>

lemma stored_time_fixed:
  "stored_time wide t = t \<Longrightarrow> \<exists>field extra. encode_time t = Ok (field, extra)"
proof -
  assume fixed: "stored_time wide t = t"
  define m :: int where "m = (if wide then 2 ^ 34 else 2 ^ 32)"
  have "(ts_secs t + 2 ^ 31) mod m - 2 ^ 31 = ts_secs t"
    using arg_cong [OF fixed, of ts_secs] by (simp add: stored_time_def m_def split: if_splits)
  then have "- (2 ^ 31) \<le> ts_secs t \<and> ts_secs t < m - 2 ^ 31"
    using mod_shift_fixed [of m "ts_secs t"] by (simp add: m_def)
  then have "- (2 ^ 31) \<le> ts_secs t" "ts_secs t < 2 ^ 34 - 2 ^ 31" by (auto simp: m_def split: if_splits)
  then show ?thesis by (rule encode_time_in_range)
qed

lemma encode_epoch: "\<exists>field extra. encode_time \<lparr>ts_secs = 0, ts_nanos = 0\<rparr> = Ok (field, extra)"
  by (rule encode_time_in_range) simp_all

lemma inode_write_succeeds:
  assumes "128 \<le> sz" "sz \<le> length buf" "length (in_block i) = 60"
    and region: "128 + unat (in_extra_isize i) + length (in_inline_xattr i) \<le> sz \<or> in_inline_xattr i = []"
    and times: "\<forall>t \<in> {in_atime i, in_ctime i, in_mtime i, in_crtime i}. \<exists>field extra. encode_time t = Ok (field, extra)"
  shows "\<exists>buf'. inode_write_to i buf sz = Ok buf'"
proof -
  obtain a a' c c' m m' r r' where enc: "encode_time (in_atime i) = Ok (a, a')" "encode_time (in_ctime i) = Ok (c, c')"
    "encode_time (in_mtime i) = Ok (m, m')" "encode_time (in_crtime i) = Ok (r, r')"
    using times by fastforce
  have block: "in_block i \<noteq> []" using assms(3) by auto
  let ?cp = "classic_places i a c m" and ?ep = "extended_places i sz a' c' m' r r'"
  define b1 b2 where "b1 = splices (replicate sz 0) ?cp" and "b2 = splices b1 ?ep"
  have asc: "ascending 0 ?cp sz" "ascending 128 ?ep sz"
    using ascending_classic [OF assms(3,1)] ascending_extended [of sz sz i] by simp_all
  have b1: "put_classic i a c m (replicate sz 0) = Ok b1" "length b1 = sz"
    unfolding b1_def put_classic_fields [OF block] using asc(1)
    by (auto intro: put_fields_eq simp: length_splices)
  have b2: "put_extended i sz a' c' m' r r' b1 = Ok b2" "length b2 = sz"
    unfolding b2_def put_extended_fields using asc(2) b1(2)
    by (auto intro: put_fields_eq simp: length_splices)
  have "\<exists>b3. put_inline i sz b2 = Ok b3"
    using region b2(2) by (auto simp: put_inline_def Let_def put_arr_def GOOD_OLD_SIZE_def)
  then show ?thesis
    using assms(1,2) enc b1(1) b2(1) by (simp add: inode_write_to_def check_inode_size_def GOOD_OLD_SIZE_def)
qed

lemma carried_times:
  assumes "carried sz i = i"
  shows "\<forall>t \<in> {in_atime i, in_ctime i, in_mtime i, in_crtime i}. \<exists>field extra. encode_time t = Ok (field, extra)"
proof -
  let ?fits = "inode_fits sz (in_extra_isize i)"
  have "stored_time (?fits 0x8c 4) (in_atime i) = in_atime i" "stored_time (?fits 0x84 4) (in_ctime i) = in_ctime i"
    "stored_time (?fits 0x88 4) (in_mtime i) = in_mtime i"
    using arg_cong [OF assms, of in_atime] arg_cong [OF assms, of in_ctime] arg_cong [OF assms, of in_mtime]
    by (simp_all add: carried_def Let_def)
  moreover have "(if ?fits 0x90 4 then stored_time (?fits 0x94 4) (in_crtime i) else \<lparr>ts_secs = 0, ts_nanos = 0\<rparr>) = in_crtime i"
    using arg_cong [OF assms, of in_crtime] by (simp add: carried_def Let_def)
  ultimately show ?thesis
    using stored_time_fixed encode_epoch by (metis insertE singletonD)
qed

text \<open>
  An inode whose every field the size holds (its \<open>carried\<close> form is itself) is written into any
  buffer with the room, and reads back equal, the classic 128-byte inode and the extended ones alike.
\<close>

lemma inode_kept_whole:
  assumes "carried sz i = i" "128 \<le> sz" "sz \<le> length buf" "length (in_block i) = 60"
    "in_inline_xattr i = [] \<or> 2 \<le> unat (in_extra_isize i) \<and> 128 + unat (in_extra_isize i) + length (in_inline_xattr i) \<le> sz"
  shows "\<exists>buf'. inode_write_to i buf sz = Ok buf' \<and> inode_read_from buf' sz = Ok i \<and> length buf' = length buf"
  using inode_write_succeeds [of sz buf i] carried_times [of sz i] inode_write_read [of i buf sz] assms by auto

definition example_inode :: Inode where
  "example_inode = (empty_inode 256)\<lparr>in_mode := ROOT_INODE_MODE, in_size := 4096, in_links_count := 3,
     in_blocks := 8, in_flags := EXTENTS_FL, in_atime := \<lparr>ts_secs = 1700000000, ts_nanos = 7\<rparr>\<rparr>"

lemma example_carried: "carried 256 example_inode = example_inode"
  by (simp add: example_inode_def carried_def empty_inode_def extra_isize_for_def inode_fits_def stored_time_def stored_region_def
      GOOD_OLD_SIZE_def ROOT_INODE_MODE_def XATTR_MAGIC_def Let_def take_bit_word_eq_self)

lemma inode_write_example:
  "\<exists>buf'. inode_write_to example_inode (replicate 256 0) 256 = Ok buf' \<and> inode_read_from buf' 256 = Ok example_inode
    \<and> length buf' = 256"
  using inode_kept_whole [OF example_carried, of "replicate 256 0"]
  by (simp add: example_inode_def empty_inode_def BLOCK_BYTES_def Let_def)


text \<open>
  C20: The instants an inode's split fields hold are exactly a span of time: encoding an instant and
  decoding what is stored gives it back if and only if its seconds lie in the signed field widened
  by the epoch bits and its fraction in the thirty bits beside them, or, where the extra word is
  left out, in the signed field alone with no fraction. What the guard of the formatter admits is
  that span with fractions that divide a second.
\<close>

theorem instants_stored_exactly:
  "((\<exists>field extra. encode_time t = Ok (field, extra) \<and> decode_time field (if 128 < sz then extra else 0) = t) \<longleftrightarrow>
      TIME_SECS_MIN \<le> ts_secs t \<and>
      (if 128 < sz then ts_secs t \<le> TIME_SECS_MAX \<and> ts_nanos t < 2 ^ 30 else ts_secs t \<le> 2 ^ 31 - 1 \<and> ts_nanos t = 0))
    \<and> (time_is_representable t sz \<longleftrightarrow> has_proper_fraction t \<and>
      (\<exists>field extra. encode_time t = Ok (field, extra) \<and> decode_time field (if 128 < sz then extra else 0) = t))"
  unfolding stored_iff
  by (auto simp: time_is_representable_def has_proper_fraction_def NANOS_PER_SEC_def GOOD_OLD_SIZE_def)

text \<open>
  A device number packed into the two block words decodes to itself exactly when its major
  number has at most twelve bits and its minor number at most twenty.
\<close>

lemma device_numbers_round_trip:
  "(case encode_device major minor of (b0, b1) \<Rightarrow> decode_device b0 b1) = (major, minor)
    \<longleftrightarrow> major < 2 ^ 12 \<and> minor < 2 ^ 20"
  by (rule device_round_trip)

end
