(* ===== verification/GroupDesc.thy ===== *)
theory GroupDesc
  imports FieldRuns
begin

text \<open>
  The group descriptor of \<^verbatim>\<open>crates/ferrosys/src/ondisk/group_desc.rs\<close>, in its 32-byte and 64-byte
  forms, and the tail of an orphan-file block, \<^verbatim>\<open>ondisk/orphan.rs\<close>. A descriptor carries its counts
  whole and is written as halves; the short form keeps the low ones.
\<close>

section \<open>The descriptor\<close>

definition BG_INODE_UNINIT :: u16 where "BG_INODE_UNINIT = 0x0001"
definition BG_BLOCK_UNINIT :: u16 where "BG_BLOCK_UNINIT = 0x0002"
definition BG_INODE_ZEROED :: u16 where "BG_INODE_ZEROED = 0x0004"

definition SIZE_32 :: nat where "SIZE_32 = 32"
definition SIZE_64 :: nat where "SIZE_64 = 64"
definition BG_CHECKSUM_OFFSET :: nat where "BG_CHECKSUM_OFFSET = 0x1e"

record GroupDescriptor =
  gd_block_bitmap :: u64
  gd_inode_bitmap :: u64
  gd_inode_table :: u64
  gd_free_blocks_count :: u32
  gd_free_inodes_count :: u32
  gd_used_dirs_count :: u32
  gd_flags :: u16
  gd_itable_unused :: u32
  gd_checksum :: u16
  gd_block_bitmap_csum :: u32
  gd_inode_bitmap_csum :: u32

definition check_desc_size :: "nat \<Rightarrow> (ParseError, unit) outcome" where
  "check_desc_size desc_size =
     (if desc_size < SIZE_32 then Err (InvalidField ''GroupDescriptor'' ''s_desc_size'' desc_size) else Ok ())"

definition put_desc_low :: "GroupDescriptor \<Rightarrow> bytes \<Rightarrow> (ParseError, bytes) outcome" where
  "put_desc_low d b =
     andThen (put_u32 b 0x00 (ucast (gd_block_bitmap d))) (\<lambda>b.
     andThen (put_u32 b 0x04 (ucast (gd_inode_bitmap d))) (\<lambda>b.
     andThen (put_u32 b 0x08 (ucast (gd_inode_table d))) (\<lambda>b.
     andThen (put_u16 b 0x0c (ucast (gd_free_blocks_count d))) (\<lambda>b.
     andThen (put_u16 b 0x0e (ucast (gd_free_inodes_count d))) (\<lambda>b.
     andThen (put_u16 b 0x10 (ucast (gd_used_dirs_count d))) (\<lambda>b.
     andThen (put_u16 b 0x12 (gd_flags d)) (\<lambda>b.
     andThen (put_u16 b 0x18 (ucast (gd_block_bitmap_csum d))) (\<lambda>b.
     andThen (put_u16 b 0x1a (ucast (gd_inode_bitmap_csum d))) (\<lambda>b.
     andThen (put_u16 b 0x1c (ucast (gd_itable_unused d))) (\<lambda>b.
     put_u16 b 0x1e (gd_checksum d)))))))))))"

definition put_desc_high :: "GroupDescriptor \<Rightarrow> bytes \<Rightarrow> (ParseError, bytes) outcome" where
  "put_desc_high d b =
     andThen (put_u32 b 0x20 (ucast (drop_bit 32 (gd_block_bitmap d)))) (\<lambda>b.
     andThen (put_u32 b 0x24 (ucast (drop_bit 32 (gd_inode_bitmap d)))) (\<lambda>b.
     andThen (put_u32 b 0x28 (ucast (drop_bit 32 (gd_inode_table d)))) (\<lambda>b.
     andThen (put_u16 b 0x2c (ucast (drop_bit 16 (gd_free_blocks_count d)))) (\<lambda>b.
     andThen (put_u16 b 0x2e (ucast (drop_bit 16 (gd_free_inodes_count d)))) (\<lambda>b.
     andThen (put_u16 b 0x30 (ucast (drop_bit 16 (gd_used_dirs_count d)))) (\<lambda>b.
     andThen (put_u16 b 0x32 (ucast (drop_bit 16 (gd_itable_unused d)))) (\<lambda>b.
     andThen (put_u16 b 0x38 (ucast (drop_bit 16 (gd_block_bitmap_csum d)))) (\<lambda>b.
     put_u16 b 0x3a (ucast (drop_bit 16 (gd_inode_bitmap_csum d)))))))))))"

definition desc_write_to :: "GroupDescriptor \<Rightarrow> bytes \<Rightarrow> nat \<Rightarrow> (ParseError, bytes) outcome" where
  "desc_write_to d buf desc_size =
     andThen (check_desc_size desc_size) (\<lambda>_.
     if length buf < desc_size then Err (TooShort ''GroupDescriptor'' desc_size (length buf))
     else
     andThen (put_desc_low d buf) (\<lambda>buf.
     if SIZE_64 \<le> desc_size then put_desc_high d buf else Ok buf))"

definition get_high32 :: "bool \<Rightarrow> bytes \<Rightarrow> nat \<Rightarrow> (ParseError, u32) outcome" where
  "get_high32 wide buf off = (if wide then get_u32 buf off else Ok 0)"

definition get_high16 :: "bool \<Rightarrow> bytes \<Rightarrow> nat \<Rightarrow> (ParseError, u16) outcome" where
  "get_high16 wide buf off = (if wide then get_u16 buf off else Ok 0)"

definition desc_read_from :: "bytes \<Rightarrow> nat \<Rightarrow> (ParseError, GroupDescriptor) outcome" where
  "desc_read_from buf desc_size =
     andThen (check_desc_size desc_size) (\<lambda>_.
     if length buf < desc_size then Err (TooShort ''GroupDescriptor'' desc_size (length buf))
     else
     let wide = SIZE_64 \<le> desc_size in
     andThen (get_high32 wide buf 0x20) (\<lambda>bb_hi.
     andThen (get_high32 wide buf 0x24) (\<lambda>ib_hi.
     andThen (get_high32 wide buf 0x28) (\<lambda>it_hi.
     andThen (get_high16 wide buf 0x2c) (\<lambda>fb_hi.
     andThen (get_high16 wide buf 0x2e) (\<lambda>fi_hi.
     andThen (get_high16 wide buf 0x30) (\<lambda>ud_hi.
     andThen (get_high16 wide buf 0x32) (\<lambda>iu_hi.
     andThen (get_high16 wide buf 0x38) (\<lambda>bbc_hi.
     andThen (get_high16 wide buf 0x3a) (\<lambda>ibc_hi.
     andThen (get_u32 buf 0x00) (\<lambda>bb.
     andThen (get_u32 buf 0x04) (\<lambda>ib.
     andThen (get_u32 buf 0x08) (\<lambda>it.
     andThen (get_u16 buf 0x0c) (\<lambda>fb.
     andThen (get_u16 buf 0x0e) (\<lambda>fi.
     andThen (get_u16 buf 0x10) (\<lambda>ud.
     andThen (get_u16 buf 0x12) (\<lambda>flags.
     andThen (get_u16 buf 0x1c) (\<lambda>iu.
     andThen (get_u16 buf 0x1e) (\<lambda>checksum.
     andThen (get_u16 buf 0x18) (\<lambda>bbc.
     andThen (get_u16 buf 0x1a) (\<lambda>ibc.
     Ok \<lparr>gd_block_bitmap = join64 bb bb_hi, gd_inode_bitmap = join64 ib ib_hi, gd_inode_table = join64 it it_hi,
         gd_free_blocks_count = join32 fb fb_hi, gd_free_inodes_count = join32 fi fi_hi,
         gd_used_dirs_count = join32 ud ud_hi, gd_flags = flags, gd_itable_unused = join32 iu iu_hi,
         gd_checksum = checksum, gd_block_bitmap_csum = join32 bbc bbc_hi,
         gd_inode_bitmap_csum = join32 ibc ibc_hi\<rparr>)))))))))))))))))))))"

section \<open>The orphan block's tail\<close>

definition ORPHAN_BLOCK_MAGIC :: u32 where "ORPHAN_BLOCK_MAGIC = 0x0b10ca04"
definition ORPHAN_TAIL_LEN :: nat where "ORPHAN_TAIL_LEN = 8"

definition orphan_entries_len :: "nat \<Rightarrow> ('e, nat) outcome" where
  "orphan_entries_len block_size = sub64 block_size ORPHAN_TAIL_LEN"

definition orphan_tail_bytes :: "u32 \<Rightarrow> ('e, bytes) outcome" where
  "orphan_tail_bytes checksum =
     andThen (put_u32 (replicate ORPHAN_TAIL_LEN 0) 0 ORPHAN_BLOCK_MAGIC) (\<lambda>tail.
     put_u32 tail 4 checksum)"

definition read_orphan_tail :: "bytes \<Rightarrow> (ParseError, u32) outcome" where
  "read_orphan_tail block =
     (if length block < ORPHAN_TAIL_LEN
      then Err (TooShort ''OrphanBlockTail'' ORPHAN_TAIL_LEN (length block))
      else
      andThen (orphan_entries_len (length block)) (\<lambda>tail.
      andThen (get_u32 block tail) (\<lambda>magic.
      if magic \<noteq> ORPHAN_BLOCK_MAGIC
      then Err (BadMagic ''OrphanBlockTail'' (unat magic) (unat ORPHAN_BLOCK_MAGIC))
      else get_u32 block (tail + 4))))"

section \<open>The places of the descriptor\<close>

definition desc_low_places :: "GroupDescriptor \<Rightarrow> place list" where
  "desc_low_places d =
     [(0x00, 4, to_le 4 (ucast (gd_block_bitmap d) :: u32)), (0x04, 4, to_le 4 (ucast (gd_inode_bitmap d) :: u32)),
      (0x08, 4, to_le 4 (ucast (gd_inode_table d) :: u32)), (0x0c, 2, to_le 2 (ucast (gd_free_blocks_count d) :: u16)),
      (0x0e, 2, to_le 2 (ucast (gd_free_inodes_count d) :: u16)), (0x10, 2, to_le 2 (ucast (gd_used_dirs_count d) :: u16)),
      (0x12, 2, to_le 2 (gd_flags d)), (0x18, 2, to_le 2 (ucast (gd_block_bitmap_csum d) :: u16)),
      (0x1a, 2, to_le 2 (ucast (gd_inode_bitmap_csum d) :: u16)), (0x1c, 2, to_le 2 (ucast (gd_itable_unused d) :: u16)),
      (0x1e, 2, to_le 2 (gd_checksum d))]"

definition desc_high_places :: "GroupDescriptor \<Rightarrow> place list" where
  "desc_high_places d =
     [(0x20, 4, to_le 4 (ucast (drop_bit 32 (gd_block_bitmap d)) :: u32)), (0x24, 4, to_le 4 (ucast (drop_bit 32 (gd_inode_bitmap d)) :: u32)),
      (0x28, 4, to_le 4 (ucast (drop_bit 32 (gd_inode_table d)) :: u32)), (0x2c, 2, to_le 2 (ucast (drop_bit 16 (gd_free_blocks_count d)) :: u16)),
      (0x2e, 2, to_le 2 (ucast (drop_bit 16 (gd_free_inodes_count d)) :: u16)), (0x30, 2, to_le 2 (ucast (drop_bit 16 (gd_used_dirs_count d)) :: u16)),
      (0x32, 2, to_le 2 (ucast (drop_bit 16 (gd_itable_unused d)) :: u16)), (0x38, 2, to_le 2 (ucast (drop_bit 16 (gd_block_bitmap_csum d)) :: u16)),
      (0x3a, 2, to_le 2 (ucast (drop_bit 16 (gd_inode_bitmap_csum d)) :: u16))]"

definition desc_places :: "GroupDescriptor \<Rightarrow> nat \<Rightarrow> place list" where
  "desc_places d desc_size = desc_low_places d @ (if 64 \<le> desc_size then desc_high_places d else [])"

lemma ascending_desc: "32 \<le> desc_size \<Longrightarrow> desc_size \<le> n \<Longrightarrow> ascending 0 (desc_places d desc_size) n"
  by (auto simp: desc_places_def desc_low_places_def desc_high_places_def simp del: to_le.simps)

lemma desc_write_fields:
  "desc_write_to d buf desc_size =
    (if desc_size < 32 then Err (InvalidField ''GroupDescriptor'' ''s_desc_size'' desc_size)
     else if length buf < desc_size then Err (TooShort ''GroupDescriptor'' desc_size (length buf))
     else put_fields buf (desc_places d desc_size))"
proof -
  have "put_desc_low d b = put_fields b (desc_low_places d)" "put_desc_high d b = put_fields b (desc_high_places d)" for b
    by (simp_all add: put_desc_low_def put_desc_high_def desc_low_places_def desc_high_places_def field_puts
        del: andThen_Ok_iff to_le.simps)
  then show ?thesis
    by (simp add: desc_write_to_def check_desc_size_def SIZE_32_def SIZE_64_def desc_places_def put_fields_append
        del: andThen_Ok_iff)
qed

lemma desc_written:
  assumes "32 \<le> desc_size" "desc_size \<le> length buf"
  shows "desc_write_to d buf desc_size = Ok (splices buf (desc_places d desc_size))"
    "length (splices buf (desc_places d desc_size)) = length buf"
  using assms ascending_desc [OF assms, of d] put_fields_eq length_splices
  by (auto simp: desc_write_fields)

lemma desc_restamp:
  assumes "32 \<le> desc_size" "desc_size \<le> length buf"
  shows "splice (splices buf (desc_places d desc_size)) BG_CHECKSUM_OFFSET (to_le 2 c)
    = splices buf (desc_places (d\<lparr>gd_checksum := c\<rparr>) desc_size)"
proof -
  have split: "desc_places (d\<lparr>gd_checksum := c\<rparr>) desc_size
      = butlast (desc_low_places d) @ (0x1e, 2, to_le 2 c) # (if 64 \<le> desc_size then desc_high_places d else [])" for c
    by (simp add: desc_places_def desc_low_places_def desc_high_places_def del: to_le.simps)
  have d: "d = d\<lparr>gd_checksum := gd_checksum d\<rparr>" by simp
  show ?thesis
    using ascending_desc [OF assms, of d] splices_restamp [of 0 _ "0x1e" 2 "to_le 2 (gd_checksum d)" _ buf "to_le 2 c"]
    unfolding split BG_CHECKSUM_OFFSET_def by (subst d, subst split) (subst (asm) d, subst (asm) split, simp del: to_le.simps)
qed

text \<open>What a width holds of a descriptor.\<close>

definition desc_kept :: "nat \<Rightarrow> GroupDescriptor \<Rightarrow> GroupDescriptor" where
  "desc_kept desc_size d =
     (if SIZE_64 \<le> desc_size then d
      else d\<lparr>gd_block_bitmap := take_bit 32 (gd_block_bitmap d), gd_inode_bitmap := take_bit 32 (gd_inode_bitmap d),
             gd_inode_table := take_bit 32 (gd_inode_table d), gd_free_blocks_count := take_bit 16 (gd_free_blocks_count d),
             gd_free_inodes_count := take_bit 16 (gd_free_inodes_count d), gd_used_dirs_count := take_bit 16 (gd_used_dirs_count d),
             gd_itable_unused := take_bit 16 (gd_itable_unused d), gd_block_bitmap_csum := take_bit 16 (gd_block_bitmap_csum d),
             gd_inode_bitmap_csum := take_bit 16 (gd_inode_bitmap_csum d)\<rparr>)"

lemma join_halves:
  "join32 (ucast v) (if c then ucast (drop_bit 16 v) else 0) = (if c then v else take_bit 16 v)"
  "join64 (ucast w) (if c then ucast (drop_bit 32 w) else 0) = (if c then w else take_bit 32 w)"
  by (cases c; simp; rule bit_word_eqI; auto simp: join32_def join64_def bit_simps)+

lemma held_desc_reads:
  assumes held: "list_all (place_held b) (desc_places d desc_size)" and size: "32 \<le> desc_size" "desc_size \<le> length b"
  shows "desc_read_from b desc_size = Ok (desc_kept desc_size d)"
proof -
  let ?c = "64 \<le> desc_size"
  have places: "list_all (place_held b) (desc_low_places d)" "?c \<Longrightarrow> list_all (place_held b) (desc_high_places d)"
    using held by (simp_all add: desc_places_def)
  note h = places(1) [unfolded desc_low_places_def list.pred_inject place_held_simps]
  have low: "(get_u32 b 0x00 :: (ParseError, u32) outcome) = Ok (ucast (gd_block_bitmap d))"
    "(get_u32 b 0x04 :: (ParseError, u32) outcome) = Ok (ucast (gd_inode_bitmap d))"
    "(get_u32 b 0x08 :: (ParseError, u32) outcome) = Ok (ucast (gd_inode_table d))"
    "(get_u16 b 0x0c :: (ParseError, u16) outcome) = Ok (ucast (gd_free_blocks_count d))"
    "(get_u16 b 0x0e :: (ParseError, u16) outcome) = Ok (ucast (gd_free_inodes_count d))"
    "(get_u16 b 0x10 :: (ParseError, u16) outcome) = Ok (ucast (gd_used_dirs_count d))"
    "(get_u16 b 0x12 :: (ParseError, u16) outcome) = Ok (gd_flags d)"
    "(get_u16 b 0x18 :: (ParseError, u16) outcome) = Ok (ucast (gd_block_bitmap_csum d))"
    "(get_u16 b 0x1a :: (ParseError, u16) outcome) = Ok (ucast (gd_inode_bitmap_csum d))"
    "(get_u16 b 0x1c :: (ParseError, u16) outcome) = Ok (ucast (gd_itable_unused d))"
    "(get_u16 b 0x1e :: (ParseError, u16) outcome) = Ok (gd_checksum d)"
    by (rule f16.get_held f32.get_held, simp only: h simp_thms)+
  have high: "get_high32 ?c b 0x20 = Ok (if ?c then ucast (drop_bit 32 (gd_block_bitmap d)) else 0)"
    "get_high32 ?c b 0x24 = Ok (if ?c then ucast (drop_bit 32 (gd_inode_bitmap d)) else 0)"
    "get_high32 ?c b 0x28 = Ok (if ?c then ucast (drop_bit 32 (gd_inode_table d)) else 0)"
    "get_high16 ?c b 0x2c = Ok (if ?c then ucast (drop_bit 16 (gd_free_blocks_count d)) else 0)"
    "get_high16 ?c b 0x2e = Ok (if ?c then ucast (drop_bit 16 (gd_free_inodes_count d)) else 0)"
    "get_high16 ?c b 0x30 = Ok (if ?c then ucast (drop_bit 16 (gd_used_dirs_count d)) else 0)"
    "get_high16 ?c b 0x32 = Ok (if ?c then ucast (drop_bit 16 (gd_itable_unused d)) else 0)"
    "get_high16 ?c b 0x38 = Ok (if ?c then ucast (drop_bit 16 (gd_block_bitmap_csum d)) else 0)"
    "get_high16 ?c b 0x3a = Ok (if ?c then ucast (drop_bit 16 (gd_inode_bitmap_csum d)) else 0)"
    using places(2) [unfolded desc_high_places_def list.pred_inject place_held_simps]
    by (auto simp: get_high32_def get_high16_def intro!: f16.get_held f32.get_held simp del: to_le.simps)
  show ?thesis
    using size
    by (simp add: desc_read_from_def check_desc_size_def SIZE_32_def SIZE_64_def Let_def low high join_halves desc_kept_def)
qed

section \<open>What they promise\<close>

lemma desc_write_read:
  assumes "32 \<le> desc_size" "desc_size \<le> length buf"
  shows "desc_read_from (splices buf (desc_places d desc_size)) desc_size = Ok (desc_kept desc_size d)"
    "drop desc_size (splices buf (desc_places d desc_size)) = drop desc_size buf"
proof -
  note asc = ascending_desc [OF assms, of d]
  show "desc_read_from (splices buf (desc_places d desc_size)) desc_size = Ok (desc_kept desc_size d)"
    using splices_hold [OF asc] length_splices [OF asc] assms by (intro held_desc_reads) simp_all
  have "list_all (\<lambda>(off, w, v). v = [] \<or> off + w \<le> desc_size) (desc_places d desc_size)"
    using assms(1) by (auto simp: desc_places_def desc_low_places_def desc_high_places_def simp del: to_le.simps)
  then show "drop desc_size (splices buf (desc_places d desc_size)) = drop desc_size buf"
    by (rule splices_after [OF asc])
qed

text \<open>
  C19: A group descriptor written at a size reads back as what that size holds of it, whole from 64
  bytes on and as its low halves below, with every byte past the size left alone. Both directions
  refuse the same sizes and buffers, with the same errors, and neither panics.
\<close>

theorem descriptor_reads_back:
  "if desc_size < 32 \<or> length buf < desc_size
   then \<exists>e. desc_write_to d buf desc_size = Err e \<and> desc_read_from buf desc_size = Err e
   else \<exists>buf'. desc_write_to d buf desc_size = Ok buf' \<and> length buf' = length buf
     \<and> drop desc_size buf' = drop desc_size buf
     \<and> desc_read_from buf' desc_size = Ok (desc_kept desc_size d)
     \<and> (64 \<le> desc_size \<longrightarrow> desc_read_from buf' desc_size = Ok d)"
proof (cases "desc_size < 32 \<or> length buf < desc_size")
  case True
  then show ?thesis
    by (auto simp: desc_write_fields desc_read_from_def check_desc_size_def SIZE_32_def)
next
  case False
  then have size: "32 \<le> desc_size" "desc_size \<le> length buf" by auto
  show ?thesis
    using False desc_written [OF size] desc_write_read [OF size] by (simp add: desc_kept_def SIZE_64_def)
qed

definition example_desc :: GroupDescriptor where
  "example_desc = \<lparr>gd_block_bitmap = 5, gd_inode_bitmap = 9, gd_inode_table = 0x10000000D, gd_free_blocks_count = 30701,
     gd_free_inodes_count = 8181, gd_used_dirs_count = 2, gd_flags = BG_INODE_ZEROED, gd_itable_unused = 0,
     gd_checksum = 0, gd_block_bitmap_csum = 0, gd_inode_bitmap_csum = 0\<rparr>"

theorem descriptor_reads_back_witness:
  "\<exists>b. desc_write_to example_desc (replicate 64 0) 64 = Ok b \<and> desc_read_from b 64 = Ok example_desc"
  using descriptor_reads_back [where buf = "replicate 64 0" and desc_size = 64 and d = example_desc] by auto

lemma orphan_tail_reads_back:
  "\<exists>tail. orphan_tail_bytes checksum = (Ok tail :: (ParseError, bytes) outcome) \<and> length tail = ORPHAN_TAIL_LEN
    \<and> read_orphan_tail (entries @ tail) = Ok checksum"
proof -
  let ?t = "splice (splice (replicate 8 0) 0 (to_le 4 ORPHAN_BLOCK_MAGIC)) 4 (to_le 4 checksum)"
  have len: "length ?t = 8" by (simp del: to_le.simps)
  have take: "take 4 (drop 0 ?t) = to_le 4 ORPHAN_BLOCK_MAGIC" "take 4 (drop 4 ?t) = to_le 4 checksum"
    using take_drop_splice_same [of 0 "to_le 4 ORPHAN_BLOCK_MAGIC" "replicate 8 0"]
      take_drop_splice_same [of 4 "to_le 4 checksum" "splice (replicate 8 0) 0 (to_le 4 ORPHAN_BLOCK_MAGIC)"]
    by (simp_all add: take_drop_splice_other del: to_le.simps drop0)
  have "(get_u32 (entries @ ?t) (length entries) :: (ParseError, u32) outcome) = Ok ORPHAN_BLOCK_MAGIC"
    using take(1) by (intro f32.get_at) (simp del: to_le.simps)
  moreover have "(get_u32 (entries @ ?t) (length entries + 4) :: (ParseError, u32) outcome) = Ok checksum"
    using take(2) by (intro f32.get_at) (simp del: to_le.simps)
  ultimately have "read_orphan_tail (entries @ ?t) = Ok checksum"
    using len by (simp add: read_orphan_tail_def orphan_entries_len_def ORPHAN_TAIL_LEN_def del: to_le.simps)
  moreover have "orphan_tail_bytes checksum = (Ok ?t :: (ParseError, bytes) outcome)"
    by (simp add: orphan_tail_bytes_def ORPHAN_TAIL_LEN_def f32.put_law del: to_le.simps)
  ultimately show ?thesis using len by (auto simp: ORPHAN_TAIL_LEN_def)
qed

end
