(* ===== verification/Superblock.thy ===== *)
theory Superblock
  imports FieldRuns Crc32c
begin

text \<open>
  The superblock of \<^verbatim>\<open>crates/ferrosys/src/ondisk/superblock.rs\<close>: its record of fields, the 1024 bytes
  it is written as, and the parse, whose three block counts have a high half only under \<^verbatim>\<open>64bit\<close>.
  Arrays of bytes are lists, so their lengths are hypotheses where they matter.
\<close>

section \<open>The constants of the format\<close>

definition SUPERBLOCK_MAGIC :: u16 where "SUPERBLOCK_MAGIC = 0xef53"
definition STATE_CLEAN :: u16 where "STATE_CLEAN = 1"
definition STATE_ERRORS :: u16 where "STATE_ERRORS = 2"
definition INCOMPAT_64BIT_ext :: u32 where "INCOMPAT_64BIT_ext = 0x0080"
definition SUPERBLOCK_LEN :: nat where "SUPERBLOCK_LEN = 1024"
definition MAGIC_OFFSET :: nat where "MAGIC_OFFSET = 0x38"
definition FEATURE_INCOMPAT_OFFSET :: nat where "FEATURE_INCOMPAT_OFFSET = 0x60"
definition UUID_OFFSET :: nat where "UUID_OFFSET = 0x68"
definition VOLUME_NAME_OFFSET :: nat where "VOLUME_NAME_OFFSET = 0x78"
definition CHECKSUM_SEED_OFFSET :: nat where "CHECKSUM_SEED_OFFSET = 0x270"
definition CHECKSUM_OFFSET :: nat where "CHECKSUM_OFFSET = SUPERBLOCK_LEN - 4"

lemmas superblock_offsets = SUPERBLOCK_LEN_def MAGIC_OFFSET_def FEATURE_INCOMPAT_OFFSET_def UUID_OFFSET_def
  VOLUME_NAME_OFFSET_def CHECKSUM_SEED_OFFSET_def CHECKSUM_OFFSET_def

text \<open>The name a NUL-padded field holds.\<close>

definition unpadded :: "bytes \<Rightarrow> bytes" where
  "unpadded field = takeWhile (\<lambda>b. b \<noteq> 0) field"

definition superblock_checksum_ext :: "bytes \<Rightarrow> ('e, u32) outcome" where
  "superblock_checksum_ext bs =
     (if SUPERBLOCK_LEN \<le> length bs
      then andThen (slice bs 0 CHECKSUM_OFFSET) (\<lambda>covered. Ok (crc32c (NOT 0) covered))
      else Panic)"

section \<open>The record\<close>

record SuperBlock =
  sb_inodes_count :: u32
  sb_blocks_count :: u64
  sb_r_blocks_count :: u64
  sb_free_blocks_count :: u64
  sb_free_inodes_count :: u32
  sb_first_data_block :: u32
  sb_log_block_size :: u32
  sb_log_cluster_size :: u32
  sb_blocks_per_group :: u32
  sb_clusters_per_group :: u32
  sb_inodes_per_group :: u32
  sb_mtime :: u32
  sb_wtime :: u32
  sb_mnt_count :: u16
  sb_max_mnt_count :: u16
  sb_magic :: u16
  sb_state :: u16
  sb_errors :: u16
  sb_minor_rev_level :: u16
  sb_lastcheck :: u32
  sb_checkinterval :: u32
  sb_creator_os :: u32
  sb_rev_level :: u32
  sb_def_resuid :: u16
  sb_def_resgid :: u16
  sb_first_ino :: u32
  sb_inode_size :: u16
  sb_block_group_nr :: u16
  sb_feature_compat :: u32
  sb_feature_incompat :: u32
  sb_feature_ro_compat :: u32
  sb_uuid :: bytes
  sb_volume_name :: bytes
  sb_last_mounted :: bytes
  sb_reserved_gdt_blocks :: u16
  sb_journal_inum :: u32
  sb_jnl_backup_type :: u8
  sb_jnl_blocks :: "u32 list"
  sb_hash_seed :: bytes
  sb_def_hash_version :: u8
  sb_desc_size :: u16
  sb_default_mount_opts :: u32
  sb_first_meta_bg :: u32
  sb_mkfs_time :: u32
  sb_min_extra_isize :: u16
  sb_want_extra_isize :: u16
  sb_flags :: u32
  sb_log_groups_per_flex :: u8
  sb_checksum_type :: u8
  sb_kbytes_written :: u64
  sb_overhead_clusters :: u32
  sb_backup_bgs :: "u32 list"
  sb_checksum_seed :: u32
  sb_orphan_file_inum :: u32
  sb_checksum :: u32

definition new_superblock :: SuperBlock where
  "new_superblock =
     \<lparr>sb_inodes_count = 0, sb_blocks_count = 0, sb_r_blocks_count = 0, sb_free_blocks_count = 0,
      sb_free_inodes_count = 0, sb_first_data_block = 0, sb_log_block_size = 0, sb_log_cluster_size = 0,
      sb_blocks_per_group = 0, sb_clusters_per_group = 0, sb_inodes_per_group = 0, sb_mtime = 0,
      sb_wtime = 0, sb_mnt_count = 0, sb_max_mnt_count = 0, sb_magic = SUPERBLOCK_MAGIC,
      sb_state = 0, sb_errors = 0, sb_minor_rev_level = 0, sb_lastcheck = 0,
      sb_checkinterval = 0, sb_creator_os = 0, sb_rev_level = 0, sb_def_resuid = 0,
      sb_def_resgid = 0, sb_first_ino = 0, sb_inode_size = 0, sb_block_group_nr = 0,
      sb_feature_compat = 0, sb_feature_incompat = 0, sb_feature_ro_compat = 0, sb_uuid = replicate 16 0,
      sb_volume_name = replicate 16 0, sb_last_mounted = replicate 64 0, sb_reserved_gdt_blocks = 0, sb_journal_inum = 0,
      sb_jnl_backup_type = 0, sb_jnl_blocks = replicate 17 0, sb_hash_seed = replicate 16 0, sb_def_hash_version = 0,
      sb_desc_size = 0, sb_default_mount_opts = 0, sb_first_meta_bg = 0, sb_mkfs_time = 0,
      sb_min_extra_isize = 0, sb_want_extra_isize = 0, sb_flags = 0, sb_log_groups_per_flex = 0,
      sb_checksum_type = 0, sb_kbytes_written = 0, sb_overhead_clusters = 0, sb_backup_bgs = replicate 2 0,
      sb_checksum_seed = 0, sb_orphan_file_inum = 0, sb_checksum = 0\<rparr>"

section \<open>Writing\<close>

definition put_words :: "bytes \<Rightarrow> nat \<Rightarrow> u32 list \<Rightarrow> ('e, bytes) outcome" where
  "put_words b off ws = foldOutcome (\<lambda>b (i, w). put_u32 b (off + i * 4) w) b (List.enumerate 0 ws)"

definition put_head :: "SuperBlock \<Rightarrow> bytes \<Rightarrow> ('e, bytes) outcome" where
  "put_head s b =
     andThen (put_u32 b 0x00 (sb_inodes_count s)) (\<lambda>b.
     andThen (put_u32 b 0x04 (fst (split64 (sb_blocks_count s)))) (\<lambda>b.
     andThen (put_u32 b 0x08 (fst (split64 (sb_r_blocks_count s)))) (\<lambda>b.
     andThen (put_u32 b 0x0c (fst (split64 (sb_free_blocks_count s)))) (\<lambda>b.
     andThen (put_u32 b 0x10 (sb_free_inodes_count s)) (\<lambda>b.
     andThen (put_u32 b 0x14 (sb_first_data_block s)) (\<lambda>b.
     andThen (put_u32 b 0x18 (sb_log_block_size s)) (\<lambda>b.
     andThen (put_u32 b 0x1c (sb_log_cluster_size s)) (\<lambda>b.
     andThen (put_u32 b 0x20 (sb_blocks_per_group s)) (\<lambda>b.
     andThen (put_u32 b 0x24 (sb_clusters_per_group s)) (\<lambda>b.
     andThen (put_u32 b 0x28 (sb_inodes_per_group s)) (\<lambda>b.
     andThen (put_u32 b 0x2c (sb_mtime s)) (\<lambda>b.
     andThen (put_u32 b 0x30 (sb_wtime s)) (\<lambda>b.
     andThen (put_u16 b 0x34 (sb_mnt_count s)) (\<lambda>b.
     andThen (put_u16 b 0x36 (sb_max_mnt_count s)) (\<lambda>b.
     andThen (put_u16 b MAGIC_OFFSET (sb_magic s)) (\<lambda>b.
     andThen (put_u16 b 0x3a (sb_state s)) (\<lambda>b.
     andThen (put_u16 b 0x3c (sb_errors s)) (\<lambda>b.
     andThen (put_u16 b 0x3e (sb_minor_rev_level s)) (\<lambda>b.
     andThen (put_u32 b 0x40 (sb_lastcheck s)) (\<lambda>b.
     andThen (put_u32 b 0x44 (sb_checkinterval s)) (\<lambda>b.
     andThen (put_u32 b 0x48 (sb_creator_os s)) (\<lambda>b.
     andThen (put_u32 b 0x4c (sb_rev_level s)) (\<lambda>b.
     andThen (put_u16 b 0x50 (sb_def_resuid s)) (\<lambda>b.
     andThen (put_u16 b 0x52 (sb_def_resgid s)) (\<lambda>b.
     andThen (put_u32 b 0x54 (sb_first_ino s)) (\<lambda>b.
     andThen (put_u16 b 0x58 (sb_inode_size s)) (\<lambda>b.
     andThen (put_u16 b 0x5a (sb_block_group_nr s)) (\<lambda>b.
     andThen (put_u32 b 0x5c (sb_feature_compat s)) (\<lambda>b.
     andThen (put_u32 b FEATURE_INCOMPAT_OFFSET (sb_feature_incompat s)) (\<lambda>b.
     andThen (put_u32 b 0x64 (sb_feature_ro_compat s)) (\<lambda>b.
     andThen (put_arr b UUID_OFFSET (sb_uuid s)) (\<lambda>b.
     andThen (put_arr b VOLUME_NAME_OFFSET (sb_volume_name s)) (\<lambda>b.
     andThen (put_arr b 0x88 (sb_last_mounted s)) (\<lambda>b.
     andThen (put_u16 b 0xce (sb_reserved_gdt_blocks s)) (\<lambda>b.
     andThen (put_u32 b 0xe0 (sb_journal_inum s)) (\<lambda>b.
     andThen (put_arr b 0xec (sb_hash_seed s)) (\<lambda>b.
     andThen (put_u8 b 0xfc (sb_def_hash_version s)) (\<lambda>b.
     andThen (put_u8 b 0xfd (sb_jnl_backup_type s)) (\<lambda>b.
     andThen (put_u16 b 0xfe (sb_desc_size s)) (\<lambda>b.
     andThen (put_u32 b 0x100 (sb_default_mount_opts s)) (\<lambda>b.
     andThen (put_u32 b 0x104 (sb_first_meta_bg s)) (\<lambda>b.
     put_u32 b 0x108 (sb_mkfs_time s)))))))))))))))))))))))))))))))))))))))))))"

definition put_rest :: "SuperBlock \<Rightarrow> bytes \<Rightarrow> ('e, bytes) outcome" where
  "put_rest s b =
     andThen (put_u32 b 0x150 (snd (split64 (sb_blocks_count s)))) (\<lambda>b.
     andThen (put_u32 b 0x154 (snd (split64 (sb_r_blocks_count s)))) (\<lambda>b.
     andThen (put_u32 b 0x158 (snd (split64 (sb_free_blocks_count s)))) (\<lambda>b.
     andThen (put_u16 b 0x15c (sb_min_extra_isize s)) (\<lambda>b.
     andThen (put_u16 b 0x15e (sb_want_extra_isize s)) (\<lambda>b.
     andThen (put_u32 b 0x160 (sb_flags s)) (\<lambda>b.
     andThen (put_u8 b 0x174 (sb_log_groups_per_flex s)) (\<lambda>b.
     andThen (put_u8 b 0x175 (sb_checksum_type s)) (\<lambda>b.
     andThen (put_u32 b 0x178 (fst (split64 (sb_kbytes_written s)))) (\<lambda>b.
     andThen (put_u32 b 0x17c (snd (split64 (sb_kbytes_written s)))) (\<lambda>b.
     andThen (put_u32 b 0x248 (sb_overhead_clusters s)) (\<lambda>b.
     andThen (put_u32 b 0x24c (sb_backup_bgs s ! 0)) (\<lambda>b.
     andThen (put_u32 b 0x250 (sb_backup_bgs s ! 1)) (\<lambda>b.
     andThen (put_u32 b CHECKSUM_SEED_OFFSET (sb_checksum_seed s)) (\<lambda>b.
     andThen (put_u32 b 0x280 (sb_orphan_file_inum s)) (\<lambda>b.
     put_u32 b CHECKSUM_OFFSET (sb_checksum s))))))))))))))))"

definition superblock_to_bytes :: "SuperBlock \<Rightarrow> ('e, bytes) outcome" where
  "superblock_to_bytes s =
     andThen (put_head s (replicate SUPERBLOCK_LEN 0)) (\<lambda>b.
     andThen (put_words b 0x10c (sb_jnl_blocks s)) (\<lambda>b.
     put_rest s b))"

section \<open>Reading\<close>

definition get_words :: "nat \<Rightarrow> bytes \<Rightarrow> nat \<Rightarrow> ('e, u32 list) outcome" where
  "get_words n buf off = mapOutcome (\<lambda>i. get_u32 buf (off + i * 4)) [0..<n]"

definition get_hi :: "bytes \<Rightarrow> nat \<Rightarrow> ('e, u32) outcome" where
  "get_hi buf off =
     andThen (get_u32 buf FEATURE_INCOMPAT_OFFSET) (\<lambda>incompat.
     if incompat AND INCOMPAT_64BIT_ext \<noteq> 0 then get_u32 buf off else Ok 0)"

definition superblock_read_from :: "bytes \<Rightarrow> (ParseError, SuperBlock) outcome" where
  "superblock_read_from buf =
     (if length buf < SUPERBLOCK_LEN then Err (TooShort ''SuperBlock'' SUPERBLOCK_LEN (length buf))
      else
      andThen (get_u16 buf MAGIC_OFFSET) (\<lambda>magic.
      if magic \<noteq> SUPERBLOCK_MAGIC
      then Err (BadMagic ''SuperBlock'' (unat magic) (unat SUPERBLOCK_MAGIC))
      else
      andThen (get_u32 buf 0x00) (\<lambda>v_inodes_count.
      andThen (get_u32 buf 0x04) (\<lambda>v_blocks_count_lo.
      andThen (get_hi buf 0x150) (\<lambda>v_blocks_count_hi.
      andThen (get_u32 buf 0x08) (\<lambda>v_r_blocks_count_lo.
      andThen (get_hi buf 0x154) (\<lambda>v_r_blocks_count_hi.
      andThen (get_u32 buf 0x0c) (\<lambda>v_free_blocks_count_lo.
      andThen (get_hi buf 0x158) (\<lambda>v_free_blocks_count_hi.
      andThen (get_u32 buf 0x10) (\<lambda>v_free_inodes_count.
      andThen (get_u32 buf 0x14) (\<lambda>v_first_data_block.
      andThen (get_u32 buf 0x18) (\<lambda>v_log_block_size.
      andThen (get_u32 buf 0x1c) (\<lambda>v_log_cluster_size.
      andThen (get_u32 buf 0x20) (\<lambda>v_blocks_per_group.
      andThen (get_u32 buf 0x24) (\<lambda>v_clusters_per_group.
      andThen (get_u32 buf 0x28) (\<lambda>v_inodes_per_group.
      andThen (get_u32 buf 0x2c) (\<lambda>v_mtime.
      andThen (get_u32 buf 0x30) (\<lambda>v_wtime.
      andThen (get_u16 buf 0x34) (\<lambda>v_mnt_count.
      andThen (get_u16 buf 0x36) (\<lambda>v_max_mnt_count.
      andThen (get_u16 buf 0x3a) (\<lambda>v_state.
      andThen (get_u16 buf 0x3c) (\<lambda>v_errors.
      andThen (get_u16 buf 0x3e) (\<lambda>v_minor_rev_level.
      andThen (get_u32 buf 0x40) (\<lambda>v_lastcheck.
      andThen (get_u32 buf 0x44) (\<lambda>v_checkinterval.
      andThen (get_u32 buf 0x48) (\<lambda>v_creator_os.
      andThen (get_u32 buf 0x4c) (\<lambda>v_rev_level.
      andThen (get_u16 buf 0x50) (\<lambda>v_def_resuid.
      andThen (get_u16 buf 0x52) (\<lambda>v_def_resgid.
      andThen (get_u32 buf 0x54) (\<lambda>v_first_ino.
      andThen (get_u16 buf 0x58) (\<lambda>v_inode_size.
      andThen (get_u16 buf 0x5a) (\<lambda>v_block_group_nr.
      andThen (get_u32 buf 0x5c) (\<lambda>v_feature_compat.
      andThen (get_u32 buf FEATURE_INCOMPAT_OFFSET) (\<lambda>v_feature_incompat.
      andThen (get_u32 buf 0x64) (\<lambda>v_feature_ro_compat.
      andThen (get_arr 16 buf UUID_OFFSET) (\<lambda>v_uuid.
      andThen (get_arr 16 buf VOLUME_NAME_OFFSET) (\<lambda>v_volume_name.
      andThen (get_arr 64 buf 0x88) (\<lambda>v_last_mounted.
      andThen (get_u16 buf 0xce) (\<lambda>v_reserved_gdt_blocks.
      andThen (get_u32 buf 0xe0) (\<lambda>v_journal_inum.
      andThen (get_u8 buf 0xfd) (\<lambda>v_jnl_backup_type.
      andThen (get_words 17 buf 0x10c) (\<lambda>v_jnl_blocks.
      andThen (get_arr 16 buf 0xec) (\<lambda>v_hash_seed.
      andThen (get_u8 buf 0xfc) (\<lambda>v_def_hash_version.
      andThen (get_u16 buf 0xfe) (\<lambda>v_desc_size.
      andThen (get_u32 buf 0x100) (\<lambda>v_default_mount_opts.
      andThen (get_u32 buf 0x104) (\<lambda>v_first_meta_bg.
      andThen (get_u32 buf 0x108) (\<lambda>v_mkfs_time.
      andThen (get_u16 buf 0x15c) (\<lambda>v_min_extra_isize.
      andThen (get_u16 buf 0x15e) (\<lambda>v_want_extra_isize.
      andThen (get_u32 buf 0x160) (\<lambda>v_flags.
      andThen (get_u8 buf 0x174) (\<lambda>v_log_groups_per_flex.
      andThen (get_u8 buf 0x175) (\<lambda>v_checksum_type.
      andThen (get_u32 buf 0x178) (\<lambda>v_kbytes_written_lo.
      andThen (get_u32 buf 0x17c) (\<lambda>v_kbytes_written_hi.
      andThen (get_u32 buf 0x248) (\<lambda>v_overhead_clusters.
      andThen (get_u32 buf 0x24c) (\<lambda>v_backup_bgs0.
      andThen (get_u32 buf 0x250) (\<lambda>v_backup_bgs1.
      andThen (get_u32 buf CHECKSUM_SEED_OFFSET) (\<lambda>v_checksum_seed.
      andThen (get_u32 buf 0x280) (\<lambda>v_orphan_file_inum.
      andThen (get_u32 buf CHECKSUM_OFFSET) (\<lambda>v_checksum.
      Ok \<lparr>sb_inodes_count = v_inodes_count, sb_blocks_count = join64 v_blocks_count_lo v_blocks_count_hi, sb_r_blocks_count = join64 v_r_blocks_count_lo v_r_blocks_count_hi, sb_free_blocks_count = join64 v_free_blocks_count_lo v_free_blocks_count_hi,
          sb_free_inodes_count = v_free_inodes_count, sb_first_data_block = v_first_data_block, sb_log_block_size = v_log_block_size, sb_log_cluster_size = v_log_cluster_size,
          sb_blocks_per_group = v_blocks_per_group, sb_clusters_per_group = v_clusters_per_group, sb_inodes_per_group = v_inodes_per_group, sb_mtime = v_mtime,
          sb_wtime = v_wtime, sb_mnt_count = v_mnt_count, sb_max_mnt_count = v_max_mnt_count, sb_magic = magic,
          sb_state = v_state, sb_errors = v_errors, sb_minor_rev_level = v_minor_rev_level, sb_lastcheck = v_lastcheck,
          sb_checkinterval = v_checkinterval, sb_creator_os = v_creator_os, sb_rev_level = v_rev_level, sb_def_resuid = v_def_resuid,
          sb_def_resgid = v_def_resgid, sb_first_ino = v_first_ino, sb_inode_size = v_inode_size, sb_block_group_nr = v_block_group_nr,
          sb_feature_compat = v_feature_compat, sb_feature_incompat = v_feature_incompat, sb_feature_ro_compat = v_feature_ro_compat, sb_uuid = v_uuid,
          sb_volume_name = v_volume_name, sb_last_mounted = v_last_mounted, sb_reserved_gdt_blocks = v_reserved_gdt_blocks, sb_journal_inum = v_journal_inum,
          sb_jnl_backup_type = v_jnl_backup_type, sb_jnl_blocks = v_jnl_blocks, sb_hash_seed = v_hash_seed, sb_def_hash_version = v_def_hash_version,
          sb_desc_size = v_desc_size, sb_default_mount_opts = v_default_mount_opts, sb_first_meta_bg = v_first_meta_bg, sb_mkfs_time = v_mkfs_time,
          sb_min_extra_isize = v_min_extra_isize, sb_want_extra_isize = v_want_extra_isize, sb_flags = v_flags, sb_log_groups_per_flex = v_log_groups_per_flex,
          sb_checksum_type = v_checksum_type, sb_kbytes_written = join64 v_kbytes_written_lo v_kbytes_written_hi, sb_overhead_clusters = v_overhead_clusters, sb_backup_bgs = [v_backup_bgs0, v_backup_bgs1],
          sb_checksum_seed = v_checksum_seed, sb_orphan_file_inum = v_orphan_file_inum, sb_checksum = v_checksum\<rparr>)))))))))))))))))))))))))))))))))))))))))))))))))))))))))))))"

section \<open>The places of the record\<close>

definition head_places :: "SuperBlock \<Rightarrow> place list" where
  "head_places s =
     [(0x00, 4, to_le 4 (sb_inodes_count s)), (0x04, 4, to_le 4 (fst (split64 (sb_blocks_count s)))), (0x08, 4, to_le 4 (fst (split64 (sb_r_blocks_count s)))),
      (0x0c, 4, to_le 4 (fst (split64 (sb_free_blocks_count s)))), (0x10, 4, to_le 4 (sb_free_inodes_count s)), (0x14, 4, to_le 4 (sb_first_data_block s)),
      (0x18, 4, to_le 4 (sb_log_block_size s)), (0x1c, 4, to_le 4 (sb_log_cluster_size s)), (0x20, 4, to_le 4 (sb_blocks_per_group s)),
      (0x24, 4, to_le 4 (sb_clusters_per_group s)), (0x28, 4, to_le 4 (sb_inodes_per_group s)), (0x2c, 4, to_le 4 (sb_mtime s)),
      (0x30, 4, to_le 4 (sb_wtime s)), (0x34, 2, to_le 2 (sb_mnt_count s)), (0x36, 2, to_le 2 (sb_max_mnt_count s)),
      (0x38, 2, to_le 2 (sb_magic s)), (0x3a, 2, to_le 2 (sb_state s)), (0x3c, 2, to_le 2 (sb_errors s)),
      (0x3e, 2, to_le 2 (sb_minor_rev_level s)), (0x40, 4, to_le 4 (sb_lastcheck s)), (0x44, 4, to_le 4 (sb_checkinterval s)),
      (0x48, 4, to_le 4 (sb_creator_os s)), (0x4c, 4, to_le 4 (sb_rev_level s)), (0x50, 2, to_le 2 (sb_def_resuid s)),
      (0x52, 2, to_le 2 (sb_def_resgid s)), (0x54, 4, to_le 4 (sb_first_ino s)), (0x58, 2, to_le 2 (sb_inode_size s)),
      (0x5a, 2, to_le 2 (sb_block_group_nr s)), (0x5c, 4, to_le 4 (sb_feature_compat s)), (0x60, 4, to_le 4 (sb_feature_incompat s)),
      (0x64, 4, to_le 4 (sb_feature_ro_compat s)), (0x68, 16, sb_uuid s), (0x78, 16, sb_volume_name s),
      (0x88, 64, sb_last_mounted s), (0xce, 2, to_le 2 (sb_reserved_gdt_blocks s)), (0xe0, 4, to_le 4 (sb_journal_inum s)),
      (0xec, 16, sb_hash_seed s), (0xfc, 1, [sb_def_hash_version s]), (0xfd, 1, [sb_jnl_backup_type s]),
      (0xfe, 2, to_le 2 (sb_desc_size s)), (0x100, 4, to_le 4 (sb_default_mount_opts s)), (0x104, 4, to_le 4 (sb_first_meta_bg s)),
      (0x108, 4, to_le 4 (sb_mkfs_time s))]"

definition rest_places :: "SuperBlock \<Rightarrow> place list" where
  "rest_places s =
     [(0x150, 4, to_le 4 (snd (split64 (sb_blocks_count s)))), (0x154, 4, to_le 4 (snd (split64 (sb_r_blocks_count s)))), (0x158, 4, to_le 4 (snd (split64 (sb_free_blocks_count s)))),
      (0x15c, 2, to_le 2 (sb_min_extra_isize s)), (0x15e, 2, to_le 2 (sb_want_extra_isize s)), (0x160, 4, to_le 4 (sb_flags s)),
      (0x174, 1, [sb_log_groups_per_flex s]), (0x175, 1, [sb_checksum_type s]), (0x178, 4, to_le 4 (fst (split64 (sb_kbytes_written s)))),
      (0x17c, 4, to_le 4 (snd (split64 (sb_kbytes_written s)))), (0x248, 4, to_le 4 (sb_overhead_clusters s)), (0x24c, 4, to_le 4 (sb_backup_bgs s ! 0)),
      (0x250, 4, to_le 4 (sb_backup_bgs s ! 1)), (0x270, 4, to_le 4 (sb_checksum_seed s)), (0x280, 4, to_le 4 (sb_orphan_file_inum s)),
      (0x3fc, 4, to_le 4 (sb_checksum s))]"

lemma length_words [simp]: "length (concat (map (to_le 4) ws)) = 4 * length ws"
  by (induction ws) (simp_all del: to_le.simps)

lemma put_words_from:
  "off + 4 * k + 4 * length ws \<le> length b \<Longrightarrow>
    (foldOutcome (\<lambda>b (i, w). put_u32 b (off + i * 4) w) b (List.enumerate k ws) :: ('e, bytes) outcome)
      = Ok (splice b (off + 4 * k) (concat (map (to_le 4) ws)))"
proof (induction ws arbitrary: b k)
  case (Cons w ws)
  let ?b = "splice b (off + 4 * k) (to_le 4 w)"
  have "(foldOutcome (\<lambda>b (i, w). put_u32 b (off + i * 4) w) ?b (List.enumerate (Suc k) ws) :: ('e, bytes) outcome)
      = Ok (splice ?b (off + 4 * Suc k) (concat (map (to_le 4) ws)))"
    using Cons by (intro Cons.IH) simp
  moreover have "splice ?b (off + 4 * Suc k) (concat (map (to_le 4) ws))
      = splice b (off + 4 * k) (concat (map (to_le 4) (w # ws)))"
    using Cons.prems by (simp add: splice_def ac_simps del: to_le.simps)
  ultimately show ?case
    using Cons.prems by (simp add: put_u32_def put_arr_def mult.commute add.assoc del: to_le.simps)
qed simp

lemma put_words_field:
  "ws \<noteq> [] \<Longrightarrow> off + 4 * length ws \<le> length b \<Longrightarrow>
    put_words b off ws = put_fields b [(off, 4 * length ws, concat (map (to_le 4) ws))]"
  using put_words_from [of off 0 ws b] by (auto simp: put_words_def put_arr_def neq_Nil_conv simp del: to_le.simps)

lemma get_words_at:
  assumes "take (4 * length ws) (drop off b) = concat (map (to_le 4) ws)" "n = length ws"
  shows "get_words n b off = (Ok ws :: ('e, u32 list) outcome)"
proof -
  have "take 4 (drop (off + i * 4) b) = to_le 4 (ws ! i)" if "i < length ws" for i
  proof -
    have "take 4 (drop (4 * i) (concat (map (to_le 4) ws))) = to_le 4 (ws ! i)"
      using that
    proof (induction ws arbitrary: i)
      case (Cons w ws)
      then show ?case by (cases i) (auto simp del: to_le.simps)
    qed simp
    moreover have "take 4 (drop (4 * i) (take (4 * length ws) (drop off b))) = take 4 (drop (off + i * 4) b)"
      using that by (simp add: drop_take ac_simps min_def)
    ultimately show ?thesis unfolding assms(1) by simp
  qed
  then have at: "(get_u32 b (off + i * 4) :: ('e, u32) outcome) = Ok (ws ! i)" if "i < length ws" for i
    using that by (intro f32.get_at) blast
  have "(mapOutcome (\<lambda>i. get_u32 b (off + i * 4)) [0..<n] :: ('e, u32 list) outcome) = Ok (map (\<lambda>i. ws ! i) [0..<n])"
    using at assms(2) by (intro mapOutcome_all_Ok) simp
  then show ?thesis using assms(2) by (simp add: get_words_def map_nth)
qed

definition superblock_places :: "SuperBlock \<Rightarrow> place list" where
  "superblock_places s = head_places s @ [(0x10c, 68, concat (map (to_le 4) (sb_jnl_blocks s)))] @ rest_places s"

text \<open>The arrays of the record have the widths of their types.\<close>

definition superblock_wf :: "SuperBlock \<Rightarrow> bool" where
  "superblock_wf s \<longleftrightarrow> length (sb_uuid s) = 16 \<and> length (sb_volume_name s) = 16 \<and> length (sb_last_mounted s) = 64
     \<and> length (sb_hash_seed s) = 16 \<and> length (sb_jnl_blocks s) = 17 \<and> length (sb_backup_bgs s) = 2"

lemma ascending_superblock:
  assumes "superblock_wf s" shows "ascending 0 (superblock_places s) 1024"
proof -
  have "ascending 0 (head_places s) 268" "ascending 336 (rest_places s) 1024"
    "list_all (\<lambda>(off, w, v). off + w \<le> 268) (head_places s)"
    using assms by (simp_all add: superblock_wf_def head_places_def rest_places_def del: to_le.simps)
  then show ?thesis
    using assms by (auto simp: superblock_places_def superblock_wf_def intro!: ascending_append simp del: to_le.simps)
qed

lemma put_head_fields:
  assumes "superblock_wf s" shows "put_head s b = put_fields b (head_places s)"
proof -
  have "sb_uuid s \<noteq> []" "sb_volume_name s \<noteq> []" "sb_last_mounted s \<noteq> []" "sb_hash_seed s \<noteq> []"
    using assms by (auto simp: superblock_wf_def)
  then show ?thesis
    by (simp add: put_head_def head_places_def field_puts superblock_offsets del: andThen_Ok_iff to_le.simps)
qed

lemma put_rest_fields: "put_rest s b = put_fields b (rest_places s)"
  by (simp add: put_rest_def rest_places_def field_puts superblock_offsets del: andThen_Ok_iff to_le.simps)

lemma superblock_fields:
  assumes "superblock_wf s"
  shows "(superblock_to_bytes s :: ('e, bytes) outcome) = put_fields (replicate 1024 0) (superblock_places s)"
proof -
  have "sb_jnl_blocks s \<noteq> []" "4 * length (sb_jnl_blocks s) = 68" using assms by (auto simp: superblock_wf_def)
  note words = put_words_field [OF this(1), unfolded this(2)]
  have asc: "ascending 0 (head_places s) (length (replicate 1024 (0 :: u8)))"
    using assms by (simp add: superblock_wf_def head_places_def del: to_le.simps)
  show ?thesis
    unfolding superblock_to_bytes_def superblock_places_def put_head_fields [OF assms] put_fields_append SUPERBLOCK_LEN_def
  proof (rule andThen_cong [OF refl])
    fix b assume "put_fields (replicate 1024 0) (head_places s) = (Ok b :: ('e, bytes) outcome)"
    then have "length b = 1024" by (auto dest: put_fields_Ok [OF _ asc])
    then show "andThen (put_words b 0x10c (sb_jnl_blocks s)) (\<lambda>b. put_rest s b) =
        andThen (put_fields b [(0x10c, 68, concat (map (to_le 4) (sb_jnl_blocks s)))]) (\<lambda>b. put_fields b (rest_places s))"
      by (simp add: words put_rest_fields del: put_fields.simps)
  qed
qed

lemma superblock_written:
  assumes "superblock_wf s"
  shows "superblock_to_bytes s = Ok (splices (replicate 1024 0) (superblock_places s))"
    "length (splices (replicate 1024 0) (superblock_places s)) = 1024"
  using ascending_superblock [OF assms] put_fields_eq [of 0 "superblock_places s" "replicate 1024 0"]
    length_splices [of 0 "superblock_places s" "replicate 1024 0"]
  by (simp_all add: superblock_fields [OF assms] put_fields_eq)

section \<open>What they promise\<close>

text \<open>Without \<^verbatim>\<open>64bit\<close> the three block counts keep their low words alone.\<close>

definition superblock_kept :: "SuperBlock \<Rightarrow> SuperBlock" where
  "superblock_kept s =
     (if sb_feature_incompat s AND INCOMPAT_64BIT_ext \<noteq> 0 then s
      else s\<lparr>sb_blocks_count := take_bit 32 (sb_blocks_count s), sb_r_blocks_count := take_bit 32 (sb_r_blocks_count s),
             sb_free_blocks_count := take_bit 32 (sb_free_blocks_count s)\<rparr>)"

lemma join64_low: "join64 (fst (split64 v)) (if c then snd (split64 v) else 0) = (if c then v else take_bit 32 v)"
  by (cases c) (simp_all, rule bit_word_eqI, auto simp: join64_def split64_def bit_simps)

lemma held_magic:
  assumes "list_all (place_held b) (superblock_places s)"
  shows "(get_u16 b 0x38 :: (ParseError, u16) outcome) = Ok (sb_magic s)"
proof -
  note h = assms [unfolded superblock_places_def head_places_def append.simps list.pred_inject place_held_simps]
  show ?thesis by (rule f16.get_held, simp only: h simp_thms)
qed

lemma held_superblock_reads:
  assumes held: "list_all (place_held b) (superblock_places s)" and wf: "superblock_wf s" and len: "1024 \<le> length b"
    and magic: "sb_magic s = SUPERBLOCK_MAGIC"
  shows "superblock_read_from b = Ok (superblock_kept s)"
proof -
  let ?hi = "\<lambda>v. if sb_feature_incompat s AND INCOMPAT_64BIT_ext \<noteq> 0 then snd (split64 v) else 0"
  have nonempty: "sb_uuid s \<noteq> []" "sb_volume_name s \<noteq> []" "sb_last_mounted s \<noteq> []" "sb_hash_seed s \<noteq> []"
    "sb_jnl_blocks s \<noteq> []" and words: "concat (map (to_le 4) (sb_jnl_blocks s)) \<noteq> []"
    and lens: "length (sb_uuid s) = 16" "length (sb_volume_name s) = 16" "length (sb_last_mounted s) = 64"
      "length (sb_hash_seed s) = 16" "4 * length (sb_jnl_blocks s) = 68"
    using wf by (auto simp: superblock_wf_def simp del: to_le.simps dest: arg_cong [of _ _ length])
  note parts = held [unfolded superblock_places_def list_all_append]
  have places: "list_all (place_held b) (head_places s)" "list_all (place_held b) (rest_places s)"
    "take 68 (drop 0x10c b) = concat (map (to_le 4) (sb_jnl_blocks s))"
    using parts words by (simp_all del: to_le.simps)
  note h = places(1) [unfolded head_places_def list.pred_inject place_held_simps]
    places(2) [unfolded rest_places_def list.pred_inject place_held_simps]
  have reads: "(get_u16 b 0x38 :: (ParseError, u16) outcome) = Ok (sb_magic s)" "(get_u32 b 0x00 :: (ParseError, u32) outcome) = Ok (sb_inodes_count s)"
    "(get_u32 b 0x04 :: (ParseError, u32) outcome) = Ok (fst (split64 (sb_blocks_count s)))" "(get_u32 b 0x08 :: (ParseError, u32) outcome) = Ok (fst (split64 (sb_r_blocks_count s)))"
    "(get_u32 b 0x0c :: (ParseError, u32) outcome) = Ok (fst (split64 (sb_free_blocks_count s)))" "(get_u32 b 0x10 :: (ParseError, u32) outcome) = Ok (sb_free_inodes_count s)"
    "(get_u32 b 0x14 :: (ParseError, u32) outcome) = Ok (sb_first_data_block s)" "(get_u32 b 0x18 :: (ParseError, u32) outcome) = Ok (sb_log_block_size s)"
    "(get_u32 b 0x1c :: (ParseError, u32) outcome) = Ok (sb_log_cluster_size s)" "(get_u32 b 0x20 :: (ParseError, u32) outcome) = Ok (sb_blocks_per_group s)"
    "(get_u32 b 0x24 :: (ParseError, u32) outcome) = Ok (sb_clusters_per_group s)" "(get_u32 b 0x28 :: (ParseError, u32) outcome) = Ok (sb_inodes_per_group s)"
    "(get_u32 b 0x2c :: (ParseError, u32) outcome) = Ok (sb_mtime s)" "(get_u32 b 0x30 :: (ParseError, u32) outcome) = Ok (sb_wtime s)"
    "(get_u16 b 0x34 :: (ParseError, u16) outcome) = Ok (sb_mnt_count s)" "(get_u16 b 0x36 :: (ParseError, u16) outcome) = Ok (sb_max_mnt_count s)"
    "(get_u16 b 0x3a :: (ParseError, u16) outcome) = Ok (sb_state s)" "(get_u16 b 0x3c :: (ParseError, u16) outcome) = Ok (sb_errors s)"
    "(get_u16 b 0x3e :: (ParseError, u16) outcome) = Ok (sb_minor_rev_level s)" "(get_u32 b 0x40 :: (ParseError, u32) outcome) = Ok (sb_lastcheck s)"
    "(get_u32 b 0x44 :: (ParseError, u32) outcome) = Ok (sb_checkinterval s)" "(get_u32 b 0x48 :: (ParseError, u32) outcome) = Ok (sb_creator_os s)"
    "(get_u32 b 0x4c :: (ParseError, u32) outcome) = Ok (sb_rev_level s)" "(get_u16 b 0x50 :: (ParseError, u16) outcome) = Ok (sb_def_resuid s)"
    "(get_u16 b 0x52 :: (ParseError, u16) outcome) = Ok (sb_def_resgid s)" "(get_u32 b 0x54 :: (ParseError, u32) outcome) = Ok (sb_first_ino s)"
    "(get_u16 b 0x58 :: (ParseError, u16) outcome) = Ok (sb_inode_size s)" "(get_u16 b 0x5a :: (ParseError, u16) outcome) = Ok (sb_block_group_nr s)"
    "(get_u32 b 0x5c :: (ParseError, u32) outcome) = Ok (sb_feature_compat s)" "(get_u32 b 0x60 :: (ParseError, u32) outcome) = Ok (sb_feature_incompat s)"
    "(get_u32 b 0x64 :: (ParseError, u32) outcome) = Ok (sb_feature_ro_compat s)" "(get_arr 16 b 0x68 :: (ParseError, bytes) outcome) = Ok (sb_uuid s)"
    "(get_arr 16 b 0x78 :: (ParseError, bytes) outcome) = Ok (sb_volume_name s)" "(get_arr 64 b 0x88 :: (ParseError, bytes) outcome) = Ok (sb_last_mounted s)"
    "(get_u16 b 0xce :: (ParseError, u16) outcome) = Ok (sb_reserved_gdt_blocks s)" "(get_u32 b 0xe0 :: (ParseError, u32) outcome) = Ok (sb_journal_inum s)"
    "(get_u8 b 0xfd :: (ParseError, u8) outcome) = Ok (sb_jnl_backup_type s)" "(get_arr 16 b 0xec :: (ParseError, bytes) outcome) = Ok (sb_hash_seed s)"
    "(get_u8 b 0xfc :: (ParseError, u8) outcome) = Ok (sb_def_hash_version s)" "(get_u16 b 0xfe :: (ParseError, u16) outcome) = Ok (sb_desc_size s)"
    "(get_u32 b 0x100 :: (ParseError, u32) outcome) = Ok (sb_default_mount_opts s)" "(get_u32 b 0x104 :: (ParseError, u32) outcome) = Ok (sb_first_meta_bg s)"
    "(get_u32 b 0x108 :: (ParseError, u32) outcome) = Ok (sb_mkfs_time s)" "(get_u16 b 0x15c :: (ParseError, u16) outcome) = Ok (sb_min_extra_isize s)"
    "(get_u16 b 0x15e :: (ParseError, u16) outcome) = Ok (sb_want_extra_isize s)" "(get_u32 b 0x160 :: (ParseError, u32) outcome) = Ok (sb_flags s)"
    "(get_u8 b 0x174 :: (ParseError, u8) outcome) = Ok (sb_log_groups_per_flex s)" "(get_u8 b 0x175 :: (ParseError, u8) outcome) = Ok (sb_checksum_type s)"
    "(get_u32 b 0x178 :: (ParseError, u32) outcome) = Ok (fst (split64 (sb_kbytes_written s)))" "(get_u32 b 0x17c :: (ParseError, u32) outcome) = Ok (snd (split64 (sb_kbytes_written s)))"
    "(get_u32 b 0x248 :: (ParseError, u32) outcome) = Ok (sb_overhead_clusters s)" "(get_u32 b 0x24c :: (ParseError, u32) outcome) = Ok (sb_backup_bgs s ! 0)"
    "(get_u32 b 0x250 :: (ParseError, u32) outcome) = Ok (sb_backup_bgs s ! 1)" "(get_u32 b 0x270 :: (ParseError, u32) outcome) = Ok (sb_checksum_seed s)"
    "(get_u32 b 0x280 :: (ParseError, u32) outcome) = Ok (sb_orphan_file_inum s)" "(get_u32 b 0x3fc :: (ParseError, u32) outcome) = Ok (sb_checksum s)"
    by (rule f8.get_held f16.get_held f32.get_held, simp only: h simp_thms
      | rule get_arr_held, simp only: h simp_thms, rule lens, simp only: zero_less_numeral)+
  have jnl: "(get_words 17 b 0x10c :: (ParseError, u32 list) outcome) = Ok (sb_jnl_blocks s)"
    using places(3) wf by (intro get_words_at) (simp_all add: superblock_wf_def)
  have high: "(get_u32 b 0x150 :: (ParseError, u32) outcome) = Ok (snd (split64 (sb_blocks_count s)))"
    "(get_u32 b 0x154 :: (ParseError, u32) outcome) = Ok (snd (split64 (sb_r_blocks_count s)))"
    "(get_u32 b 0x158 :: (ParseError, u32) outcome) = Ok (snd (split64 (sb_free_blocks_count s)))"
    by (rule f32.get_held, simp only: h simp_thms)+
  have hi: "(get_hi b 0x150 :: (ParseError, u32) outcome) = Ok (?hi (sb_blocks_count s))"
    "(get_hi b 0x154 :: (ParseError, u32) outcome) = Ok (?hi (sb_r_blocks_count s))"
    "(get_hi b 0x158 :: (ParseError, u32) outcome) = Ok (?hi (sb_free_blocks_count s))"
    using reads high by (simp_all add: get_hi_def superblock_offsets)
  have bgs: "[sb_backup_bgs s ! 0, sb_backup_bgs s ! 1] = sb_backup_bgs s"
    using wf by (auto simp: superblock_wf_def numeral_2_eq_2 length_Suc_conv)
  have long: "\<not> length b < 1024" and off: "1024 - 4 = (0x3fc :: nat)" and kb: "join64 (fst (split64 v)) (snd (split64 v)) = v" for v
    using len by simp_all
  have not_bad: "\<not> sb_magic s \<noteq> SUPERBLOCK_MAGIC" using magic by simp
  show ?thesis
    unfolding superblock_read_from_def superblock_offsets off if_not_P [OF long] reads andThen.simps if_not_P [OF not_bad]
      hi jnl bgs join64_low kb
    by (simp add: superblock_kept_def magic)
qed

text \<open>
  C18: A superblock reads back from the 1024 bytes it is written as, from any buffer they lead: every
  field as it was, the three block counts without their high halves where the \<^verbatim>\<open>64bit\<close> feature is
  clear, and a record whose magic is not the format's is refused by the reader with the magic found.
\<close>

theorem superblock_reads_back:
  assumes "superblock_wf s"
  shows "\<exists>b. superblock_to_bytes s = (Ok b :: (ParseError, bytes) outcome) \<and> length b = 1024
    \<and> superblock_read_from (b @ rest) =
        (if sb_magic s = SUPERBLOCK_MAGIC then Ok (superblock_kept s)
         else Err (BadMagic ''SuperBlock'' (unat (sb_magic s)) (unat SUPERBLOCK_MAGIC)))"
proof -
  let ?b = "splices (replicate 1024 0) (superblock_places s)"
  note asc = ascending_superblock [OF assms] and written = superblock_written [OF assms]
  have held: "list_all (place_held ?b) (superblock_places s)"
    using splices_hold [of 0 "superblock_places s" "replicate 1024 0"] asc by simp
  have places: "list_all (place_held (?b @ rest)) (superblock_places s)"
    by (rule held_frame [OF held asc]) (simp add: written(2))
  note magic = held_magic [OF places]
  have "superblock_read_from (?b @ rest) =
      (if sb_magic s = SUPERBLOCK_MAGIC then Ok (superblock_kept s)
       else Err (BadMagic ''SuperBlock'' (unat (sb_magic s)) (unat SUPERBLOCK_MAGIC)))"
    using held_superblock_reads [OF places assms] written(2) magic
    by (simp add: superblock_read_from_def superblock_offsets)
  then show ?thesis using written by blast
qed

theorem superblock_reads_back_witness:
  "\<exists>b. superblock_to_bytes new_superblock = (Ok b :: (ParseError, bytes) outcome) \<and> length b = 1024
    \<and> superblock_read_from (b @ [7]) = Ok new_superblock"
  using superblock_reads_back [of new_superblock "[7]"]
  by (simp add: superblock_wf_def new_superblock_def superblock_kept_def)

text \<open>The checksum covers everything but its own field, so filling that field in does not move it.\<close>

lemma superblock_restamp:
  assumes "superblock_wf s"
  shows "splice (splices (replicate 1024 0) (superblock_places s)) 0x3fc (to_le 4 c)
    = splices (replicate 1024 0) (superblock_places (s\<lparr>sb_checksum := c\<rparr>))"
proof -
  define ps where "ps = head_places s @ (0x10c, 68, concat (map (to_le 4) (sb_jnl_blocks s))) # butlast (rest_places s)"
  have split: "superblock_places (s\<lparr>sb_checksum := c\<rparr>) = ps @ (0x3fc, 4, to_le 4 c) # []" for c
    by (simp add: ps_def superblock_places_def head_places_def rest_places_def del: to_le.simps)
  have s: "superblock_places s = ps @ (0x3fc, 4, to_le 4 (sb_checksum s)) # []" using split [of "sb_checksum s"] by simp
  show ?thesis
    using splices_restamp [of 0 ps "0x3fc" 4 "to_le 4 (sb_checksum s)" "[]" "replicate 1024 0" "to_le 4 c"]
      ascending_superblock [OF assms]
    unfolding split s by (simp del: to_le.simps)
qed

lemma superblock_covered:
  assumes "superblock_wf s"
  shows "take 1020 (splices (replicate 1024 0) (superblock_places (s\<lparr>sb_checksum := c\<rparr>)))
    = take 1020 (splices (replicate 1024 0) (superblock_places s))"
  using superblock_written(2) [OF assms] unfolding superblock_restamp [OF assms, symmetric]
  by (simp add: take_splice_before)

lemma checksum_of_written:
  assumes "superblock_wf s"
  shows "\<exists>b. superblock_to_bytes s = (Ok b :: (ParseError, bytes) outcome) \<and> length b = 1024
    \<and> superblock_checksum_ext b = Ok (crc32c (NOT 0) (take 1020 (splices (replicate 1024 0) (superblock_places s))))"
  using superblock_written [OF assms]
  by (intro exI [of _ "splices (replicate 1024 0) (superblock_places s)"])
    (simp add: superblock_checksum_ext_def slice_def superblock_offsets)

end
