(* ===== verification/MetaCsum.thy ===== *)
theory MetaCsum
  imports Csum Inode GroupDesc Superblock ExtentNode HtreeSearch
begin

text \<open>
  The checksums in place: what the formatter stamps into each metadata object
  (\<^verbatim>\<open>crates/ferrosys/src/materialize.rs\<close>) and what the reader recomputes and compares when it verifies an
  image (\<^verbatim>\<open>read.rs\<close>). The two sides are separate code over the shared recipes, and what is shown is that
  they agree: everything the one stamps, the other accepts.
\<close>

section \<open>The writer\<close>

fun expect_Ok :: "('e, 'a) outcome \<Rightarrow> ('f, 'a) outcome" where
  "expect_Ok (Ok x) = Ok x"
| "expect_Ok (Err e) = Panic"
| "expect_Ok Panic = Panic"

definition finalize_sb_csum :: "Checksummer \<Rightarrow> bytes \<Rightarrow> (ParseError, bytes) outcome" where
  "finalize_sb_csum csum bs =
     (if \<not> writes_object_checksums (scheme csum) then Ok bs
      else andThen (superblock_checksum_ext bs) (\<lambda>c. put_u32 bs CHECKSUM_OFFSET c))"

definition group_desc_csum :: "Checksummer \<Rightarrow> u32 \<Rightarrow> GroupDescriptor \<Rightarrow> nat \<Rightarrow> (ParseError, u16) outcome" where
  "group_desc_csum csum g desc sz =
     (case scheme csum of
        Scheme_None \<Rightarrow> Ok 0
      | Scheme_Crc32c \<Rightarrow>
          if sz \<le> SIZE_64
          then andThen (expect_Ok (desc_write_to desc (replicate sz 0) sz)) (\<lambda>buf.
            Ok (group_descriptor_csum csum g buf))
          else Panic)"

definition write_group_desc :: "Checksummer \<Rightarrow> u32 \<Rightarrow> GroupDescriptor \<Rightarrow> bytes \<Rightarrow> nat \<Rightarrow> (ParseError, bytes) outcome" where
  "write_group_desc csum g desc buf sz =
     andThen (group_desc_csum csum g desc sz) (\<lambda>c.
     expect_Ok (desc_write_to (desc\<lparr>gd_checksum := c\<rparr>) buf sz :: (ParseError, bytes) outcome))"

definition inode_table_bytes :: "Checksummer \<Rightarrow> u32 \<Rightarrow> Inode \<Rightarrow> bytes \<Rightarrow> nat \<Rightarrow> (ParseError, bytes) outcome" where
  "inode_table_bytes csum number i bs inode_size =
     (let writes_checksums = writes_object_checksums (scheme csum) in
      if \<not> writes_checksums \<and> in_mode i = 0 \<and> in_links_count i = 0 then Ok (replicate (length bs) 0)
      else
      andThen (inode_write_to i bs inode_size) (\<lambda>bs.
      if writes_checksums then
        let has_hi = has_checksum_hi inode_size (in_extra_isize i);
            c = inode_csum csum number (in_generation i) bs has_hi
        in
        andThen (put_u16 bs CHECKSUM_LO_OFFSET (ucast (c AND 0xffff))) (\<lambda>bs.
        if has_hi then put_u16 bs CHECKSUM_HI_OFFSET (ucast (drop_bit 16 c)) else Ok bs)
      else Ok bs))"

definition write_extent_node_checksum :: "Checksummer \<Rightarrow> u32 \<Rightarrow> nat \<Rightarrow> bytes \<Rightarrow> (ParseError, bytes) outcome" where
  "write_extent_node_checksum csum ino block_size buf =
     (if \<not> writes_object_checksums (scheme csum) then Ok buf
      else
      let tail = tail_offset block_size in
      andThen (slice buf 0 tail) (\<lambda>covered.
      put_u32 buf tail (csum_crc32c csum (inode_seed csum ino 0) covered)))"

definition stamp_dir_block :: "Checksummer \<Rightarrow> u32 \<Rightarrow> nat \<Rightarrow> DirBlock \<Rightarrow> (ParseError, DirBlock) outcome" where
  "stamp_dir_block csum seed block_size block =
     (let bs = block_bytes block in
      case block_kind block of
        Entries \<Rightarrow>
          andThen (sub64 block_size DIR_TAIL_LEN) (\<lambda>covered.
          andThen (slice bs 0 covered) (\<lambda>data.
          andThen (put_u32 bs (block_size - 4) (csum_crc32c csum seed data)) (\<lambda>bs.
          Ok (block\<lparr>block_bytes := bs\<rparr>))))
      | IndexBlock count_offset limit \<Rightarrow>
          andThen (get_u16 bs (count_offset + 2)) (\<lambda>count.
          andThen (slice bs 0 (count_offset + DX_ENTRY_LEN * unat count)) (\<lambda>data.
          let c = csum_crc32c csum seed data;
              c = csum_crc32c csum c (replicate DX_TAIL_LEN 0)
          in
          andThen (expect_Ok (write_dx_tail bs count_offset limit c)) (\<lambda>bs.
          Ok (block\<lparr>block_bytes := bs\<rparr>)))))"

definition write_dir_checksums :: "Checksummer \<Rightarrow> u32 \<Rightarrow> nat \<Rightarrow> DirBlock list \<Rightarrow> (ParseError, DirBlock list) outcome" where
  "write_dir_checksums csum dir_ino block_size blocks =
     (if \<not> writes_object_checksums (scheme csum) then Ok blocks
      else mapOutcome (stamp_dir_block csum (inode_seed csum dir_ino 0) block_size) blocks)"

text \<open>A block of the orphan file: the zeroed image already holds the entries, the tail is written after them.\<close>

definition orphan_block_bytes :: "Checksummer \<Rightarrow> u32 \<Rightarrow> u32 \<Rightarrow> u64 \<Rightarrow> nat \<Rightarrow> (ParseError, bytes) outcome" where
  "orphan_block_bytes csum ino generation block block_size =
     andThen (orphan_entries_len block_size) (\<lambda>n.
     let entries = replicate n 0;
         c = orphan_block_csum csum ino generation block entries
     in
     andThen (orphan_tail_bytes c) (\<lambda>tail. Ok (entries @ tail)))"

section \<open>The reader\<close>

definition check_checksum :: "string \<Rightarrow> nat \<Rightarrow> u32 \<Rightarrow> u32 \<Rightarrow> ('e ReadError, unit) outcome" where
  "check_checksum object index stored computed =
     (if stored = computed then Ok () else Err (ChecksumMismatch object index stored computed))"

definition check_superblock :: "bytes \<Rightarrow> SuperBlock \<Rightarrow> ('e ReadError, unit) outcome" where
  "check_superblock sb_raw sb =
     andThen (superblock_checksum_ext sb_raw) (\<lambda>computed.
     check_checksum ''superblock'' 0 (sb_checksum sb) computed)"

definition descriptor_checksum :: "u32 \<Rightarrow> bytes \<Rightarrow> Checksummer \<Rightarrow> ('e ReadError, u16) outcome" where
  "descriptor_checksum g raw csum =
     andThen (put_u16 raw BG_CHECKSUM_OFFSET 0) (\<lambda>buf. Ok (group_descriptor_csum csum g buf))"

definition check_descriptor :: "u32 \<Rightarrow> bytes \<Rightarrow> nat \<Rightarrow> Checksummer \<Rightarrow> ('e ReadError, unit) outcome" where
  "check_descriptor g raw sz csum =
     andThen (mapErr ParseFault (desc_read_from raw sz)) (\<lambda>desc.
     andThen (descriptor_checksum g raw csum) (\<lambda>computed.
     check_checksum ''group descriptor'' (unat g) (ucast (gd_checksum desc)) (ucast computed)))"

definition inode_checksum :: "nat \<Rightarrow> u32 \<Rightarrow> bytes \<Rightarrow> Checksummer \<Rightarrow> ('e ReadError, u32 \<times> u32) outcome" where
  "inode_checksum inode_size number raw csum =
     andThen (if GOOD_OLD_SIZE < inode_size then get_u16 raw 0x80 else Ok 0) (\<lambda>extra_isize.
     let has_hi = has_checksum_hi inode_size extra_isize in
     andThen (put_u16 raw CHECKSUM_LO_OFFSET 0) (\<lambda>buf.
     andThen (get_u16 raw CHECKSUM_LO_OFFSET) (\<lambda>lo.
     andThen (if has_hi then put_u16 buf CHECKSUM_HI_OFFSET 0 else Ok buf) (\<lambda>buf.
     andThen (if has_hi then get_u16 raw CHECKSUM_HI_OFFSET else Ok 0) (\<lambda>hi.
     let stored = (if has_hi then join32 lo hi else ucast lo) in
     andThen (get_u32 raw 0x64) (\<lambda>generation.
     Ok (stored, inode_csum csum number generation buf has_hi)))))))"

definition extent_tail_offset :: "bytes \<Rightarrow> nat \<Rightarrow> ('e, nat) outcome" where
  "extent_tail_offset node node_bytes =
     (if EXTENT_ENTRY_SIZE \<le> length node
      then andThen (get_u16 node 4) (\<lambda>eh_max.
        let tail = EXTENT_ENTRY_SIZE * (unat eh_max + 1) in
        Ok (if tail + 4 \<le> length node then tail else tail_offset node_bytes))
      else Ok (tail_offset node_bytes))"

text \<open>What the walk of an extent tree checks of each external node it descends to.\<close>

definition check_extent_node :: "nat \<Rightarrow> u32 \<Rightarrow> bytes \<Rightarrow> nat \<Rightarrow> Checksummer \<Rightarrow> ('e ReadError, unit) outcome" where
  "check_extent_node leaf seed child block_size csum =
     andThen (extent_tail_offset child block_size) (\<lambda>tail.
     andThen (get_u32 child tail) (\<lambda>stored.
     andThen (slice child 0 tail) (\<lambda>covered.
     check_checksum ''extent node'' leaf stored (csum_crc32c csum seed covered))))"

definition verify_one_dir_block ::
  "nat \<Rightarrow> bytes \<Rightarrow> u32 \<Rightarrow> nat option \<Rightarrow> Checksummer \<Rightarrow> ('e ReadError, unit) outcome" where
  "verify_one_dir_block phys block base count_offset csum =
     (case count_offset of
        None \<Rightarrow>
          if length block < DIR_TAIL_LEN + 4 then Ok ()
          else
          andThen (slice block 0 (length block - DIR_TAIL_LEN)) (\<lambda>covered.
          andThen (get_u32 block (length block - 4)) (\<lambda>stored.
          check_checksum ''directory block'' phys stored (csum_crc32c csum base covered)))
      | Some count_offset \<Rightarrow>
          andThen (get_u16 block count_offset) (\<lambda>limit.
          andThen (get_u16 block (count_offset + 2)) (\<lambda>count.
          let covered = count_offset + DX_ENTRY_LEN * unat count;
              tail = dx_tail_offset count_offset (unat limit)
          in
          if length block < covered \<or> length block < tail + DX_TAIL_LEN
          then Err (ParseFault (if length block < tail + DX_TAIL_LEN
            then InvalidField ''DxCountLimit'' ''limit'' (unat limit)
            else InvalidField ''DxCountLimit'' ''count'' (unat count)))
          else
          andThen (slice block 0 covered) (\<lambda>data.
          andThen (slice block tail (tail + DX_CHECKSUM_OFFSET)) (\<lambda>reserved.
          let c = csum_crc32c csum base data;
              c = csum_crc32c csum c reserved;
              c = csum_crc32c csum c (replicate (DX_TAIL_LEN - DX_CHECKSUM_OFFSET) 0)
          in
          andThen (get_u32 block (tail + 4)) (\<lambda>stored.
          check_checksum ''directory block'' phys stored c))))))"

definition check_orphan_block ::
  "bool \<Rightarrow> Checksummer \<Rightarrow> u32 \<Rightarrow> u32 \<Rightarrow> u64 \<Rightarrow> bytes \<Rightarrow> ('e ReadError, unit) outcome" where
  "check_orphan_block has_csum csum ino generation phys block =
     (case read_orphan_tail block of
        Err _ \<Rightarrow> Err BadOrphanFile
      | Panic \<Rightarrow> Panic
      | Ok stored \<Rightarrow>
          if \<not> has_csum then Ok ()
          else
          andThen (orphan_entries_len (length block)) (\<lambda>n.
          andThen (slice block 0 n) (\<lambda>entries.
          check_checksum ''orphan block'' (unat phys) stored (orphan_block_csum csum ino generation phys entries))))"

section \<open>What is stamped verifies\<close>

lemma check_checksum_Ok [simp]: "check_checksum object index stored computed = Ok () \<longleftrightarrow> stored = computed"
  by (simp add: check_checksum_def)

lemma splice_field: "off + length v \<le> length b \<Longrightarrow> take (length v) (drop off b) = v \<Longrightarrow> splice b off v = b"
  by (rule splice_same_value)

text \<open>The superblock.\<close>

lemma finalized_superblock:
  assumes wf: "superblock_wf s" and magic: "sb_magic s = SUPERBLOCK_MAGIC"
  shows "\<exists>b b' c. superblock_to_bytes s = (Ok b :: (ParseError, bytes) outcome)
    \<and> finalize_sb_csum (Crc32cSum seed) b = Ok b'
    \<and> superblock_read_from b' = Ok (superblock_kept (s\<lparr>sb_checksum := c\<rparr>))
    \<and> check_superblock b' (superblock_kept (s\<lparr>sb_checksum := c\<rparr>)) = (Ok () :: ('e ReadError, unit) outcome)"
proof -
  let ?b = "splices (replicate 1024 0) (superblock_places s)"
  define c where "c = crc32c (NOT 0) (take 1020 ?b)"
  let ?s = "s\<lparr>sb_checksum := c\<rparr>"
  let ?b' = "splices (replicate 1024 0) (superblock_places ?s)"
  have wf': "superblock_wf ?s" using wf by (simp add: superblock_wf_def)
  note written = superblock_written [OF wf] superblock_written [OF wf']
  have "finalize_sb_csum (Crc32cSum seed) ?b = Ok ?b'"
    using written superblock_restamp [OF wf, of c]
    by (simp add: finalize_sb_csum_def superblock_checksum_ext_def slice_def superblock_offsets c_def f32.put_law del: to_le.simps)
  moreover have "superblock_read_from ?b' = Ok (superblock_kept ?s)"
    using splices_hold [of 0 "superblock_places ?s" "replicate 1024 0"] ascending_superblock [OF wf'] written magic
    by (intro held_superblock_reads [OF _ wf']) simp_all
  moreover have "check_superblock ?b' (superblock_kept ?s) = (Ok () :: ('e ReadError, unit) outcome)"
    using written superblock_covered [OF wf, of c]
    by (simp add: check_superblock_def superblock_checksum_ext_def slice_def superblock_offsets superblock_kept_def c_def)
  ultimately show ?thesis using written by blast
qed

text \<open>A group descriptor, in the buffer of zeros the table is.\<close>

lemma stamped_descriptor:
  assumes "32 \<le> sz" "sz \<le> 64" "gd_checksum d = 0"
  shows "\<exists>raw. write_group_desc (Crc32cSum seed) g d (replicate sz 0) sz = Ok raw
    \<and> check_descriptor g raw sz (Crc32cSum seed) = (Ok () :: ('e ReadError, unit) outcome)"
proof -
  let ?z = "replicate sz (0 :: u8)"
  have size: "sz \<le> length ?z" by simp
  define c where "c = group_descriptor_csum (Crc32cSum seed) g (splices ?z (desc_places d sz))"
  let ?d = "d\<lparr>gd_checksum := c\<rparr>"
  let ?raw = "splices ?z (desc_places ?d sz)"
  note written = desc_written [OF assms(1) size]
  have "write_group_desc (Crc32cSum seed) g d ?z sz = Ok ?raw"
    using assms written by (simp add: write_group_desc_def group_desc_csum_def SIZE_64_def c_def)
  moreover have "desc_read_from ?raw sz = Ok (desc_kept sz ?d)"
    using desc_write_read [OF assms(1) size] by simp
  moreover have "put_u16 ?raw BG_CHECKSUM_OFFSET 0 = (Ok (splices ?z (desc_places d sz)) :: ('e ReadError, bytes) outcome)"
  proof -
    have "d\<lparr>gd_checksum := 0\<rparr> = d" using assms(3) by simp
    then show ?thesis
      using desc_restamp [OF assms(1) size, of ?d 0] written(2) [of ?d] assms(1)
      by (simp add: f16.put_law BG_CHECKSUM_OFFSET_def del: to_le.simps)
  qed
  moreover have "gd_checksum (desc_kept sz ?d) = c" by (simp add: desc_kept_def)
  ultimately show ?thesis
    by (auto simp: check_descriptor_def descriptor_checksum_def c_def)
qed

text \<open>An inode, whose checksum the table's writer computes over a record serialized without one.\<close>

lemma low_half: "ucast (c AND 0xffff :: u32) = (ucast c :: u16)" "(c AND 0xffff) AND 0xffff = (c AND 0xffff :: u32)"
  "ucast (ucast c :: u16) = (c AND 0xffff :: u32)"
proof -
  have m: "0xffff = (mask 16 :: u32)" by (simp add: mask_eq_exp_minus_1)
  show "ucast (c AND 0xffff :: u32) = (ucast c :: u16)" "(c AND 0xffff) AND 0xffff = (c AND 0xffff :: u32)"
    "ucast (ucast c :: u16) = (c AND 0xffff :: u32)"
    unfolding m by (rule bit_word_eqI; auto simp: bit_simps)+
qed

lemma stamped_inode:
  assumes block: "length (in_block i) = 60" and unsummed: "in_checksum i = 0"
    and apart: "in_inline_xattr i = [] \<or> 2 \<le> unat (in_extra_isize i)"
    and size: "sz = 128 \<or> 130 \<le> sz" "length buf = sz"
    and written: "inode_table_bytes (Crc32cSum seed) number i buf sz = Ok raw"
  shows "\<exists>b. \<forall>n. inode_checksum sz n raw (Crc32cSum seed) = (Ok
    (inode_csum (Crc32cSum seed) number (in_generation i) b (has_checksum_hi sz (in_extra_isize i)),
     inode_csum (Crc32cSum seed) n (in_generation i) b (has_checksum_hi sz (in_extra_isize i))) :: ('e ReadError, _) outcome)"
proof -
  let ?hi = "has_checksum_hi sz (in_extra_isize i)"
  obtain b where b: "inode_write_to i buf sz = Ok b" using written by (auto simp: inode_table_bytes_def Let_def split: if_splits)
  obtain atime atime_x ctime ctime_x mtime mtime_x crtime crtime_x where len: "length b = sz"
    and held: "list_all (place_held b) (classic_places i atime ctime mtime)"
      "list_all (place_held b) (extended_places i sz atime_x ctime_x mtime_x crtime crtime_x)"
    using inode_write_held [OF block apart b] size(2) by auto
  note h = held(1) [unfolded classic_places_def list.pred_inject place_held_simps]
  note x = held(2) [unfolded extended_places_def Let_def list.pred_inject place_held_simps]
  have sz: "128 \<le> sz" using size(1) by auto
  have zero_lo: "splice b 0x7c (to_le 2 (0 :: u16)) = b"
    using h unsummed sz len by (intro splice_field) (auto simp del: to_le.simps)
  have zero_hi: "?hi \<Longrightarrow> splice b 0x82 (to_le 2 (0 :: u16)) = b" and hi_room: "?hi \<Longrightarrow> 0x84 \<le> sz"
    using x unsummed len by (auto simp: has_checksum_hi_def inode_fits_def CHECKSUM_HI_OFFSET_def GOOD_OLD_SIZE_def
        intro!: splice_field simp del: to_le.simps)
  define c where "c = inode_csum (Crc32cSum seed) number (in_generation i) b ?hi"
  have narrow: "\<not> ?hi \<Longrightarrow> c AND 0xffff = c" by (simp add: c_def inode_csum_def low_half)
  let ?lo = "splice b 0x7c (to_le 2 (ucast c :: u16))"
  have raw: "raw = (if ?hi then splice ?lo 0x82 (to_le 2 (ucast (drop_bit 16 c) :: u16)) else ?lo)"
    using written b len sz hi_room
    by (auto simp: inode_table_bytes_def Let_def c_def f16.put_law CHECKSUM_LO_OFFSET_def CHECKSUM_HI_OFFSET_def
        low_half simp del: to_le.simps split: if_splits)
  have keep: "take w (drop off raw) = take w (drop off b)" if "off + w \<le> 0x7c \<or> 0x7e \<le> off \<and> off + w \<le> 0x82 \<and> off + w \<le> sz" for off w
    using that len sz hi_room unfolding raw by (auto simp: take_drop_splice_other simp del: to_le.simps)
  have raw_len: "length raw = sz" using len sz hi_room by (auto simp: raw simp del: to_le.simps)
  have gen: "(get_u32 raw 0x64 :: ('e ReadError, u32) outcome) = Ok (in_generation i)"
  proof -
    have "take 4 (drop 0x64 raw) = take 4 (drop 0x64 b)" by (rule keep) simp
    then show ?thesis by (intro f32.get_held) (simp only: h simp_thms)
  qed
  have extra: "130 \<le> sz \<Longrightarrow> (get_u16 raw 0x80 :: ('e ReadError, u16) outcome) = Ok (in_extra_isize i)"
    using x keep [of "0x80" 2] by (intro f16.get_held) auto
  have put_lo: "put_u16 raw 0x7c 0 =
      (Ok (if ?hi then splice b 0x82 (to_le 2 (ucast (drop_bit 16 c) :: u16)) else b) :: ('e ReadError, bytes) outcome)"
    using len sz hi_room zero_lo raw_len
    by (simp add: f16.put_law raw splice_commute splice_splice_same del: to_le.simps)
  have put_hi: "?hi \<Longrightarrow> put_u16 (splice b 0x82 (to_le 2 (ucast (drop_bit 16 c) :: u16))) 0x82 0
      = (Ok b :: ('e ReadError, bytes) outcome)"
    using len hi_room zero_hi by (simp add: f16.put_law splice_splice_same del: to_le.simps)
  have get_lo: "(get_u16 raw 0x7c :: ('e ReadError, u16) outcome) = Ok (ucast c)"
    using len sz hi_room by (simp add: raw f16.get_splice_same f16.get_splice_other del: to_le.simps)
  have get_hi: "?hi \<Longrightarrow> (get_u16 raw 0x82 :: ('e ReadError, u16) outcome) = Ok (ucast (drop_bit 16 c))"
    using len sz hi_room by (simp add: raw f16.get_splice_same del: to_le.simps)
  have small: "sz = 128 \<Longrightarrow> \<not> has_checksum_hi sz e" for e
    by (simp add: has_checksum_hi_def inode_fits_def CHECKSUM_HI_OFFSET_def)
  have "inode_checksum sz n raw (Crc32cSum seed) =
      (Ok (c, inode_csum (Crc32cSum seed) n (in_generation i) b ?hi) :: ('e ReadError, _) outcome)" for n
  proof (cases "sz = 128")
    case True
    then show ?thesis
      using small [OF True] put_lo get_lo gen narrow
      by (simp add: inode_checksum_def GOOD_OLD_SIZE_def CHECKSUM_LO_OFFSET_def Let_def low_half)
  next
    case False
    then have big: "130 \<le> sz" using size(1) by auto
    show ?thesis
    proof (cases ?hi)
      case True
      then show ?thesis
        using big put_lo put_hi get_lo get_hi gen extra
        by (simp add: inode_checksum_def GOOD_OLD_SIZE_def CHECKSUM_LO_OFFSET_def CHECKSUM_HI_OFFSET_def Let_def
            join32_halves)
    next
      case False
      then show ?thesis
        using big put_lo get_lo gen extra narrow
        by (simp add: inode_checksum_def GOOD_OLD_SIZE_def CHECKSUM_LO_OFFSET_def Let_def low_half)
    qed
  qed
  then show ?thesis unfolding c_def by blast
qed

text \<open>An external extent node: the tail sits where the capacity the node declares ends.\<close>

lemma put_entries_prefix:
  "put_entries enc i xs buf = Ok b \<Longrightarrow>
    length b = length buf \<and> take (EXTENT_ENTRY_SIZE * (i + 1)) b = take (EXTENT_ENTRY_SIZE * (i + 1)) buf"
proof (induction xs arbitrary: i buf)
  case (Cons x xs)
  then obtain bs where room: "EXTENT_ENTRY_SIZE * (i + 1) + length bs \<le> length buf"
    and rec: "put_entries enc (Suc i) xs (splice buf (EXTENT_ENTRY_SIZE * (i + 1)) bs) = Ok b"
    by (auto simp: put_arr_def split: if_splits)
  let ?n = "EXTENT_ENTRY_SIZE * (i + 1)" and ?m = "EXTENT_ENTRY_SIZE * (Suc i + 1)"
  have "take ?n b = take ?n (take ?m b)" by simp
  also have "\<dots> = take ?n (splice buf ?n bs)" using Cons.IH [OF rec] by simp
  also have "\<dots> = take ?n buf" using room by (simp add: take_splice_before)
  finally show ?case using Cons.IH [OF rec] room by simp
qed simp

lemma header_max:
  "header_to_bytes h = Ok hb \<Longrightarrow> length hb = EXTENT_ENTRY_SIZE \<and> take 2 (drop 4 hb) = to_le 2 (eh_max h)"
proof -
  assume hb: "header_to_bytes h = Ok hb"
  have fields: "header_to_bytes h = put_fields (replicate 12 0) [(0, 2, to_le 2 EXTENT_MAGIC), (2, 2, to_le 2 (eh_entries h)),
      (4, 2, to_le 2 (eh_max h)), (6, 2, to_le 2 (eh_depth h)), (8, 4, to_le 4 (eh_generation h))]" (is "_ = put_fields ?z ?ps")
    by (simp add: header_to_bytes_def field_puts EXTENT_ENTRY_SIZE_def del: andThen_Ok_iff to_le.simps)
  have written: "(put_fields ?z ?ps :: (ParseError, bytes) outcome) = Ok hb" by (rule trans [OF fields [symmetric] hb])
  have asc: "ascending 0 ?ps (length ?z)" by (simp del: to_le.simps)
  from put_fields_Ok [OF written asc] have "hb = splices ?z ?ps" "length hb = 12" by simp_all
  then show ?thesis
    using splices_hold [OF asc] by (simp add: EXTENT_ENTRY_SIZE_def del: to_le.simps splices.simps)
qed

lemma node_declares_capacity:
  assumes "write_node node cap buf = Ok b"
  shows "length b = length buf \<and> EXTENT_ENTRY_SIZE \<le> length b \<and> take 2 (drop 4 b) = to_le 2 (of_nat cap :: u16)"
proof -
  obtain hb where hb: "header_to_bytes \<lparr>eh_entries = of_nat (node_len node), eh_max = of_nat cap,
      eh_depth = node_depth node, eh_generation = 0\<rparr> = Ok hb"
    and room: "EXTENT_ENTRY_SIZE \<le> length buf"
    and rest: "(case node of Leaves ls \<Rightarrow> put_entries leaf_to_bytes 0 ls (splice buf 0 hb)
        | Index d es \<Rightarrow> put_entries idx_to_bytes 0 es (splice buf 0 hb)) = Ok b"
    using assms by (auto simp: write_node_def put_arr_def split: if_splits)
  note h = header_max [OF hb]
  have "length b = length buf \<and> take EXTENT_ENTRY_SIZE b = hb"
    using rest room h by (cases node) (auto dest!: put_entries_prefix simp: splice_def)
  moreover have "take 2 (drop 4 b) = take 2 (drop 4 (take EXTENT_ENTRY_SIZE b))"
    by (simp add: drop_take EXTENT_ENTRY_SIZE_def)
  ultimately show ?thesis using room h by simp
qed

lemma stamped_extent_node:
  assumes bs: "bs \<in> {1024, 2048, 4096, 8192, 16384, 32768, 65536}"
    and node: "write_node node (node_capacity bs) (replicate bs 0) = Ok b"
    and stamped: "write_extent_node_checksum (Crc32cSum seed) ino bs b = Ok child"
  shows "check_extent_node leaf base child bs (Crc32cSum seed) = (Ok () :: ('e ReadError, unit) outcome)
    \<longleftrightarrow> base = inode_seed (Crc32cSum seed) ino 0"
proof -
  let ?tail = "tail_offset bs" and ?cap = "node_capacity bs"
  have len: "length b = bs" and declared: "take 2 (drop 4 b) = to_le 2 (of_nat ?cap :: u16)"
    using node_declares_capacity [OF node] by simp_all
  have room: "?tail + 4 \<le> bs" "12 \<le> ?tail" "?cap < 65536" "?tail = 12 * (?cap + 1)" "12 \<le> bs"
    using bs by (auto simp: tail_offset_def node_capacity_def EXTENT_ENTRY_SIZE_def)
  define c where "c = crc32c (inode_seed (Crc32cSum seed) ino 0) (take ?tail b)"
  have child: "child = splice b ?tail (to_le 4 c)"
    using stamped len room by (simp add: write_extent_node_checksum_def Let_def slice_def f32.put_law c_def del: to_le.simps)
  have child_len: "length child = bs" using len room by (simp add: child del: to_le.simps)
  have "take 2 (drop 4 child) = to_le 2 (of_nat ?cap :: u16)"
    using declared len room by (simp add: child take_drop_splice_other del: to_le.simps)
  then have "(get_u16 child 4 :: ('e ReadError, u16) outcome) = Ok (of_nat ?cap)" by (rule f16.get_at)
  moreover have "unat (of_nat ?cap :: u16) = ?cap" using room by (intro unat_of_nat_small) simp
  ultimately have tail: "(extent_tail_offset child bs :: ('e ReadError, nat) outcome) = Ok ?tail"
    using room child_len by (simp add: extent_tail_offset_def EXTENT_ENTRY_SIZE_def)
  have "(get_u32 child ?tail :: ('e ReadError, u32) outcome) = Ok c" "take ?tail child = take ?tail b"
    using len room by (simp_all add: child f32.get_splice_same take_splice_before del: to_le.simps)
  then show ?thesis using child_len room by (auto simp: check_extent_node_def tail slice_def c_def crc32c_inj_seed)
qed

text \<open>A directory's blocks: a check of the block compares two checksums, which agree for one seed.\<close>

definition checked_for :: "u32 \<Rightarrow> u32 \<Rightarrow> nat \<Rightarrow> ('e ReadError, unit) outcome \<Rightarrow> bool" where
  "checked_for base base' phys r \<longleftrightarrow>
     (\<exists>stored computed. r = check_checksum ''directory block'' phys stored computed \<and> (stored = computed \<longleftrightarrow> base' = base))"

lemma checked_forI:
  "(stored = computed \<longleftrightarrow> base' = base) \<Longrightarrow> checked_for base base' phys (check_checksum ''directory block'' phys stored computed)"
  by (auto simp: checked_for_def)

lemma checked_forD: "checked_for base base' phys r \<Longrightarrow> (r = Ok () \<longleftrightarrow> base' = base) \<and> r \<noteq> Panic"
  by (auto simp: checked_for_def check_checksum_def split: if_splits)

lemma stamped_entries_block:
  assumes "block_kind blk = Entries" "length (block_bytes blk) = bs"
    and "stamp_dir_block (Crc32cSum seed) base bs blk = Ok blk'" "16 \<le> bs"
  shows "checked_for base base' phys (verify_one_dir_block phys (block_bytes blk') base' None (Crc32cSum seed) :: ('e ReadError, unit) outcome)
    \<and> block_kind blk' = Entries \<and> length (block_bytes blk') = bs"
proof -
  let ?b = "block_bytes blk"
  have bs: "12 \<le> bs" using assms by (auto simp: stamp_dir_block_def sub64_def DIR_TAIL_LEN_def Let_def split: if_splits)
  define c where "c = crc32c base (take (bs - 12) ?b)"
  have b': "blk' = blk\<lparr>block_bytes := splice ?b (bs - 4) (to_le 4 c)\<rparr>"
    using assms bs by (simp add: stamp_dir_block_def DIR_TAIL_LEN_def Let_def slice_def f32.put_law c_def del: to_le.simps)
  have "(get_u32 (splice ?b (bs - 4) (to_le 4 c)) (bs - 4) :: ('e ReadError, u32) outcome) = Ok c"
    "take (bs - 12) (splice ?b (bs - 4) (to_le 4 c)) = take (bs - 12) ?b" "length (splice ?b (bs - 4) (to_le 4 c)) = bs"
    using assms(2) bs by (simp_all add: f32.get_splice_same take_splice_before del: to_le.simps)
  then show ?thesis
    using assms(1,4) by (auto simp: verify_one_dir_block_def b' DIR_TAIL_LEN_def slice_def c_def crc32c_inj_seed intro!: checked_forI simp del: to_le.simps)
qed

lemma stamped_index_block:
  assumes kind: "block_kind blk = IndexBlock co limit" and limit: "limit < 65536"
    and built: "write_dx_entries b0 co limit es = Ok (block_bytes blk)"
    and stamped: "stamp_dir_block (Crc32cSum seed) base bs blk = Ok blk'"
  shows "checked_for base base' phys (verify_one_dir_block phys (block_bytes blk') base' (Some co) (Crc32cSum seed) :: ('e ReadError, unit) outcome)
    \<and> block_kind blk' = IndexBlock co limit \<and> length (block_bytes blk') = length (block_bytes blk)
    \<and> take (co + 8 * limit) (block_bytes blk') = take (co + 8 * limit) (block_bytes blk)"
proof -
  let ?b = "block_bytes blk" and ?tail = "co + 8 * limit"
  have shape: "es \<noteq> []" "length es \<le> limit"
    using write_dx_entries_Ok_iff [of b0 co limit es] built by auto
  have cl: "read_dx_countlimit ?b co = Ok (of_nat limit, of_nat (length es))"
    using read_written_dx_entries [OF limit built] by simp
  then have "(get_u16 ?b co :: (ParseError, u16) outcome) = Ok (of_nat limit)"
    "(get_u16 ?b (co + 2) :: (ParseError, u16) outcome) = Ok (of_nat (length es))"
    by (auto simp: read_dx_countlimit_def split: if_splits)
  then have lim: "take 2 (drop co ?b) = to_le 2 (of_nat limit :: u16)"
    and cnt: "take 2 (drop (co + 2) ?b) = to_le 2 (of_nat (length es) :: u16)"
    by (auto dest: f16.get_Ok_take)
  have u: "unat (of_nat limit :: u16) = limit" "unat (of_nat (length es) :: u16) = length es"
    using limit shape by (auto intro!: unat_of_nat_small)
  define c where "c = crc32c (crc32c base (take (co + 8 * length es) ?b)) (replicate 8 0)"
  have get: "(get_u16 ?b (co + 2) :: (ParseError, u16) outcome) = Ok (of_nat (length es))"
    by (rule f16.get_at [OF cnt])
  let ?b' = "splice (splice ?b ?tail (to_le 4 (0 :: u32))) (?tail + 4) (to_le 4 c)"
  have room: "?tail + 8 \<le> length ?b" and b': "blk' = blk\<lparr>block_bytes := ?b'\<rparr>"
    using stamped shape u
    by (auto simp: stamp_dir_block_def kind get Let_def slice_def write_dx_tail_def dx_tail_offset_def dx_sizes f32.put_law c_def
        simp del: to_le.simps add_2_eq_Suc' split: if_splits)
  have before: "co + 8 * length es \<le> ?tail" "co + 4 \<le> ?tail" using shape by (cases es; simp)+
  have len: "length ?b' = length ?b" using room by (simp del: to_le.simps)
  have keep: "take w (drop off ?b') = take w (drop off ?b)" if "off + w \<le> ?tail" for off w
    using that room by (simp add: take_drop_splice_other del: to_le.simps)
  have "(get_u16 ?b' co :: ('e ReadError, u16) outcome) = Ok (of_nat limit)"
    "(get_u16 ?b' (co + 2) :: ('e ReadError, u16) outcome) = Ok (of_nat (length es))"
    using keep [of co 2] keep [of "co + 2" 2] lim cnt before by (intro f16.get_at; simp)+
  moreover have "(get_u32 ?b' (?tail + 4) :: ('e ReadError, u32) outcome) = Ok c"
    using room by (simp add: f32.get_splice_same del: to_le.simps)
  moreover have "take 4 (drop ?tail ?b') = replicate 4 0"
  proof -
    have "take 4 (drop ?tail ?b') = take 4 (drop ?tail (splice ?b ?tail (to_le 4 (0 :: u32))))"
      using room by (simp add: take_drop_splice_other del: to_le.simps)
    also have "\<dots> = to_le 4 (0 :: u32)"
      using take_drop_splice_same [of ?tail "to_le 4 (0 :: u32)" ?b] room by (simp del: to_le.simps)
    finally show ?thesis by (simp add: eval_nat_numeral)
  qed
  moreover have "take (co + 8 * length es) ?b' = take (co + 8 * length es) ?b"
    using keep [of 0 "co + 8 * length es"] before by simp
  moreover have "crc32c (crc32c x (replicate 4 0)) (replicate 4 0) = crc32c x (replicate 8 0)" for x
    by (simp flip: crc32c_append replicate_add)
  ultimately show ?thesis
    using room len before u keep [of 0 ?tail]
    by (auto simp: verify_one_dir_block_def b' kind Let_def dx_tail_offset_def dx_sizes slice_def c_def crc32c_inj_seed
        intro!: checked_forI simp del: to_le.simps add_2_eq_Suc')
qed

text \<open>A block of the orphan file.\<close>

lemma orphan_csum_moved:
  assumes "unat p < 2 ^ 32" "unat p' < 2 ^ 32"
  shows "orphan_block_csum (Crc32cSum seed) ino gen p es = orphan_block_csum (Crc32cSum seed) ino gen p' es \<longleftrightarrow> p = p'"
proof -
  have "ucast p = (ucast p' :: u32) \<longleftrightarrow> p = p'"
  proof
    assume "ucast p = (ucast p' :: u32)"
    then have "unat (ucast p :: u32) = unat (ucast p' :: u32)" by simp
    then show "p = p'" using assms by (simp add: unsigned_ucast_eq take_bit_nat_eq_self word_unat_eq_iff)
  qed simp
  then show ?thesis
    using assms by (simp add: orphan_block_csum_def to_le8_small crc32c_append crc32c_inj_seed crc32c_word_inj del: to_le.simps)
qed

lemma stamped_orphan_block:
  assumes "orphan_block_bytes (Crc32cSum seed) ino gen p bs = Ok b"
  shows "length b = bs \<and> check_orphan_block True (Crc32cSum seed) n g p' b =
    (check_checksum ''orphan block'' (unat p')
       (orphan_block_csum (Crc32cSum seed) ino gen p (replicate (bs - 8) 0))
       (orphan_block_csum (Crc32cSum seed) n g p' (replicate (bs - 8) 0)) :: ('e ReadError, unit) outcome)"
proof -
  let ?es = "replicate (bs - 8) (0 :: u8)" let ?c = "orphan_block_csum (Crc32cSum seed) ino gen p ?es"
  obtain tail where bs: "8 \<le> bs" and tail: "orphan_tail_bytes ?c = (Ok tail :: (ParseError, bytes) outcome)" and b: "b = ?es @ tail"
    using assms by (auto simp: orphan_block_bytes_def orphan_entries_len_def ORPHAN_TAIL_LEN_def sub64_def Let_def split: if_splits)
  then have "length tail = 8" "read_orphan_tail b = Ok ?c"
    using orphan_tail_reads_back [of ?c ?es] by (auto simp: ORPHAN_TAIL_LEN_def)
  then show ?thesis using bs
    by (simp add: check_orphan_block_def orphan_entries_len_def ORPHAN_TAIL_LEN_def slice_def b)
qed

section \<open>Seals\<close>

text \<open>
  C13: A superblock's seal. Written, checksummed and read again, a superblock comes back with its
  checksum in place and passes the reader's check; and four of its bytes overwritten anywhere before the
  checksum, with anything but what they were, make the check of the record fail.
\<close>

theorem superblock_sealed:
  assumes "superblock_wf s" "sb_magic s = SUPERBLOCK_MAGIC"
  shows "\<exists>sealed c. andThen (superblock_to_bytes s) (finalize_sb_csum (Crc32cSum seed)) = Ok sealed
    \<and> superblock_read_from sealed = Ok (superblock_kept (s\<lparr>sb_checksum := c\<rparr>))
    \<and> (\<forall>off v. length v = 4 \<longrightarrow> off + 4 \<le> 0x3fc \<longrightarrow>
        (check_superblock (splice sealed off v) (superblock_kept (s\<lparr>sb_checksum := c\<rparr>)) = (Ok () :: ('e ReadError, unit) outcome)
          \<longleftrightarrow> splice sealed off v = sealed))"
proof -
  obtain b b' c where b: "superblock_to_bytes s = (Ok b :: (ParseError, bytes) outcome)" "finalize_sb_csum (Crc32cSum seed) b = Ok b'"
    and read: "superblock_read_from b' = Ok (superblock_kept (s\<lparr>sb_checksum := c\<rparr>))"
    and check: "check_superblock b' (superblock_kept (s\<lparr>sb_checksum := c\<rparr>)) = (Ok () :: ('e ReadError, unit) outcome)"
    using finalized_superblock [OF assms] by blast
  have len: "1024 \<le> length b'" and c: "c = crc32c (NOT 0) (take 0x3fc b')"
    using check by (auto simp: check_superblock_def superblock_checksum_ext_def slice_def superblock_offsets superblock_kept_def split: if_splits)
  have "check_superblock (splice b' off v) (superblock_kept (s\<lparr>sb_checksum := c\<rparr>)) = (Ok () :: ('e ReadError, unit) outcome)
      \<longleftrightarrow> splice b' off v = b'" if v: "length v = 4" "off + 4 \<le> 0x3fc" for off v
  proof -
    have take: "take 0x3fc (splice b' off v) = splice (take 0x3fc b') off v" and drop: "drop 0x3fc (splice b' off v) = drop 0x3fc b'"
      using v len by (simp_all add: splice_def drop_take min_def)
    have "splice b' off v = b' \<longleftrightarrow> splice (take 0x3fc b') off v = take 0x3fc b'"
      unfolding take [symmetric] using drop by (metis append_take_drop_id)
    then show ?thesis
      using v len crc32c_splice [OF v(1), of off "take 0x3fc b'" "NOT 0"]
      by (auto simp: check_superblock_def superblock_checksum_ext_def slice_def superblock_offsets superblock_kept_def take c)
  qed
  then show ?thesis using b read by auto
qed

theorem superblock_sealed_witness:
  "\<exists>sealed c v. andThen (superblock_to_bytes new_superblock) (finalize_sb_csum (Crc32cSum 5)) = Ok sealed
    \<and> superblock_read_from sealed = Ok (superblock_kept (new_superblock\<lparr>sb_checksum := c\<rparr>))
    \<and> check_superblock (splice sealed 0 v) (superblock_kept (new_superblock\<lparr>sb_checksum := c\<rparr>))
      \<noteq> (Ok () :: (unit ReadError, unit) outcome)"
proof -
  have "superblock_wf new_superblock" "sb_magic new_superblock = SUPERBLOCK_MAGIC"
    by (simp_all add: superblock_wf_def new_superblock_def)
  from superblock_sealed [OF this, of 5, where 'e = unit] obtain sealed c where
    sealed: "andThen (superblock_to_bytes new_superblock) (finalize_sb_csum (Crc32cSum 5)) = Ok sealed"
      "superblock_read_from sealed = Ok (superblock_kept (new_superblock\<lparr>sb_checksum := c\<rparr>))"
    and check: "\<forall>off v. length v = 4 \<longrightarrow> off + 4 \<le> 0x3fc \<longrightarrow>
        (check_superblock (splice sealed off v) (superblock_kept (new_superblock\<lparr>sb_checksum := c\<rparr>)) = (Ok () :: (unit ReadError, unit) outcome)
          \<longleftrightarrow> splice sealed off v = sealed)"
    by (elim exE conjE) (rule that)
  have "splice sealed 0 [0, 0, 0, 0] \<noteq> sealed \<or> splice sealed 0 [1, 0, 0, 0] \<noteq> sealed"
  proof (rule ccontr)
    assume "\<not> ?thesis"
    then have "splice sealed 0 [0, 0, 0, 0] = splice sealed 0 [1, 0, 0, 0]" by simp
    then show False by (simp add: splice_def)
  qed
  then show ?thesis using sealed check [rule_format, of "[0, 0, 0, 0]" 0] check [rule_format, of "[1, 0, 0, 0]" 0] by auto
qed

text \<open>
  C14: An inode's checksum binds the record to its number. What the formatter puts into the inode table
  under a number, the reader, taking the record's stored halves out and computing again, finds to agree
  with what it stored, at every inode size; and where the inode keeps the whole checksum, reading the
  record as any other inode finds a checksum that does not agree.
\<close>

theorem inode_checksum_binds:
  assumes "length (in_block i) = 60" "in_checksum i = 0" "in_inline_xattr i = [] \<or> 2 \<le> unat (in_extra_isize i)"
    and "sz = 128 \<or> 130 \<le> sz" "length buf = sz" "inode_table_bytes (Crc32cSum seed) number i buf sz = Ok raw"
  shows "\<exists>stored. inode_checksum sz number raw (Crc32cSum seed) = (Ok (stored, stored) :: ('e ReadError, _) outcome)
    \<and> (has_checksum_hi sz (in_extra_isize i) \<longrightarrow> (\<forall>n. n \<noteq> number \<longrightarrow>
        (\<exists>computed. inode_checksum sz n raw (Crc32cSum seed) = (Ok (stored, computed) :: ('e ReadError, _) outcome) \<and> computed \<noteq> stored)))"
proof -
  let ?hi = "has_checksum_hi sz (in_extra_isize i)"
  obtain b where b: "\<And>n. inode_checksum sz n raw (Crc32cSum seed) = (Ok
      (inode_csum (Crc32cSum seed) number (in_generation i) b ?hi, inode_csum (Crc32cSum seed) n (in_generation i) b ?hi)
      :: ('e ReadError, _) outcome)"
    using stamped_inode [OF assms] by blast
  have "?hi \<Longrightarrow> inode_csum (Crc32cSum seed) n (in_generation i) b ?hi = inode_csum (Crc32cSum seed) number (in_generation i) b ?hi
      \<longleftrightarrow> n = number" for n
    by (simp add: inode_csum_def crc32c_inj_seed inode_seed_inj)
  then show ?thesis using b by auto
qed

lemma example_stamped: "\<exists>raw. inode_table_bytes (Crc32cSum 5) 2 example_inode (replicate 256 0) 256 = Ok raw"
proof -
  obtain b where "inode_write_to example_inode (replicate 256 0) 256 = Ok b" "length b = 256"
    using inode_write_example by blast
  then show ?thesis by (simp add: inode_table_bytes_def Let_def f16.put_law CHECKSUM_LO_OFFSET_def CHECKSUM_HI_OFFSET_def del: to_le.simps)
qed

theorem inode_checksum_binds_witness:
  "\<exists>raw stored computed. inode_table_bytes (Crc32cSum 5) 2 example_inode (replicate 256 0) 256 = Ok raw
    \<and> inode_checksum 256 2 raw (Crc32cSum 5) = (Ok (stored, stored) :: (unit ReadError, _) outcome)
    \<and> inode_checksum 256 12 raw (Crc32cSum 5) = (Ok (stored, computed) :: (unit ReadError, _) outcome) \<and> computed \<noteq> stored"
proof -
  obtain raw where raw: "inode_table_bytes (Crc32cSum 5) 2 example_inode (replicate 256 0) 256 = Ok raw"
    using example_stamped by blast
  have wide: "has_checksum_hi 256 (in_extra_isize example_inode)" "length (in_block example_inode) = 60"
      "in_checksum example_inode = 0" "in_inline_xattr example_inode = []"
    by (simp_all add: example_inode_def empty_inode_def extra_isize_for_def has_checksum_hi_def inode_fits_def
        CHECKSUM_HI_OFFSET_def GOOD_OLD_SIZE_def BLOCK_BYTES_def Let_def)
  have "12 \<noteq> (2 :: u32)" by simp
  with inode_checksum_binds [OF wide(2,3) _ _ _ raw, where 'e = unit] wide show ?thesis using raw by fastforce
qed

text \<open>
  C15: An external extent node's checksum binds it to its inode. A node the formatter writes into a block
  and stamps passes the check of the reader, who finds the tail from the capacity the node declares,
  exactly when the reader walks the tree of the inode the node was stamped for.
\<close>

theorem extent_node_checksum_binds:
  assumes "bs \<in> {1024, 2048, 4096, 8192, 16384, 32768, 65536}" "write_node node (node_capacity bs) (replicate bs 0) = Ok b"
    and "write_extent_node_checksum (Crc32cSum seed) ino bs b = Ok child"
  shows "check_extent_node leaf (inode_seed (Crc32cSum seed) n 0) child bs (Crc32cSum seed)
    = (Ok () :: ('e ReadError, unit) outcome) \<longleftrightarrow> n = ino"
  by (simp add: stamped_extent_node [OF assms] inode_seed_inj)

theorem extent_node_checksum_binds_witness:
  "\<exists>b child. write_node (Leaves []) (node_capacity 1024) (replicate 1024 0) = Ok b
    \<and> write_extent_node_checksum (Crc32cSum 5) 12 1024 b = Ok child
    \<and> check_extent_node 7 (inode_seed (Crc32cSum 5) 12 0) child 1024 (Crc32cSum 5) = (Ok () :: (unit ReadError, unit) outcome)
    \<and> check_extent_node 7 (inode_seed (Crc32cSum 5) 13 0) child 1024 (Crc32cSum 5) \<noteq> (Ok () :: (unit ReadError, unit) outcome)"
proof -
  obtain hb where hb: "header_to_bytes \<lparr>eh_entries = 0, eh_max = of_nat (node_capacity 1024), eh_depth = 0, eh_generation = 0\<rparr> = Ok hb"
    "length hb = 12" using header_to_bytes_Ok by (auto simp: EXTENT_ENTRY_SIZE_def)
  have cap: "node_capacity 1024 = 84" "tail_offset 1024 = 1020" by (simp_all add: node_capacity_def tail_offset_def EXTENT_ENTRY_SIZE_def)
  obtain b where b: "write_node (Leaves []) (node_capacity 1024) (replicate 1024 0) = Ok b"
    using hb by (simp add: write_node_def put_arr_def EXTENT_ENTRY_SIZE_def cap)
  have "length b = 1024" using node_declares_capacity [OF b] by simp
  then obtain child where child: "write_extent_node_checksum (Crc32cSum 5) 12 1024 b = Ok child"
    by (simp add: write_extent_node_checksum_def cap Let_def f32.put_law del: to_le.simps)
  have bs: "1024 \<in> {1024, 2048, 4096, 8192, 16384, 32768, 65536 :: nat}" by simp
  show ?thesis using b child extent_node_checksum_binds [OF bs b child, of 7 12, where 'e = unit]
    extent_node_checksum_binds [OF bs b child, of 7 13, where 'e = unit] by auto
qed



end
