(* ===== verification/DirCsum.thy ===== *)
theory DirCsum
  imports MetaCsum
begin

text \<open>
  A built directory once its checksums are in: the shape of the blocks \<^verbatim>\<open>dir.rs\<close> hands over, and that
  the reader's check of each of them (\<^verbatim>\<open>read.rs\<close>) accepts the directory they were stamped for and no other.
\<close>

section \<open>The blocks a layout hands over\<close>

definition block_shaped :: "nat \<Rightarrow> DirBlock \<Rightarrow> bool" where
  "block_shaped bs blk \<longleftrightarrow> length (block_bytes blk) = bs \<and>
     (case block_kind blk of
        Entries \<Rightarrow> True
      | IndexBlock co limit \<Rightarrow> co \<in> {DX_ROOT_COUNT_OFFSET, DX_NODE_COUNT_OFFSET} \<and> limit = dx_limit bs co True
          \<and> (\<exists>b es. write_dx_entries b co limit es = Ok (block_bytes blk)))"

lemma shaped_entries [simp]: "block_shaped bs (entries_block b) \<longleftrightarrow> length b = bs"
  by (simp add: block_shaped_def entries_block_def)

lemma mapErr_Ok_iff: "mapErr f r = Ok x \<longleftrightarrow> r = Ok x"
  by (cases r) simp_all

lemmas put_lengths = f8.put_length f16.put_length f32.put_length

lemma put_arr_length: "put_arr b off v = Ok b' \<Longrightarrow> length b' = length b"
  by (auto simp: put_arr_def split: if_splits)

lemma dirent_write_length: "dirent_write_to e buf rl bs = Ok b \<Longrightarrow> length b = length buf"
  by (auto simp: dirent_write_to_def dest!: put_lengths put_arr_length split: if_splits)

lemma dir_tail_length: "write_dir_tail buf c = Ok b \<Longrightarrow> length b = length buf"
  by (auto simp: write_dir_tail_def dest!: put_lengths split: if_splits)

lemma pack_entries_length: "pack_entries bs es block off lo = Ok (b, off', lo') \<Longrightarrow> length b = length block"
proof (induction es arbitrary: block off lo)
  case (Cons e es)
  then obtain n room w where "slice block off (off + n) = (Ok room :: (DirError, bytes) outcome)"
    and w: "dirent_write_to e room n bs = Ok w"
    and rec: "pack_entries bs es (splice block off w) (off + n) off = Ok (b, off', lo')"
    by (auto simp: mapErr_Ok_iff)
  then have "length (splice block off w) = length block"
    using dirent_write_length [OF w] by (auto simp: slice_def split: if_splits)
  then show ?case using Cons.IH [OF rec] by simp
qed simp

lemma close_block_length: "close_block block lo usable tail = Ok b \<Longrightarrow> length b = length block"
  by (auto simp: close_block_def slice_def mapErr_Ok_iff dest!: put_lengths dir_tail_length split: if_splits)

lemma pack_one_block_length: "pack_one_block es bs tail = Ok b \<Longrightarrow> length b = bs"
  by (auto simp: pack_one_block_def dest!: pack_entries_length close_block_length)

lemma linear_fill_shaped:
  assumes "\<And>b. length b = bs \<Longrightarrow> P (entries_block b)"
  shows "linear_fill bs tail es cur used blocks = Ok bl \<Longrightarrow> list_all P blocks \<Longrightarrow> list_all P bl"
proof (induction es arbitrary: cur used blocks)
  case (Cons e es)
  then consider used' cur' where "linear_fill bs tail es cur' used' blocks = Ok bl"
    | used' cur' b where "pack_one_block cur bs tail = Ok b" "linear_fill bs tail es cur' used' (blocks @ [entries_block b]) = Ok bl"
    by (auto split: if_splits)
  then show ?case
  proof cases
    case 1
    then show ?thesis using Cons by blast
  next
    case 2
    then show ?thesis using Cons.prems pack_one_block_length assms by (intro Cons.IH [OF 2(2)]) auto
  qed
qed (auto dest!: pack_one_block_length intro: assms split: if_splits)

lemma mapOutcome_list_all:
  "mapOutcome f xs = Ok ys \<Longrightarrow> (\<And>x y. x \<in> set xs \<Longrightarrow> f x = Ok y \<Longrightarrow> P y) \<Longrightarrow> list_all P ys"
proof (induction xs arbitrary: ys)
  case (Cons x xs)
  then obtain y zs where "f x = Ok y" "mapOutcome f xs = Ok zs" "ys = y # zs" by auto
  then show ?case using Cons.IH [of zs] Cons.prems(2) by auto
qed simp

lemma index_node_shaped:
  "build_index_node bs (dx_limit bs DX_NODE_COUNT_OFFSET True) es = Ok blk \<Longrightarrow> bs \<le> 65536 \<Longrightarrow> block_shaped bs blk"
proof -
  assume built: "build_index_node bs (dx_limit bs DX_NODE_COUNT_OFFSET True) es = Ok blk" and bs: "bs \<le> 65536"
  then obtain h b where h: "write_dx_node_header (replicate bs 0) = Ok h"
    and b: "write_dx_entries h DX_NODE_COUNT_OFFSET (dx_limit bs DX_NODE_COUNT_OFFSET True) es = Ok b"
    and blk: "blk = \<lparr>block_bytes = b, block_kind = IndexBlock DX_NODE_COUNT_OFFSET (dx_limit bs DX_NODE_COUNT_OFFSET True)\<rparr>"
    by (auto simp: build_index_node_def mapErr_Ok_iff)
  have "length h = bs" using h by (auto simp: write_dx_node_header_def dest!: put_lengths split: if_splits)
  then show ?thesis using read_written_dx_entries [OF dx_limit_bound [OF bs] b] b by (auto simp: block_shaped_def blk)
qed

lemma index_nodes_shaped:
  "build_index bs (dx_limit bs DX_NODE_COUNT_OFFSET True) hashes n indirect = Ok (nodes, es) \<Longrightarrow> bs \<le> 65536 \<Longrightarrow>
    list_all (block_shaped bs) nodes"
  by (auto simp: build_index_def Let_def split: if_splits elim!: mapOutcome_list_all intro: index_node_shaped)

lemma root_header_length:
  "write_dx_root_header (replicate bs 0) a b c d = Ok h \<Longrightarrow> length h = bs"
  by (auto simp: write_dx_root_header_def Let_def dest!: put_lengths split: if_splits)

lemma built_shaped:
  assumes "htree_build_blocks h entries bs = Ok blocks" "ht_checksums h" "bs \<le> 65536"
  shows "list_all (block_shaped bs) blocks"
proof (cases "fits_in_one_block entries bs DIR_TAIL_LEN = Ok True")
  case True
  then show ?thesis using assms(1,2)
    by (auto simp: htree_build_blocks_def linear_build_blocks_def split: if_splits elim!: linear_fill_shaped [rotated])
next
  case False
  let ?root = "dx_limit bs DX_ROOT_COUNT_OFFSET True" and ?node = "dx_limit bs DX_NODE_COUNT_OFFSET True"
  have tail: "dir_tail h = DIR_TAIL_LEN" using assms(2) by (simp add: dir_tail_def)
  have fits: "fits_in_one_block entries bs (dir_tail h) = Ok False"
    using assms(1,2) False by (auto simp: htree_build_blocks_def dir_tail_def)
  obtain dot dotdot :: DirEntry and leaves :: "hashed list list" and hashes n nodes es rh root leaf_blocks where
    nodes: "build_index bs ?node hashes n (?root < length leaves) = Ok (nodes, es)"
    and rh: "write_dx_root_header (replicate bs 0) (de_inode dot) (de_inode dotdot)
       (version_to_u8 (ht_version h)) (if ?root < length leaves then 1 else 0) = Ok rh"
    and root: "write_dx_entries rh DX_ROOT_COUNT_OFFSET ?root es = Ok root"
    and leaf_blocks: "mapOutcome (\<lambda>leaf. andThen (pack_one_block (map snd leaf) bs DIR_TAIL_LEN) (\<lambda>b.
          Ok (entries_block b))) leaves = Ok leaf_blocks"
    and blocks: "\<lparr>block_bytes = root, block_kind = IndexBlock DX_ROOT_COUNT_OFFSET ?root\<rparr> # nodes @ leaf_blocks = blocks"
    by (rule built_steps [OF assms(1) fits, unfolded assms(2) [THEN eqTrueI] tail]) (rule that; assumption)
  have "list_all (block_shaped bs) leaf_blocks"
    using leaf_blocks by (rule mapOutcome_list_all) (auto dest: pack_one_block_length)
  moreover have "length root = bs"
    using read_written_dx_entries [OF dx_limit_bound [OF assms(3)] root] root_header_length [OF rh] by simp
  ultimately show ?thesis
    using index_nodes_shaped [OF nodes assms(3)] root by (auto simp: block_shaped_def simp flip: blocks)
qed

section \<open>How the reader checks a directory\<close>

text \<open>Which blocks are index blocks, found from the root down: \<^verbatim>\<open>directory_index_layout\<close>. \<open>read\<close> is the block read.\<close>

fun add_children :: "nat \<Rightarrow> DxEntry list \<Rightarrow> nat set \<Rightarrow> nat list \<Rightarrow> nat set \<times> nat list" where
  "add_children n [] interior next = (interior, next)"
| "add_children n (e # es) interior next =
     (let child = unat (dx_block e) in
      if child \<noteq> 0 \<and> child < n \<and> child \<notin> interior
      then add_children n es (insert child interior) (next @ [child])
      else add_children n es interior next)"

fun layout_level ::
  "(nat \<Rightarrow> ('e ReadError, bytes) outcome) \<Rightarrow> nat list \<Rightarrow> nat list \<Rightarrow> nat set \<Rightarrow> nat list \<Rightarrow>
    ('e ReadError, nat set \<times> nat list) outcome" where
  "layout_level read blocks [] interior next = Ok (interior, next)"
| "layout_level read blocks (logical # frontier) interior next =
     (if \<not> (logical < length blocks \<and> blocks ! logical \<noteq> 0) then layout_level read blocks frontier interior next
      else
      andThen (read (blocks ! logical)) (\<lambda>block.
      case read_dx_entries block (if logical = 0 then DX_ROOT_COUNT_OFFSET else DX_NODE_COUNT_OFFSET) of
        Err _ \<Rightarrow> layout_level read blocks frontier interior next
      | Panic \<Rightarrow> Panic
      | Ok entries \<Rightarrow>
          let (interior, next) = add_children (length blocks) entries interior next in
          layout_level read blocks frontier interior next))"

fun layout_levels ::
  "(nat \<Rightarrow> ('e ReadError, bytes) outcome) \<Rightarrow> nat list \<Rightarrow> nat \<Rightarrow> nat list \<Rightarrow> nat set \<Rightarrow> ('e ReadError, nat set) outcome" where
  "layout_levels read blocks 0 frontier interior = Ok interior"
| "layout_levels read blocks (Suc n) frontier interior =
     andThen (layout_level read blocks frontier interior []) (\<lambda>(interior, next).
     layout_levels read blocks n next interior)"

definition directory_index_layout ::
  "(nat \<Rightarrow> ('e ReadError, bytes) outcome) \<Rightarrow> nat list \<Rightarrow> bool \<Rightarrow> ('e ReadError, bool \<times> nat set) outcome" where
  "directory_index_layout read blocks indexed =
     (if \<not> indexed \<or> blocks = [] \<or> hd blocks = 0 then Ok (False, {})
      else
      andThen (read (hd blocks)) (\<lambda>root.
      case read_dx_root_info root of
        Err _ \<Rightarrow> Ok (True, {})
      | Panic \<Rightarrow> Panic
      | Ok (_, levels) \<Rightarrow>
          andThen (layout_levels read blocks (unat levels) [0] {}) (\<lambda>interior. Ok (True, interior))))"

text \<open>The loop over the directory's blocks, \<open>checked\<close> those it has a verdict on.\<close>

fun block_faults ::
  "(nat \<Rightarrow> ('e ReadError, bytes) outcome) \<Rightarrow> u32 \<Rightarrow> Checksummer \<Rightarrow> bool \<Rightarrow> nat set \<Rightarrow> nat set \<Rightarrow> nat \<Rightarrow> nat list \<Rightarrow>
    ('e ReadError, 'e ReadError list) outcome" where
  "block_faults read base csum root_indexed interior checked logical [] = Ok []"
| "block_faults read base csum root_indexed interior checked logical (phys # ps) =
     (if phys = 0 \<or> phys \<in> checked then block_faults read base csum root_indexed interior checked (Suc logical) ps
      else
      let rest = block_faults read base csum root_indexed interior (insert phys checked) (Suc logical) ps;
          count_offset = (if logical = 0 \<and> root_indexed then Some DX_ROOT_COUNT_OFFSET
            else if logical \<in> interior then Some DX_NODE_COUNT_OFFSET else None)
      in
      case andThen (read phys) (\<lambda>block. verify_one_dir_block phys block base count_offset csum) of
        Ok _ \<Rightarrow> rest
      | Err e \<Rightarrow> mapOk ((#) e) rest
      | Panic \<Rightarrow> Panic)"

text \<open>\<^verbatim>\<open>collect_directory_faults\<close>, over the inode's block map.\<close>

definition directory_faults ::
  "(nat \<Rightarrow> ('e ReadError, bytes) outcome) \<Rightarrow> u32 \<Rightarrow> Inode \<Rightarrow> nat list \<Rightarrow> Checksummer \<Rightarrow> ('e ReadError, 'e ReadError list) outcome" where
  "directory_faults read ino inode blocks csum =
     (if in_mode inode AND 0xf000 \<noteq> 0x4000 then Ok []
      else
      let indexed = (in_flags inode AND INDEX_FL \<noteq> 0);
          base = inode_seed csum ino (in_generation inode)
      in
      case directory_index_layout read blocks indexed of
        Err e \<Rightarrow> Ok [e]
      | Panic \<Rightarrow> Panic
      | Ok (root_indexed, interior) \<Rightarrow> block_faults read base csum root_indexed interior {} 0 blocks)"

text \<open>Whether the formatter flags the directory it laid out as indexed.\<close>

definition has_index :: "DirBlock list \<Rightarrow> bool" where
  "has_index blocks \<longleftrightarrow> list_ex (\<lambda>b. block_kind b \<noteq> Entries) blocks"

section \<open>The roles of the blocks\<close>

text \<open>Where the index blocks of a built directory are: none, or the root and \<open>nc\<close> nodes right after it.\<close>

definition role :: "bool \<Rightarrow> nat \<Rightarrow> nat \<Rightarrow> nat option" where
  "role indexed nc i = (if indexed \<and> i = 0 then Some DX_ROOT_COUNT_OFFSET
     else if 0 < i \<and> i \<le> nc then Some DX_NODE_COUNT_OFFSET else None)"

definition kind_offset :: "DirBlockKind \<Rightarrow> nat option" where
  "kind_offset k = (case k of Entries \<Rightarrow> None | IndexBlock co _ \<Rightarrow> Some co)"

definition root_names :: "bytes \<Rightarrow> nat \<Rightarrow> bool" where
  "root_names root nc \<longleftrightarrow> (\<exists>version es. read_dx_entries root DX_ROOT_COUNT_OFFSET = Ok es
     \<and> read_dx_root_info root = Ok (version, if nc = 0 then 0 else 1)
     \<and> (nc \<noteq> 0 \<longrightarrow> map dx_block es = map of_nat [1..<Suc nc]))"

lemma index_node_kind:
  "build_index_node bs nl es = Ok blk \<Longrightarrow> block_kind blk = IndexBlock DX_NODE_COUNT_OFFSET nl"
  by (auto simp: build_index_node_def mapErr_Ok_iff)

lemma deep_index_roles:
  assumes "build_index bs nl hashes nc True = Ok (nodes, es)" "0 < nl" "nc = div_ceil (length hashes) nl"
  shows "length nodes = nc \<and> (\<forall>b \<in> set nodes. kind_offset (block_kind b) = Some DX_NODE_COUNT_OFFSET)
    \<and> map dx_block es = map of_nat [1..<Suc nc]"
proof -
  obtain nodes_of where nodes: "mapOutcome nodes_of (chunks nl [0..<length hashes]) = (Ok nodes :: (DirError, _) outcome)"
      "nodes_of = (\<lambda>chunk. build_index_node bs nl (node_entries hashes (1 + nc) chunk))"
    and es: "mapOutcome (\<lambda>i. andThen (idx_at hashes (i * nl)) (\<lambda>h. Ok \<lparr>dx_hash = h, dx_block = of_nat (1 + i)\<rparr>)) [0..<nc]
      = (Ok es :: (DirError, _) outcome)"
    using assms(1) by (auto simp: build_index_def Let_def)
  have "length nodes = nc" using mapOutcome_length [OF nodes(1)] assms by (simp add: length_chunks)
  moreover have "list_all (\<lambda>b. kind_offset (block_kind b) = Some DX_NODE_COUNT_OFFSET) nodes"
    using nodes(1) by (rule mapOutcome_list_all) (auto simp: nodes(2) kind_offset_def dest: index_node_kind)
  moreover have "map dx_block es = map of_nat [1..<Suc nc]"
  proof (rule nth_equalityI)
    show "length (map dx_block es) = length (map of_nat [1..<Suc nc] :: u32 list)" using mapOutcome_length [OF es] by simp
    fix i assume "i < length (map dx_block es)"
    then have i: "i < length [0..<nc]" "i < length es" using mapOutcome_length [OF es] by simp_all
    show "map dx_block es ! i = (map of_nat [1..<Suc nc] ! i :: u32)"
      using mapOutcome_nth [OF es i(1)] i by (auto simp del: upt_Suc of_nat_Suc dest!: sym [of _ "es ! i"])
  qed
  ultimately show ?thesis by (simp add: list_all_iff)
qed

lemma built_roles:
  assumes "htree_build_blocks h entries bs = Ok blocks" "ht_checksums h" "bs \<le> 65536"
  shows "\<exists>nc. (\<forall>i < length blocks. kind_offset (block_kind (blocks ! i)) = role (has_index blocks) nc i)
    \<and> (has_index blocks \<longrightarrow> nc < length blocks \<and> nc < 65536 \<and> root_names (block_bytes (blocks ! 0)) nc)
    \<and> (\<not> has_index blocks \<longrightarrow> nc = 0)"
proof (cases "fits_in_one_block entries bs DIR_TAIL_LEN = Ok True")
  case True
  then have "list_all (\<lambda>b. block_kind b = Entries) blocks" using assms(1,2)
    by (auto simp: htree_build_blocks_def linear_build_blocks_def entries_block_def split: if_splits elim!: linear_fill_shaped [rotated])
  then have "\<not> has_index blocks" "\<forall>i < length blocks. block_kind (blocks ! i) = Entries"
    by (auto simp: has_index_def list_all_iff list_ex_iff)
  then show ?thesis by (intro exI [of _ 0]) (simp add: role_def kind_offset_def)
next
  case False
  let ?root = "dx_limit bs DX_ROOT_COUNT_OFFSET True" and ?node = "dx_limit bs DX_NODE_COUNT_OFFSET True"
  have tail: "dir_tail h = DIR_TAIL_LEN" using assms(2) by (simp add: dir_tail_def)
  have fits: "fits_in_one_block entries bs (dir_tail h) = Ok False"
    using assms(1,2) False by (auto simp: htree_build_blocks_def dir_tail_def)
  obtain dot dotdot :: DirEntry and leaves :: "hashed list list" and hashes nc nodes es rh root leaf_blocks where
    hashes: "mapOutcome (leaf_hash leaves) [0..<length leaves] = Ok hashes"
    and nc: "(if ?root < length leaves then andThen (checked_div_ceil (length leaves) ?node) (\<lambda>c.
          if ?root < c then Err (IndexTooLarge (length leaves) (?root * ?node)) else Ok c) else Ok 0) = Ok nc"
    and nodes: "build_index bs ?node hashes nc (?root < length leaves) = Ok (nodes, es)"
    and rh: "write_dx_root_header (replicate bs 0) (de_inode dot) (de_inode dotdot)
       (version_to_u8 (ht_version h)) (if ?root < length leaves then 1 else 0) = Ok rh"
    and root: "write_dx_entries rh DX_ROOT_COUNT_OFFSET ?root es = Ok root"
    and leaf_blocks: "mapOutcome (\<lambda>leaf. andThen (pack_one_block (map snd leaf) bs DIR_TAIL_LEN) (\<lambda>b.
          Ok (entries_block b))) leaves = Ok leaf_blocks"
    and blocks: "\<lparr>block_bytes = root, block_kind = IndexBlock DX_ROOT_COUNT_OFFSET ?root\<rparr> # nodes @ leaf_blocks = blocks"
    by (rule built_steps [OF assms(1) fits, unfolded assms(2) [THEN eqTrueI] tail]) (rule that; assumption)
  note info = root_info [OF dx_limit_bound [OF assms(3)] rh root]
  have "length hashes = length leaves" using mapOutcome_length [OF hashes] by simp
  then have shape: "length nodes = nc \<and> (\<forall>b \<in> set nodes. kind_offset (block_kind b) = Some DX_NODE_COUNT_OFFSET)
      \<and> root_names root nc \<and> nc < 65536"
  proof (cases "?root < length leaves")
    case True
    then have "0 < ?node" "nc = div_ceil (length leaves) ?node" "nc \<le> ?root"
      using nc by (auto simp: checked_div_ceil_def split: if_splits)
    moreover from this True have "0 < nc" by (auto simp: div_ceil_def div_greater_zero_iff)
    moreover have "?root < 65536" by (rule dx_limit_bound [OF assms(3)])
    ultimately show ?thesis
      using deep_index_roles [of bs ?node hashes nc nodes es] nodes True info \<open>length hashes = _\<close>
      by (auto simp: root_names_def simp del: upt_Suc)
  next
    case False
    then show ?thesis using nc nodes info by (auto simp: build_index_def root_names_def Let_def)
  qed
  have "\<forall>b \<in> set leaf_blocks. kind_offset (block_kind b) = None"
    using leaf_blocks by (intro ballI) (auto simp: entries_block_def kind_offset_def list_all_iff dest!: mapOutcome_list_all [where P = "\<lambda>b. block_kind b = Entries"])
  then have "kind_offset (block_kind (blocks ! i)) = role True nc i" if "i < length blocks" for i
    using that shape nth_mem [of "i - 1" nodes] nth_mem [of "i - Suc nc" leaf_blocks]
    by (cases i) (auto simp: role_def kind_offset_def nth_append simp flip: blocks)
  moreover have "has_index blocks" by (simp add: has_index_def flip: blocks)
  moreover have "nc < length blocks" "block_bytes (blocks ! 0) = root" using shape by (auto simp flip: blocks)
  ultimately show ?thesis using shape by auto
qed

section \<open>The checks of a stamped directory\<close>

lemma mapOutcome_cong: "(\<And>x. x \<in> set xs \<Longrightarrow> f x = g x) \<Longrightarrow> mapOutcome f xs = mapOutcome g xs"
  by (induction xs) auto

lemma dx_entries_prefix:
  assumes read: "read_dx_entries b co = Ok es" and same: "length b' = length b" "take n b' = take n b"
    and reach: "co + 8 * length es \<le> n"
  shows "read_dx_entries b' co = Ok es"
proof -
  obtain limit count e0 rest where count: "read_dx_countlimit b co = Ok (limit, count)"
    and room: "co + 8 * unat count \<le> length b" and first: "(get_u32 b (co + 4) :: (ParseError, u32) outcome) = Ok e0"
    and rest: "mapOutcome (get_dx_entry b co) [1..<unat count] = Ok rest" and es: "es = \<lparr>dx_hash = 0, dx_block = e0\<rparr> # rest"
    using read by (auto simp: read_dx_entries_def Let_def DX_ENTRY_LEN_def split: if_splits)
  have len: "length es = unat count"
    using mapOutcome_length [OF rest] count es by (auto simp: read_dx_countlimit_def word_less_nat_alt unat_gt_0 split: if_splits)
  then have pos: "co + 8 \<le> n" using es reach by simp
  have keep: "take w (drop k b') = take w (drop k b)" if "k + w \<le> n" for k w
    by (rule take_prefix_get [OF same(2) same(1) that])
  have get16: "k + 2 \<le> n \<Longrightarrow> get_u16 b' k = get_u16 b k" and get32: "k + 4 \<le> n \<Longrightarrow> get_u32 b' k = get_u32 b k" for k
    using same(1) keep by (simp_all add: f16.get_law f32.get_law)
  have "read_dx_countlimit b' co = Ok (limit, count)"
    unfolding count [symmetric] using pos same(1) by (simp add: read_dx_countlimit_def get16 del: add_2_eq_Suc')
  moreover have "mapOutcome (get_dx_entry b' co) [1..<unat count] = mapOutcome (get_dx_entry b co) [1..<unat count]"
  proof (rule mapOutcome_cong)
    fix i assume "i \<in> set [1..<unat count]"
    then have "co + 8 * i + 8 \<le> n" using reach len by (simp add: algebra_simps)
    then show "get_dx_entry b' co i = get_dx_entry b co i" by (simp add: get_dx_entry_def get32 Let_def DX_ENTRY_LEN_def)
  qed
  ultimately show ?thesis
    using room first rest same(1) pos by (simp add: read_dx_entries_def Let_def DX_ENTRY_LEN_def es get32)
qed

lemma root_info_prefix:
  assumes "take 32 b' = take 32 b" "length b' = length b" shows "read_dx_root_info b' = read_dx_root_info b"
proof -
  have "b' ! i = b ! i" if "i < 32" for i using arg_cong [OF assms(1), of "\<lambda>xs. xs ! i"] that by simp
  then show ?thesis using assms(2) by (simp add: read_dx_root_info_def DX_ROOT_COUNT_OFFSET_def)
qed

lemma stamp_entries:
  assumes "block_kind blk = Entries" "length (block_bytes blk) = bs" "16 \<le> bs"
  shows "\<exists>blk'. stamp_dir_block (Crc32cSum seed) base bs blk = Ok blk'"
  using assms by (simp add: stamp_dir_block_def DIR_TAIL_LEN_def Let_def f32.put_law del: to_le.simps)

lemma stamp_index:
  assumes kind: "block_kind blk = IndexBlock co limit" and limit: "limit < 65536"
    and built: "write_dx_entries b0 co limit es = Ok (block_bytes blk)" and room: "co + 8 * limit + 8 \<le> length (block_bytes blk)"
  shows "\<exists>blk'. stamp_dir_block (Crc32cSum seed) base bs blk = Ok blk'"
proof -
  have shape: "es \<noteq> []" "length es \<le> limit"
    using write_dx_entries_Ok_iff [of b0 co limit es] built by auto
  have "(get_u16 (block_bytes blk) (co + 2) :: (ParseError, u16) outcome) = Ok (of_nat (length es))"
    using read_written_dx_entries [OF limit built] by (auto simp: read_dx_countlimit_def split: if_splits)
  moreover have "unat (of_nat (length es) :: u16) = length es" using limit shape by (intro unat_of_nat_small) simp
  ultimately show ?thesis using room shape
    by (simp add: stamp_dir_block_def kind Let_def dx_sizes write_dx_tail_def dx_tail_offset_def f32.put_law
        del: to_le.simps add_2_eq_Suc')
qed

text \<open>The index block of a directory with checksums leaves its tail room.\<close>

lemma dx_limit_tail: "0 < dx_limit bs co True \<Longrightarrow> co + 8 * dx_limit bs co True + 8 \<le> bs"
proof -
  assume "0 < dx_limit bs co True"
  moreover have "8 * ((bs - co) div 8) \<le> bs - co" by simp
  ultimately show ?thesis by (simp add: dx_limit_def Let_def DX_ENTRY_LEN_def)
qed

lemma stamp_shaped:
  assumes shaped: "block_shaped bs blk" and bs: "16 \<le> bs" "bs \<le> 65536"
  shows "\<exists>blk'. stamp_dir_block (Crc32cSum seed) base bs blk = Ok blk'
    \<and> (\<forall>phys base'. checked_for base base' phys (verify_one_dir_block phys (block_bytes blk') base'
          (kind_offset (block_kind blk)) (Crc32cSum seed) :: ('e ReadError, unit) outcome))
    \<and> (kind_offset (block_kind blk) = Some DX_ROOT_COUNT_OFFSET \<longrightarrow>
        (\<forall>nc. root_names (block_bytes blk) nc \<longrightarrow> root_names (block_bytes blk') nc))"
proof (cases "block_kind blk")
  case Entries
  moreover have len: "length (block_bytes blk) = bs" using shaped by (simp add: block_shaped_def)
  ultimately show ?thesis
    using stamp_entries [OF Entries len bs(1)] stamped_entries_block [OF Entries len _ bs(1)]
    by (fastforce simp: kind_offset_def)
next
  case (IndexBlock co limit)
  obtain b0 es where len: "length (block_bytes blk) = bs" and limit: "limit = dx_limit bs co True"
    and co: "co \<in> {DX_ROOT_COUNT_OFFSET, DX_NODE_COUNT_OFFSET}"
    and built: "write_dx_entries b0 co limit es = Ok (block_bytes blk)"
    using shaped by (auto simp: block_shaped_def IndexBlock)
  have small: "limit < 65536" unfolding limit by (rule dx_limit_bound [OF bs(2)])
  have es: "es \<noteq> []" "length es \<le> limit" using write_dx_entries_Ok_iff [of b0 co limit es] built by auto
  have room: "co + 8 * limit + 8 \<le> length (block_bytes blk)"
    unfolding len limit using es by (intro dx_limit_tail) (cases es, auto simp: limit)
  obtain blk' where stamped: "stamp_dir_block (Crc32cSum seed) base bs blk = Ok blk'"
    using stamp_index [OF IndexBlock small built room] by blast
  note facts = stamped_index_block [OF IndexBlock small built stamped]
  have same: "length (block_bytes blk') = length (block_bytes blk)"
    "take (co + 8 * limit) (block_bytes blk') = take (co + 8 * limit) (block_bytes blk)"
    using facts by blast+
  have "root_names (block_bytes blk') nc" if root: "root_names (block_bytes blk) nc" and at: "co = DX_ROOT_COUNT_OFFSET" for nc
  proof -
    have reads: "read_dx_entries (block_bytes blk) DX_ROOT_COUNT_OFFSET = Ok es"
      using read_written_dx_entries [OF small built] at by simp
    then have "read_dx_entries (block_bytes blk') DX_ROOT_COUNT_OFFSET = Ok es"
      using same es at by (intro dx_entries_prefix [OF reads]) auto
    moreover have "take 32 (block_bytes blk') = take 32 (block_bytes blk)"
      using at take_prefix_get [OF same(2,1), of 0 32]
      by (simp add: DX_ROOT_COUNT_OFFSET_def)
    then have "read_dx_root_info (block_bytes blk') = read_dx_root_info (block_bytes blk)"
      using same by (intro root_info_prefix)
    ultimately show ?thesis using root reads by (simp add: root_names_def)
  qed
  then show ?thesis using stamped facts by (auto simp: kind_offset_def IndexBlock)
qed

section \<open>The reader finds every block's role\<close>

lemma add_children_run:
  assumes "map dx_block es = map of_nat [a..<b]" "0 < a" "b \<le> n" "b \<le> 4294967296" "I \<inter> {a..<b} = {}"
  shows "add_children n es I next = (I \<union> {a..<b}, next @ [a..<b])"
  using assms
proof (induction es arbitrary: a I "next")
  case Nil
  then show ?case by (cases "a < b") simp_all
next
  case (Cons e es)
  then have ab: "a < b" by (cases "a < b") simp_all
  then have e: "dx_block e = of_nat a" and es: "map dx_block es = map of_nat [Suc a..<b]"
    using Cons.prems(1) by (simp_all add: upt_conv_Cons)
  have child: "unat (dx_block e) = a" unfolding e using ab Cons.prems(4) by (intro unat_of_nat_small) simp
  have "add_children n es (insert a I) (next @ [a]) = (insert a I \<union> {Suc a..<b}, (next @ [a]) @ [Suc a..<b])"
    using Cons.prems by (intro Cons.IH es) auto
  moreover have "insert a I \<union> {Suc a..<b} = I \<union> {a..<b}" using ab by auto
  ultimately show ?case using Cons.prems ab by (auto simp: child [unfolded e] e Let_def upt_conv_Cons)
qed

lemma layout_found:
  assumes placed: "placed read phys blocks" and root: "root_names (block_bytes (blocks ! 0)) nc"
    and nc: "nc < length blocks" "nc < 65536"
  shows "directory_index_layout read phys True = Ok (True, {1..<Suc nc})"
proof -
  have len: "length phys = length blocks" "phys \<noteq> []" using placed nc by (auto simp: placed_def)
  then have hd: "hd phys = phys ! 0" by (simp add: hd_conv_nth)
  then have hd: "hd phys = phys ! 0" "phys ! 0 \<noteq> 0" using placed len(2) list.set_sel(1) unfolding placed_def by metis+
  have "0 < length blocks" using nc(1) by (rule le_less_trans [OF le0])
  then have read: "read (phys ! 0) = Ok (block_bytes (blocks ! 0))" using placed by (simp only: placed_def)
  obtain version es where es: "read_dx_entries (block_bytes (blocks ! 0)) DX_ROOT_COUNT_OFFSET = Ok es"
    and info: "read_dx_root_info (block_bytes (blocks ! 0)) = Ok (version, if nc = 0 then 0 else 1)"
    and children: "nc \<noteq> 0 \<Longrightarrow> map dx_block es = map of_nat [1..<Suc nc]"
    using root by (auto simp: root_names_def)
  show ?thesis
  proof (cases "nc = 0")
    case False
    have "add_children (length phys) es {} [] = ({} \<union> {1..<Suc nc}, [] @ [1..<Suc nc])"
      using children [OF False] nc len by (intro add_children_run) auto
    moreover have "blocks \<noteq> []" using \<open>0 < length blocks\<close> by simp
    ultimately show ?thesis using False len hd read es info by (simp add: directory_index_layout_def del: upt_Suc)
  qed (use len hd read info in \<open>simp add: directory_index_layout_def\<close>)
qed

lemma one_more_fault:
  "(v = Ok () \<longleftrightarrow> same) \<Longrightarrow> v \<noteq> Panic \<Longrightarrow> (if same then fs = [] else length fs = n) \<Longrightarrow>
    \<exists>gs. (case v of Ok _ \<Rightarrow> Ok fs | Err e \<Rightarrow> Ok (e # fs) | Panic \<Rightarrow> Panic) = Ok gs
      \<and> (if same then gs = [] else length gs = Suc n)"
  by (cases v) (auto split: if_splits)

lemma block_faults_checked:
  assumes "\<And>k. k < length ps \<Longrightarrow> checked_for base base' (ps ! k) (andThen (read (ps ! k)) (\<lambda>block.
      verify_one_dir_block (ps ! k) block base' (if logical + k = 0 \<and> root then Some DX_ROOT_COUNT_OFFSET
        else if logical + k \<in> interior then Some DX_NODE_COUNT_OFFSET else None) csum))"
    and "distinct ps" "0 \<notin> set ps" "set ps \<inter> checked = {}"
  shows "\<exists>fs. block_faults read base' csum root interior checked logical ps = Ok fs
    \<and> (if base' = base then fs = [] else length fs = length ps)"
  using assms
proof (induction ps arbitrary: checked logical)
  case (Cons p ps)
  let ?co = "if logical = 0 \<and> root then Some DX_ROOT_COUNT_OFFSET else if logical \<in> interior then Some DX_NODE_COUNT_OFFSET else None"
  let ?v = "andThen (read p) (\<lambda>block. verify_one_dir_block p block base' ?co csum)"
  have "0 < length (p # ps)" by simp
  from Cons.prems(1) [OF this] have "checked_for base base' p ?v" by (simp only: nth_Cons_0 add_0_right)
  from checked_forD [OF this] have v: "?v = Ok () \<longleftrightarrow> base' = base" "?v \<noteq> Panic" by blast+
  obtain fs where fs: "block_faults read base' csum root interior (insert p checked) (Suc logical) ps = Ok fs"
    "if base' = base then fs = [] else length fs = length ps"
  proof -
    have "\<exists>fs. block_faults read base' csum root interior (insert p checked) (Suc logical) ps = Ok fs
        \<and> (if base' = base then fs = [] else length fs = length ps)"
    proof (rule Cons.IH)
      fix k assume "k < length ps"
      then have "Suc k < length (p # ps)" by simp
      from Cons.prems(1) [OF this] show "checked_for base base' (ps ! k) (andThen (read (ps ! k)) (\<lambda>block.
          verify_one_dir_block (ps ! k) block base' (if Suc logical + k = 0 \<and> root then Some DX_ROOT_COUNT_OFFSET
            else if Suc logical + k \<in> interior then Some DX_NODE_COUNT_OFFSET else None) csum))"
        by (simp only: nth_Cons_Suc add_Suc_right add_Suc)
    qed (use Cons.prems(2-) in auto)
    then show ?thesis using that by blast
  qed
  have step: "block_faults read base' csum root interior checked logical (p # ps) =
      (case ?v of Ok _ \<Rightarrow> Ok fs | Err e \<Rightarrow> Ok (e # fs) | Panic \<Rightarrow> Panic)"
  proof -
    have "\<not> (p = 0 \<or> p \<in> checked)" using Cons.prems(3,4) by auto
    then show ?thesis by (simp only: block_faults.simps Let_def fs(1) mapOk.simps if_False)
  qed
  show ?case unfolding step length_Cons by (rule one_more_fault [OF v fs(2)])
qed simp

text \<open>
  C12: A directory's checksums bind its blocks to it. Whatever directory the hash-indexed layout builds,
  linear, or indexed over one level or two, the writer's stamping succeeds, and when the stamped blocks
  lie where an inode maps them the reader tells from the index alone which of them are index blocks and
  checks each one: under the inode they were stamped for it reports no fault, and under any other inode
  number it reports one for every block.
\<close>

theorem directory_checksums_bind:
  assumes "htree_build_blocks h entries bs = Ok blocks" "ht_checksums h" "16 \<le> bs" "bs \<le> 65536"
  shows "\<exists>stamped. write_dir_checksums (Crc32cSum seed) ino bs blocks = Ok stamped \<and> length stamped = length blocks
    \<and> (\<forall>read phys inode n. placed read phys stamped \<longrightarrow> distinct phys \<longrightarrow>
        in_mode inode AND 0xf000 = 0x4000 \<longrightarrow> in_generation inode = 0 \<longrightarrow>
        (in_flags inode AND INDEX_FL \<noteq> 0) = has_index blocks \<longrightarrow>
        (\<exists>faults. directory_faults read n inode phys (Crc32cSum seed) = (Ok faults :: ('e ReadError, 'e ReadError list) outcome)
          \<and> (if n = ino then faults = [] else length faults = length blocks)))"
proof -
  let ?c = "Crc32cSum seed" let ?own = "inode_seed ?c ino 0"
  have shaped: "list_all (block_shaped bs) blocks" by (rule built_shaped [OF assms(1,2,4)])
  obtain nc where role: "\<And>i. i < length blocks \<Longrightarrow> kind_offset (block_kind (blocks ! i)) = role (has_index blocks) nc i"
    and index: "has_index blocks \<Longrightarrow> nc < length blocks \<and> nc < 65536 \<and> root_names (block_bytes (blocks ! 0)) nc"
    and plain: "\<not> has_index blocks \<Longrightarrow> nc = 0"
    using built_roles [OF assms(1,2,4)] by blast
  obtain stamped where stamped: "mapOutcome (stamp_dir_block ?c ?own bs) blocks = Ok stamped"
    using mapOutcome_ex [of blocks "stamp_dir_block ?c ?own bs"] stamp_shaped [OF _ assms(3,4)] shaped
    by (fastforce simp: list_all_iff)
  have len: "length stamped = length blocks" by (rule mapOutcome_length [OF stamped])
  have block: "(\<forall>p base. checked_for ?own base p (verify_one_dir_block p (block_bytes (stamped ! i)) base
        (kind_offset (block_kind (blocks ! i))) ?c :: ('e ReadError, unit) outcome))
      \<and> (kind_offset (block_kind (blocks ! i)) = Some DX_ROOT_COUNT_OFFSET \<longrightarrow>
        (\<forall>nc. root_names (block_bytes (blocks ! i)) nc \<longrightarrow> root_names (block_bytes (stamped ! i)) nc))"
    if i: "i < length blocks" for i
    using stamp_shaped [OF _ assms(3,4), of "blocks ! i" seed ?own] shaped mapOutcome_nth [OF stamped i] i
    by (fastforce simp: list_all_length)
  have "\<exists>faults. directory_faults read n inode phys ?c = (Ok faults :: ('e ReadError, 'e ReadError list) outcome)
      \<and> (if n = ino then faults = [] else length faults = length blocks)"
    if placed: "placed read phys stamped" and "distinct phys" and inode: "in_mode inode AND 0xf000 = 0x4000"
      "in_generation inode = 0" "(in_flags inode AND INDEX_FL \<noteq> 0) = has_index blocks" for read phys inode n
  proof -
    have layout: "directory_index_layout read phys (has_index blocks) = Ok (has_index blocks, {1..<Suc nc})"
    proof (cases "has_index blocks")
      case True
      then have "0 < length blocks" using index by auto
      then have "root_names (block_bytes (stamped ! 0)) nc"
        using block [of 0] role [of 0] index [OF True] True by (auto simp: role_def)
      then show ?thesis using layout_found [OF placed] index [OF True] True len by simp
    qed (use plain in \<open>simp add: directory_index_layout_def\<close>)
    have base: "inode_seed ?c n 0 = ?own \<longleftrightarrow> n = ino" by (rule inode_seed_inj)
    have "\<exists>fs. block_faults read (inode_seed ?c n 0) ?c (has_index blocks) {1..<Suc nc} {} 0 phys = Ok fs
        \<and> (if inode_seed ?c n 0 = ?own then fs = [] else length fs = length phys)"
    proof (rule block_faults_checked)
      fix k assume "k < length phys"
      then have k: "k < length blocks" "read (phys ! k) = Ok (block_bytes (stamped ! k))"
        using placed len by (auto simp: placed_def)
      have "(if 0 + k = 0 \<and> has_index blocks then Some DX_ROOT_COUNT_OFFSET
          else if 0 + k \<in> {1..<Suc nc} then Some DX_NODE_COUNT_OFFSET else None) = kind_offset (block_kind (blocks ! k))"
        using role [OF k(1)] by (auto simp: role_def)
      then show "checked_for ?own (inode_seed ?c n 0) (phys ! k) (andThen (read (phys ! k)) (\<lambda>block.
          verify_one_dir_block (phys ! k) block (inode_seed ?c n 0) (if 0 + k = 0 \<and> has_index blocks then Some DX_ROOT_COUNT_OFFSET
            else if 0 + k \<in> {1..<Suc nc} then Some DX_NODE_COUNT_OFFSET else None) ?c))"
        using block [OF k(1)] by (simp only: k(2) andThen.simps)
    qed (use placed that(2) in \<open>auto simp: placed_def\<close>)
    moreover have "directory_faults read n inode phys ?c =
        block_faults read (inode_seed ?c n 0) ?c (has_index blocks) {1..<Suc nc} {} 0 phys"
      using layout inode by (simp add: directory_faults_def Let_def)
    moreover have "length phys = length blocks" using placed len by (simp add: placed_def)
    ultimately show ?thesis unfolding base by metis
  qed
  then show ?thesis using stamped len by (auto simp: write_dir_checksums_def)
qed

text \<open>The small directory of four names, with checksums: its blocks verify as inode 2's, and fail as inode 11's.\<close>

theorem directory_checksums_bind_witness:
  "\<exists>blocks stamped (read :: nat \<Rightarrow> (unit ReadError, bytes) outcome) inode faults.
    htree_build_blocks (small_htree\<lparr>ht_checksums := True\<rparr>) small_dir 64 = Ok blocks
    \<and> write_dir_checksums (Crc32cSum 5) 2 64 blocks = Ok stamped
    \<and> directory_faults read 2 inode [1..<Suc (length blocks)] (Crc32cSum 5) = Ok []
    \<and> directory_faults read 11 inode [1..<Suc (length blocks)] (Crc32cSum 5) = Ok faults \<and> length faults = length blocks"
proof -
  let ?h = "small_htree\<lparr>ht_checksums := True\<rparr>"
  obtain blocks where built: "htree_build_blocks ?h small_dir 64 = Ok blocks" "length blocks < 100"
    using small_built [of ?h] by blast
  have sizes: "ht_checksums ?h" "16 \<le> (64 :: nat)" "(64 :: nat) \<le> 65536" by simp_all
  obtain stamped where stamped: "write_dir_checksums (Crc32cSum 5) 2 64 blocks = Ok stamped" "length stamped = length blocks"
    and verifies: "\<forall>(read :: nat \<Rightarrow> (unit ReadError, bytes) outcome) phys inode n. placed read phys stamped \<longrightarrow> distinct phys \<longrightarrow>
        in_mode inode AND 0xf000 = 0x4000 \<longrightarrow> in_generation inode = 0 \<longrightarrow> (in_flags inode AND INDEX_FL \<noteq> 0) = has_index blocks \<longrightarrow>
        (\<exists>faults. directory_faults read n inode phys (Crc32cSum 5) = Ok faults
          \<and> (if n = 2 then faults = [] else length faults = length blocks))"
    using directory_checksums_bind [OF built(1) sizes, of 5 2, where 'e = unit] by (elim exE conjE) (rule that)
  define read :: "nat \<Rightarrow> (unit ReadError, bytes) outcome" where "read p = Ok (block_bytes (stamped ! (p - 1)))" for p
  define inode where "inode = empty_inode 256\<lparr>in_mode := 0x41ed, in_flags := (if has_index blocks then INDEX_FL else 0)\<rparr>"
  let ?phys = "[1..<Suc (length blocks)]"
  have "placed read ?phys stamped" using built(2) stamped(2) by (simp add: placed_def read_def del: upt_Suc)
  moreover have "in_mode inode AND 0xf000 = 0x4000" "in_generation inode = 0" "(in_flags inode AND INDEX_FL \<noteq> 0) = has_index blocks"
    by (simp_all add: inode_def empty_inode_def INDEX_FL_def Let_def)
  ultimately have "\<exists>faults. directory_faults read n inode ?phys (Crc32cSum 5) = Ok faults
      \<and> (if n = 2 then faults = [] else length faults = length blocks)" for n
    by (intro verifies [rule_format]) (simp_all del: upt_Suc)
  from this [of 2] this [of 11] show ?thesis using built(1) stamped(1) by (auto simp del: upt_Suc)
qed

end
