(* ===== verification/Spec2Isabelle.thy ===== *)
theory Spec2Isabelle
  imports ExtentNode BlockAlloc Crc32c FatTable BlockCache DosTime Replay HtreeSearch GeometryAlloc DirCsum
begin

text \<open>
  A verification library for \<^verbatim>\<open>ferrosys\<close>, a Rust crate that formats and reads file system images: ext2,
  ext3 and ext4, FAT, exFAT, btrfs and APFS. The library models the pure core of the crate, mostly of
  its ext family: the code that decides where things go, what bytes they become, and what those bytes
  mean when they are read again. Files are under \<^verbatim>\<open>crates/ferrosys/src\<close>.

  \<^bold>\<open>The parts and how they interact.\<close> A formatter asks \<^verbatim>\<open>geometry.rs\<close> for a layout over the features of
  \<^verbatim>\<open>feature.rs\<close>; \<^verbatim>\<open>alloc.rs\<close> starts with the blocks the layout leaves over and hands them out;
  \<^verbatim>\<open>extent.rs\<close> turns what it handed out into an extent tree, whose nodes \<^verbatim>\<open>ondisk/extent.rs\<close> encodes;
  \<^verbatim>\<open>dir.rs\<close> packs names into directory blocks of the records of \<^verbatim>\<open>ondisk/dirent.rs\<close>, indexed by the
  hashes of \<^verbatim>\<open>hash.rs\<close> through the blocks of \<^verbatim>\<open>ondisk/htree.rs\<close>; \<^verbatim>\<open>journal.rs\<close> writes an empty journal;
  superblocks, group descriptors, inodes and orphan blocks are the records of \<^verbatim>\<open>ondisk\<close>, over the byte
  accessors of \<^verbatim>\<open>bytes.rs\<close>; and \<^verbatim>\<open>materialize.rs\<close> stamps each of them with a checksum by the recipes of
  \<^verbatim>\<open>csum.rs\<close> over \<^verbatim>\<open>crc32c.rs\<close>. A reader goes the other way: \<^verbatim>\<open>read.rs\<close> recomputes those checksums,
  parses extent nodes, walks directory blocks and searches the hash index, through the block cache of
  \<^verbatim>\<open>cache.rs\<close>, and \<^verbatim>\<open>replay.rs\<close> plans the recovery of a journal. The FAT
  table of \<^verbatim>\<open>fat/table.rs\<close> and the calendar of \<^verbatim>\<open>time.rs\<close> with the fields of \<^verbatim>\<open>exfat/ondisk/time.rs\<close>
  belong to the other families.

  \<^bold>\<open>Theories.\<close>
  \<^item> \<open>Prelude\<close>: outcomes, checked arithmetic, splicing, \<^verbatim>\<open>chunks\<close> and \<^verbatim>\<open>div_ceil\<close>; \<open>ByteFields\<close>: the
    accessors of \<^verbatim>\<open>bytes.rs\<close> behind the locale \<open>scalar_field\<close>, interpreted at every width; \<open>OnDisk\<close>:
    the parser's error and split fields of \<^verbatim>\<open>ondisk/mod.rs\<close>; \<open>ReadErr\<close>: the reader's errors.
  \<^item> \<open>Feature\<close>: feature words, sets and validation. \<open>Layout\<close>: the layout and its metadata regions.
    \<open>Geometry\<close>: the planner \<^verbatim>\<open>plan_layout\<close>; \<open>GeometrySound\<close>: groups tile the filesystem, metadata is
    apart, and where it is not; \<open>GeometryAlloc\<close>: the planner's layout under the allocator.
  \<^item> \<open>BlockAlloc\<close>: the bitmap allocator, its refinement to the list of free blocks, and the reachable
    states of a writer that uses it.
  \<^item> \<open>ExtentEntry\<close>, \<open>ExtentTree\<close>, \<open>ExtentNode\<close>: extent records, trees and their encoded nodes.
  \<^item> \<open>Dirent\<close>, \<open>DirPack\<close>, \<open>ReadDir\<close>: directory records, blocks and the reader's walk. \<open>DirHash\<close>,
    \<open>DirIndex\<close>, \<open>HtreeBuild\<close>: hashes, index blocks and the indexed layout; \<open>HtreeSpec\<close>, \<open>HtreeFind\<close>,
    \<open>HtreeSearch\<close>: the search and its correctness over every directory the layout builds.
  \<^item> \<open>FieldRuns\<close>: runs of field writes over ascending places, and what a read of the result finds;
    \<open>Inode\<close>, \<open>Superblock\<close>, \<open>GroupDesc\<close>: the three records with the codecs that are such runs, what of a
    record its form keeps, and the tail of an orphan block.
  \<^item> \<open>Csum\<close>: the recipes, and the identities they bind; \<open>MetaCsum\<close>: what the formatter stamps and the
    reader recomputes of each object, separate code on each side, shown to agree on the object's own
    identity and to disagree on another's; \<open>DirCsum\<close>: the same for the whole of a built directory, whose
    index blocks the reader finds by following the index.
  \<^item> \<open>Journal\<close>, \<open>Replay\<close>: the journal superblock, and recovery as a plan of copies.
  \<^item> \<open>Crc32c\<close>: slicing by eight against the bitwise division. \<open>BlockCache\<close>: the cache against a recency
    stack. \<open>FatTable\<close>: entries of twelve, sixteen and thirty-two bits. \<open>Time\<close>, \<open>DosTime\<close>: the civil
    calendar against the day-by-day Gregorian one, and the DOS and exFAT stamps.

  \<^bold>\<open>How the code is modelled.\<close> A structure is a record and an enum a datatype, with the source's names. A
  fallible operation returns an \<open>outcome\<close>: \<open>Ok\<close>, \<open>Err\<close> with the code's own error, or \<open>Panic\<close> for an
  index or slice out of range, an \<^verbatim>\<open>expect\<close>, and an overflow, which the repository's \<^verbatim>\<open>ci\<close> profile turns
  into a panic. On-disk fields are words of their width. A \<^verbatim>\<open>u64\<close> or \<^verbatim>\<open>usize\<close> that counts
  blocks or bytes is a \<open>nat\<close>, with the overflow check written out where a value of its type could
  reach it. A buffer the code mutates is passed and returned. A source of bytes the code reads
  from (the reader's own block read, the journal's log) is an argument. Loops are structural or carry a
  termination proof: the walk of a block by what is left of it, the descent of an index by its
  levels, the journal scan by its length, placement by the end of the last window. The one loop with a
  bound of its own, the search of the leaves of an index, has the source's bound, the blocks of
  the directory; \<open>find_leaf_present\<close> shows it is enough. Of the standard library, \<^verbatim>\<open>sort_by\<close> and \<^verbatim>\<open>sort_by_key\<close> are
  stable sorts and \<^verbatim>\<open>partition_point\<close> is the length of the prefix that satisfies its predicate.

  \<^bold>\<open>Not modelled.\<close> The writers and readers that move bytes between these parts and a device: the
  ext materializer and model builder past the stamping of checksums, the rest of the ext reader (block
  maps, file contents, extended attributes, the scan), every other family's reader and writer past the parts above, the archive and host
  sources and sinks, compression, format detection, and the command line. They are either input and
  output or compositions over state this library does not hold yet; generated Unicode tables and rendering
  of values as text are left out for good. A request that would loop for ever cannot be made of the
  modelled code: the base of \<open>is_power_loop\<close> and the flex size of \<open>place_flex\<close> are guarded here, and no caller
  passes the values the guards exclude.
\<close>

end
